(* ===== verification/Nsr_Prelude.thy ===== *)
theory Nsr_Prelude
  imports Main "HOL-Library.Word"
begin

text \<open>
  Shared ground of the development: the widths of the C integer types the program uses, C
  strings held in fixed-size character arrays, the generic lemmas on words, residues and
  lists that several components need, and the collections of rewrite rules the component
  theories fill.

  A C string is the \<open>string\<close> of its bytes before the terminating NUL; a NUL never occurs
  inside it.  A \<open>char a[N]\<close> member that holds a NUL-terminated string is modelled by that
  string, and \<open>strncpy (a, s, N - 1)\<close> into such an array, whose last byte is 0, by
  \<open>c_strncpy (N - 1) s\<close>: \<open>strncpy\<close> copies at most \<open>N - 1\<close> bytes of the source,
  fills the rest of them with NUL, and leaves the last byte alone.
\<close>

unbundle bit_operations_syntax

section \<open>Integer widths\<close>

type_synonym u8 = "8 word"
type_synonym u16 = "16 word"
type_synonym u32 = "32 word"
type_synonym u64 = "64 word"

named_theorems ring_simps \<open>index arithmetic of the shared-memory rings\<close>
named_theorems nsr_defs \<open>definitions of small helpers that proofs unfold freely\<close>

lemma unat_of_nat_small:
  assumes "n < 2 ^ LENGTH('a)"
  shows "unat (of_nat n :: 'a::len word) = n"
  using assms by (simp add: unat_of_nat)

lemma unat_and_mask:
  fixes x :: "'a::len word"
  assumes "k < LENGTH('a)"
  shows "unat (x AND mask k) = unat x mod 2 ^ k"
proof -
  have "x AND mask k = x mod 2 ^ k"
    by (simp flip: take_bit_eq_mask take_bit_eq_mod)
  moreover have "unat (2 ^ k :: 'a word) = 2 ^ k"
    using assms by (metis of_nat_numeral of_nat_power power_strict_increasing_iff one_less_numeral_iff semiring_norm(76) unat_of_nat_small)
  ultimately show ?thesis by (simp add: unat_mod_distrib)
qed

lemma unat_ucast:
  fixes w :: "'a::len word"
  shows "unat (ucast w :: 'b::len word) = unat w mod 2 ^ LENGTH('b)"
  by (simp add: unsigned_ucast_eq take_bit_eq_mod)

lemma unat_u8_less: "unat (w :: u8) < 256"
  by (rule less_le_trans [OF unsigned_less]) simp

lemma unat_u16_less: "unat (w :: u16) < 65536"
  by (rule less_le_trans [OF unsigned_less]) simp

text \<open>
  The value of a C \<open>int\<close>: 32 bits in two's complement.  C leaves the result of an overflow
  undefined; \<open>c_int\<close> is what the hardware computes, and the theorems have the conditions under which
  it does not matter.
\<close>

definition c_int :: "int \<Rightarrow> int" where
  "c_int z = (z + 2 ^ 31) mod 2 ^ 32 - 2 ^ 31"

lemma c_int_id [simp]: "- (2 ^ 31) \<le> z \<Longrightarrow> z < 2 ^ 31 \<Longrightarrow> c_int z = z"
  by (simp add: c_int_def)

lemma c_int_range: "- (2 ^ 31) \<le> c_int z" "c_int z < 2 ^ 31"
proof -
  have "0 \<le> (z + 2 ^ 31) mod 2 ^ 32" "(z + 2 ^ 31) mod 2 ^ 32 < 2 ^ 32" by simp_all
  then show "- (2 ^ 31) \<le> c_int z" "c_int z < 2 ^ 31" unfolding c_int_def by simp_all
qed

section \<open>Residues\<close>

lemma mod_add_window:
  fixes a b n :: nat
  assumes "b < n" "a < n"
  shows "(a + b) mod n = (if a + b < n then a + b else a + b - n)"
  using assms by (auto simp: mod_if)

lemma mod_sub_window:
  fixes h t n :: nat
  assumes "h < n" "t < n"
  shows "(h + n - t) mod n = (if t \<le> h then h - t else h + n - t)"
proof (cases "t \<le> h")
  case True
  then have "h + n - t = (h - t) + n" by simp
  then have "(h + n - t) mod n = (h - t) mod n" by (simp only: mod_add_self2)
  with True assms show ?thesis by simp
next
  case False
  with assms show ?thesis by simp
qed

text \<open>The distance of two counters, recovered from their residues.\<close>

lemma mod_diff_window:
  fixes H T n :: nat
  assumes "T \<le> H" "H - T < n"
  shows "(if T mod n \<le> H mod n then H mod n - T mod n else H mod n + n - T mod n) = H - T"
proof -
  obtain d where d: "H = T + d" using \<open>T \<le> H\<close> le_Suc_ex by blast
  define t where "t = T mod n"
  have dn: "d < n" "t < n" using assms d by (auto simp: t_def)
  have "H mod n = (t + d) mod n" by (simp add: t_def d mod_simps)
  also have "\<dots> = (if t + d < n then t + d else t + d - n)"
    using dn by (intro mod_add_window) auto
  finally have "(if t \<le> H mod n then H mod n - t else H mod n + n - t) = d"
    using dn by (auto split: if_splits)
  moreover have "H - T = d" by (simp add: d)
  ultimately show ?thesis unfolding t_def by simp
qed

text \<open>Two positions of a window shorter than the modulus fall on different residues.\<close>

lemma mod_window_inj:
  fixes i j n :: nat
  assumes eq: "i mod n = j mod n" and "i \<le> j" and "j < i + n"
  shows "i = j"
proof -
  from eq [symmetric] \<open>i \<le> j\<close> have "n dvd j - i"
    by (simp add: mod_eq_dvd_iff_nat)
  moreover from \<open>i \<le> j\<close> \<open>j < i + n\<close> have "j - i < n" by arith
  ultimately have "j - i = 0"
    by (meson dvd_imp_le not_le zero_less_iff_neq_zero)
  with \<open>i \<le> j\<close> show ?thesis by simp
qed

lemma mod_window_neq:
  fixes i j n :: nat
  assumes "i \<noteq> j" "a \<le> i" "i < a + n" "a \<le> j" "j < a + n"
  shows "i mod n \<noteq> j mod n"
proof
  assume eq: "i mod n = j mod n"
  show False
  proof (cases "i \<le> j")
    case True
    with eq assms show False using mod_window_inj [of i n j] by simp
  next
    case False
    with eq assms show False using mod_window_inj [of j n i] by simp
  qed
qed

section \<open>Lists\<close>

lemma map_nth_drop:
  "map (\<lambda>i. xs ! (k + i)) [0..<length xs - k] = drop k xs"
  by (rule nth_equalityI) auto

lemma map_nth_take:
  "k \<le> length xs \<Longrightarrow> map (\<lambda>i. xs ! i) [0..<k] = take k xs"
  by (rule nth_equalityI) auto

section \<open>C strings\<close>

definition c_string :: "string \<Rightarrow> bool" where
  "c_string s \<longleftrightarrow> CHR 0x00 \<notin> set s"

definition c_strncpy :: "nat \<Rightarrow> string \<Rightarrow> string" where
  "c_strncpy n s = take n s"

lemma c_strncpy_id [simp]: "length s \<le> n \<Longrightarrow> c_strncpy n s = s"
  by (simp add: c_strncpy_def)

lemma length_c_strncpy [simp]: "length (c_strncpy n s) \<le> n"
  by (simp add: c_strncpy_def)

lemma c_strncpy_eq_Nil [simp]: "0 < n \<Longrightarrow> c_strncpy n s = [] \<longleftrightarrow> s = []"
  by (auto simp: c_strncpy_def)

lemma c_string_strncpy [simp]: "c_string s \<Longrightarrow> c_string (c_strncpy n s)"
  by (auto simp: c_string_def c_strncpy_def dest: in_set_takeD)

end
