(* ===== verification/Shm_Ring.thy ===== *)
theory Shm_Ring
  imports Nsr_Prelude
begin

text \<open>
  The shared-memory rings of \<open>include/nsr/shm_ring.h\<close>.  The small ring
  (\<open>nsr_shm_ring_t\<close>, 131072 slots, batch push and pop) carries intents from the logic
  engine to the gatekeeper and observations back; the large ring
  (\<open>nsr_shm_ring_large_t\<close>, 16 slots) carries telemetry snapshots to the renderer.  Both
  are single-producer single-consumer.

  A slot holds the bytes of one C struct; each ring carries one struct type, so a slot is a
  value of an item type \<open>'a\<close>.  The small ring masks every index before it uses it, and its
  data array is a function on slot numbers.  The large ring uses its head and tail unmasked
  as array indices; its data is a list and an index outside it, undefined in C, is \<open>None\<close>.

  The interfaces \<open>fifo\<close> and \<open>batch_fifo\<close> state what a bounded first-in first-out queue
  promises; both rings are interpreted as instances.
\<close>

section \<open>The code's definitions\<close>

definition SHM_RING_SIZE :: u32 where
  "SHM_RING_SIZE = 131072"

record 'a nsr_shm_ring =
  head :: u32
  tail :: u32
  data :: "nat \<Rightarrow> 'a"

record 'a nsr_shm_ring_large =
  lhead :: u32
  ltail :: u32
  ldata :: "'a list"

definition ring_mask :: "u32 \<Rightarrow> u32" where
  "ring_mask x = x AND (SHM_RING_SIZE - 1)"

text \<open>The copy loops of push and pop: slot \<open>(h + i) & (SHM_RING_SIZE - 1)\<close> for each \<open>i\<close>.\<close>

fun ring_write :: "(nat \<Rightarrow> 'a) \<Rightarrow> u32 \<Rightarrow> u32 \<Rightarrow> 'a list \<Rightarrow> nat \<Rightarrow> 'a" where
  "ring_write d h i [] = d"
| "ring_write d h i (x # xs) = ring_write (d(unat (ring_mask (h + i)) := x)) h (i + 1) xs"

definition ring_read :: "(nat \<Rightarrow> 'a) \<Rightarrow> u32 \<Rightarrow> nat \<Rightarrow> 'a list" where
  "ring_read d t count = map (\<lambda>i. d (unat (ring_mask (t + of_nat i)))) [0..<count]"

definition nsr_shm_ring_push_batch :: "'a nsr_shm_ring \<Rightarrow> 'a list \<Rightarrow> bool \<times> 'a nsr_shm_ring" where
  "nsr_shm_ring_push_batch r items =
     (let h = head r; t = tail r;
          count = of_nat (length items);
          next' = ring_mask (h + count);
          used = ring_mask (h - t)
      in if used + count \<ge> SHM_RING_SIZE - 1 then (False, r)
         else (True, r\<lparr>data := ring_write (data r) h 0 items, head := next'\<rparr>))"

definition nsr_shm_ring_push :: "'a nsr_shm_ring \<Rightarrow> 'a \<Rightarrow> bool \<times> 'a nsr_shm_ring" where
  "nsr_shm_ring_push r item = nsr_shm_ring_push_batch r [item]"

text \<open>
  \<open>max_count\<close> is the C \<open>int\<close> argument as the code compares it, converted to
  \<open>uint32_t\<close>.  The result is the list of popped items; its length is the return value.
\<close>

definition nsr_shm_ring_pop_batch :: "'a nsr_shm_ring \<Rightarrow> u32 \<Rightarrow> 'a list \<times> 'a nsr_shm_ring" where
  "nsr_shm_ring_pop_batch r max_count =
     (let t = tail r; h = head r;
          available = ring_mask (h - t)
      in if available = 0 then ([], r)
         else let count = (if available < max_count then available else max_count)
              in (ring_read (data r) t (unat count), r\<lparr>tail := ring_mask (t + count)\<rparr>))"

definition nsr_shm_ring_pop :: "'a nsr_shm_ring \<Rightarrow> 'a option \<times> 'a nsr_shm_ring" where
  "nsr_shm_ring_pop r =
     (case nsr_shm_ring_pop_batch r 1 of
        (xs, r') \<Rightarrow> (if length xs = 1 then Some (hd xs) else None, r'))"

definition nsr_shm_ring_large_push ::
    "'a nsr_shm_ring_large \<Rightarrow> 'a \<Rightarrow> (bool \<times> 'a nsr_shm_ring_large) option" where
  "nsr_shm_ring_large_push r item =
     (let h = lhead r; t = ltail r
      in if (h + 1) AND 15 = t then Some (False, r)
         else if unat h < length (ldata r)
              then Some (True, r\<lparr>ldata := (ldata r)[unat h := item], lhead := (h + 1) AND 15\<rparr>)
              else None)"

definition nsr_shm_ring_large_pop ::
    "'a nsr_shm_ring_large \<Rightarrow> ('a option \<times> 'a nsr_shm_ring_large) option" where
  "nsr_shm_ring_large_pop r =
     (let t = ltail r; h = lhead r
      in if t = h then Some (None, r)
         else if unat t < length (ldata r)
              then Some (Some (ldata r ! unat t), r\<lparr>ltail := (t + 1) AND 15\<rparr>)
              else None)"

section \<open>What a bounded queue promises\<close>

datatype 'a fifo_op = Push 'a | Pop

text \<open>
  A run of pushes and pops over any queue: the items accepted, the items delivered and the
  queue at the end.
\<close>

fun fifo_run :: "('q \<Rightarrow> 'a \<Rightarrow> bool \<times> 'q) \<Rightarrow> ('q \<Rightarrow> 'a option \<times> 'q) \<Rightarrow> 'a fifo_op list \<Rightarrow> 'q \<Rightarrow>
    'a list \<times> 'a list \<times> 'q" where
  "fifo_run push pop [] q = ([], [], q)"
| "fifo_run push pop (Push x # ops) q =
     (case push q x of (ok, q') \<Rightarrow>
        case fifo_run push pop ops q' of (acc, del, q'') \<Rightarrow>
          (if ok then x # acc else acc, del, q''))"
| "fifo_run push pop (Pop # ops) q =
     (case pop q of (y, q') \<Rightarrow>
        case fifo_run push pop ops q' of (acc, del, q'') \<Rightarrow>
          (acc, case y of None \<Rightarrow> del | Some v \<Rightarrow> v # del, q''))"

text \<open>
  \<open>fifo\<close>: one item at a time.  \<open>contents\<close> is the queue as a list, oldest first.
\<close>

locale fifo =
  fixes push :: "'q \<Rightarrow> 'a \<Rightarrow> bool \<times> 'q"
    and pop :: "'q \<Rightarrow> 'a option \<times> 'q"
    and contents :: "'q \<Rightarrow> 'a list"
    and invar :: "'q \<Rightarrow> bool"
    and capacity :: nat
  assumes bounded: "invar q \<Longrightarrow> length (contents q) \<le> capacity"
    and push_full: "invar q \<Longrightarrow> length (contents q) = capacity \<Longrightarrow> push q x = (False, q)"
    and push_room: "invar q \<Longrightarrow> length (contents q) < capacity \<Longrightarrow>
           fst (push q x) \<and> contents (snd (push q x)) = contents q @ [x] \<and> invar (snd (push q x))"
    and pop_empty: "invar q \<Longrightarrow> contents q = [] \<Longrightarrow> pop q = (None, q)"
    and pop_head: "invar q \<Longrightarrow> contents q = x # xs \<Longrightarrow>
           fst (pop q) = Some x \<and> contents (snd (pop q)) = xs \<and> invar (snd (pop q))"
begin

lemma push_cases:
  assumes "invar q"
  obtains "push q x = (False, q)" "length (contents q) = capacity"
  | q' where "push q x = (True, q')" "contents q' = contents q @ [x]" "invar q'"
proof (cases "length (contents q) = capacity")
  case True
  with push_full assms that(1) show thesis by blast
next
  case False
  with bounded [OF assms] have "length (contents q) < capacity" by simp
  from push_room [OF assms this, of x] have
    "push q x = (True, snd (push q x))" "contents (snd (push q x)) = contents q @ [x]"
    "invar (snd (push q x))"
    by (auto simp: prod_eq_iff)
  with that(2) show thesis by blast
qed

lemma pop_cases:
  assumes "invar q"
  obtains "pop q = (None, q)" "contents q = []"
  | x q' where "pop q = (Some x, q')" "contents q = x # contents q'" "invar q'"
proof (cases "contents q")
  case Nil
  with pop_empty assms that(1) show thesis by blast
next
  case (Cons x xs)
  from pop_head [OF assms Cons] have
    "pop q = (Some x, snd (pop q))" "contents (snd (pop q)) = xs" "invar (snd (pop q))"
    by (auto simp: prod_eq_iff)
  with that(2) Cons show thesis by blast
qed

text \<open>
  Nothing accepted is lost, duplicated or reordered: what was queued at the start followed by
  what was accepted is what was delivered followed by what is still queued.
\<close>

lemma run_fifo:
  assumes "invar q" "fifo_run push pop ops q = (acc, del, q')"
  shows "invar q' \<and> contents q @ acc = del @ contents q'"
  using assms
proof (induction ops arbitrary: q acc del)
  case Nil
  then show ?case by simp
next
  case (Cons op ops)
  show ?case
  proof (cases op)
    case (Push x)
    from \<open>invar q\<close> show ?thesis
    proof (cases rule: push_cases [of q x])
      case 1
      with Cons.IH [of q] Cons.prems Push show ?thesis by (auto split: prod.splits)
    next
      case (2 qm)
      then show ?thesis using Cons.IH [of qm] Cons.prems Push by (auto split: prod.splits)
    qed
  next
    case Pop
    from \<open>invar q\<close> show ?thesis
    proof (cases rule: pop_cases [of q])
      case 1
      with Cons.IH [of q] Cons.prems Pop show ?thesis by (auto split: prod.splits)
    next
      case (2 y qm)
      then show ?thesis using Cons.IH [of qm] Cons.prems Pop by (auto split: prod.splits)
    qed
  qed
qed

end

text \<open>
  \<open>batch_fifo\<close>: a batch is accepted whole or not at all, and a pop returns at most as many
  items as asked for.  Batches longer than \<open>max_batch\<close> are outside the contract.
\<close>

locale batch_fifo =
  fixes push_batch :: "'q \<Rightarrow> 'a list \<Rightarrow> bool \<times> 'q"
    and pop_batch :: "'q \<Rightarrow> nat \<Rightarrow> 'a list \<times> 'q"
    and contents :: "'q \<Rightarrow> 'a list"
    and invar :: "'q \<Rightarrow> bool"
    and capacity :: nat
    and max_batch :: nat
  assumes batch_bounded: "invar q \<Longrightarrow> length (contents q) \<le> capacity"
    and max_batch: "1 \<le> max_batch"
    and push_batch_full: "invar q \<Longrightarrow> length xs \<le> max_batch \<Longrightarrow>
          capacity < length (contents q) + length xs \<Longrightarrow> push_batch q xs = (False, q)"
    and push_batch_room: "invar q \<Longrightarrow> length xs \<le> max_batch \<Longrightarrow>
          length (contents q) + length xs \<le> capacity \<Longrightarrow>
          fst (push_batch q xs) \<and> contents (snd (push_batch q xs)) = contents q @ xs \<and>
          invar (snd (push_batch q xs))"
    and pop_batch: "invar q \<Longrightarrow> n \<le> max_batch \<Longrightarrow>
          fst (pop_batch q n) = take n (contents q) \<and>
          contents (snd (pop_batch q n)) = drop n (contents q) \<and>
          invar (snd (pop_batch q n)) \<and> (contents q = [] \<longrightarrow> snd (pop_batch q n) = q)"

sublocale batch_fifo \<subseteq> fifo
  "\<lambda>q x. push_batch q [x]"
  "\<lambda>q. case pop_batch q 1 of (xs, q') \<Rightarrow> (if length xs = 1 then Some (hd xs) else None, q')"
  contents invar capacity
proof (unfold_locales, goal_cases)
  case 1
  then show ?case by (rule batch_bounded)
next
  case (2 q x)
  then show ?case using max_batch by (intro push_batch_full) auto
next
  case (3 q x)
  then show ?case using max_batch push_batch_room [of q "[x]"] by simp
next
  case (4 q)
  with pop_batch [of q 1] max_batch show ?case by (auto split: prod.splits)
next
  case (5 q x xs)
  with pop_batch [of q 1] max_batch show ?case by (auto split: prod.splits)
qed

section \<open>Index arithmetic\<close>

lemma unat_ring_mask [ring_simps]: "unat (ring_mask x) = unat x mod 131072"
  using unat_and_mask [of 17 x] by (simp add: ring_mask_def SHM_RING_SIZE_def mask_eq_exp_minus_1)

lemma ring_slot [ring_simps]: "unat (ring_mask (h + of_nat i)) = (unat h + i) mod 131072"
proof -
  have "unat (ring_mask (h + of_nat i)) = (unat h + i) mod 4294967296 mod 131072"
    by (simp add: unat_ring_mask unat_word_ariths unat_of_nat mod_simps)
  also have "\<dots> = (unat h + i) mod 131072"
    by (rule mod_mod_cancel) simp
  finally show ?thesis .
qed

text \<open>The number of queued items, as the code computes it from head and tail.\<close>

definition ring_used :: "'a nsr_shm_ring \<Rightarrow> nat" where
  "ring_used r = unat (ring_mask (head r - tail r))"

definition ring_contents :: "'a nsr_shm_ring \<Rightarrow> 'a list" where
  "ring_contents r = map (\<lambda>i. data r ((unat (tail r) + i) mod 131072)) [0..<ring_used r]"

definition ring_inv :: "'a nsr_shm_ring \<Rightarrow> bool" where
  "ring_inv r \<longleftrightarrow> unat (head r) < 131072 \<and> unat (tail r) < 131072 \<and> ring_used r \<le> 131070"

lemma length_ring_contents [simp]: "length (ring_contents r) = ring_used r"
  by (simp add: ring_contents_def)

lemma ring_used_eq:
  assumes h: "unat (head r) < 131072" and t: "unat (tail r) < 131072"
  shows "ring_used r = (if unat (tail r) \<le> unat (head r) then unat (head r) - unat (tail r)
                        else unat (head r) + 131072 - unat (tail r))"
proof (cases "unat (tail r) \<le> unat (head r)")
  case True
  with h show ?thesis by (simp add: ring_used_def unat_ring_mask unat_sub_if')
next
  case False
  with t have "unat (head r - tail r) = (unat (head r) + 131072 - unat (tail r)) + 32767 * 131072"
    by (simp add: unat_sub_if')
  then have "ring_used r = (unat (head r) + 131072 - unat (tail r)) mod 131072"
    unfolding ring_used_def unat_ring_mask by (simp only: mod_mult_self1)
  also have "\<dots> = unat (head r) + 131072 - unat (tail r)"
    using False by (intro mod_less) simp
  finally show ?thesis using False by simp
qed

text \<open>The head is the tail advanced by the number of queued items.\<close>

lemma ring_head_eq:
  assumes "ring_inv r"
  shows "unat (head r) = (unat (tail r) + ring_used r) mod 131072"
proof -
  have h: "unat (head r) < 131072" and t: "unat (tail r) < 131072"
    using assms by (auto simp: ring_inv_def)
  show ?thesis
  proof (cases "unat (tail r) \<le> unat (head r)")
    case True
    with h show ?thesis by (simp add: ring_used_eq [OF h t])
  next
    case False
    then have "unat (tail r) + ring_used r = unat (head r) + 131072"
      using t by (simp add: ring_used_eq [OF h t])
    with h show ?thesis by simp
  qed
qed

text \<open>The copy loop writes exactly the slots of the batch.\<close>

lemma ring_write_other:
  assumes "\<And>i. i < length items \<Longrightarrow> k \<noteq> (unat h + j + i) mod 131072"
  shows "ring_write d h (of_nat j) items k = d k"
  using assms
proof (induction items arbitrary: d j)
  case Nil
  then show ?case by simp
next
  case (Cons x xs)
  have "ring_write (d(unat (ring_mask (h + of_nat j)) := x)) h (of_nat (Suc j)) xs k
        = (d(unat (ring_mask (h + of_nat j)) := x)) k"
    using Cons.prems [of "Suc i" for i] by (intro Cons.IH) auto
  then show ?case using Cons.prems [of 0] by (simp add: ring_slot algebra_simps)
qed

lemma ring_write_at:
  assumes "i < length items" "length items \<le> 131072"
  shows "ring_write d h (of_nat j) items ((unat h + j + i) mod 131072) = items ! i"
  using assms
proof (induction items arbitrary: d j i)
  case Nil
  then show ?case by simp
next
  case (Cons x xs)
  let ?d = "d(unat (ring_mask (h + of_nat j)) := x)"
  have step: "ring_write d h (of_nat j) (x # xs) = ring_write ?d h (of_nat (Suc j)) xs"
    by (simp add: algebra_simps)
  show ?case
  proof (cases i)
    case 0
    have "ring_write ?d h (of_nat (Suc j)) xs ((unat h + j) mod 131072) = ?d ((unat h + j) mod 131072)"
    proof (rule ring_write_other)
      fix l assume "l < length xs"
      with Cons.prems(2) show "(unat h + j) mod 131072 \<noteq> (unat h + Suc j + l) mod 131072"
        using mod_window_neq [of "unat h + j" "unat h + Suc j + l" "unat h + j" 131072] by simp
    qed
    with 0 show ?thesis unfolding step by (simp add: ring_slot)
  next
    case (Suc i')
    have "ring_write ?d h (of_nat (Suc j)) xs ((unat h + Suc j + i') mod 131072) = xs ! i'"
      using Cons.prems Suc by (intro Cons.IH) auto
    with Suc show ?thesis unfolding step by simp
  qed
qed

section \<open>The small ring refines the batch queue\<close>

lemma push_batch_eq:
  assumes inv: "ring_inv r" and len: "length xs \<le> 2147483647"
  shows "nsr_shm_ring_push_batch r xs =
    (if 131070 < ring_used r + length xs then (False, r)
     else (True, r\<lparr>data := ring_write (data r) (head r) 0 xs,
                  head := ring_mask (head r + of_nat (length xs))\<rparr>))"
proof -
  have "unat (ring_mask (head r - tail r) + of_nat (length xs)) = ring_used r + length xs"
    using inv len by (simp add: ring_inv_def ring_used_def unat_word_ariths unat_of_nat)
  then have "ring_mask (head r - tail r) + of_nat (length xs) \<ge> SHM_RING_SIZE - 1 \<longleftrightarrow>
             131070 < ring_used r + length xs"
    by (auto simp: word_le_nat_alt SHM_RING_SIZE_def)
  then show ?thesis by (simp add: nsr_shm_ring_push_batch_def Let_def)
qed

lemma pushed_ring:
  assumes inv: "ring_inv r" and room: "ring_used r + length xs \<le> 131070"
  defines "r' \<equiv> r\<lparr>data := ring_write (data r) (head r) 0 xs,
                  head := ring_mask (head r + of_nat (length xs))\<rparr>"
  shows "ring_used r' = ring_used r + length xs"
    and "ring_inv r'" and "ring_contents r' = ring_contents r @ xs"
proof -
  have t: "unat (tail r) < 131072" using inv by (simp add: ring_inv_def)
  have h': "unat (head r') = (unat (tail r) + (ring_used r + length xs)) mod 131072"
    using ring_head_eq [OF inv] by (simp add: r'_def ring_slot mod_simps algebra_simps)
  show used: "ring_used r' = ring_used r + length xs"
  proof -
    have "unat (head r') < 131072" "unat (tail r') < 131072" using h' t by (auto simp: r'_def)
    then have "ring_used r' = (if unat (tail r) \<le> unat (head r') then unat (head r') - unat (tail r)
                        else unat (head r') + 131072 - unat (tail r))"
      using ring_used_eq [of r'] by (simp add: r'_def)
    then show ?thesis
      using h' t room mod_add_window [of "ring_used r + length xs" 131072 "unat (tail r)"] by auto
  qed
  show "ring_inv r'" using used room h' t by (simp add: ring_inv_def) (simp add: r'_def)
  show "ring_contents r' = ring_contents r @ xs"
  proof (rule nth_equalityI)
    show "length (ring_contents r') = length (ring_contents r @ xs)" by (simp add: used)
  next
    fix i assume "i < length (ring_contents r')"
    then have i: "i < ring_used r + length xs" by (simp add: used)
    have nth': "ring_contents r' ! i = data r' ((unat (tail r) + i) mod 131072)"
      using i used by (simp add: ring_contents_def) (simp add: r'_def)
    show "ring_contents r' ! i = (ring_contents r @ xs) ! i"
    proof (cases "i < ring_used r")
      case True
      have "ring_write (data r) (head r) (of_nat 0) xs ((unat (tail r) + i) mod 131072)
            = data r ((unat (tail r) + i) mod 131072)"
      proof (rule ring_write_other)
        fix j assume "j < length xs"
        with True room have "(unat (tail r) + i) mod 131072 \<noteq> (unat (tail r) + ring_used r + j) mod 131072"
          by (intro mod_window_neq [of _ _ "unat (tail r)"]) auto
        then show "(unat (tail r) + i) mod 131072 \<noteq> (unat (head r) + 0 + j) mod 131072"
          by (simp add: ring_head_eq [OF inv] mod_simps)
      qed
      with True nth' show ?thesis by (simp add: nth_append ring_contents_def r'_def)
    next
      case False
      then obtain m where m: "i = ring_used r + m" using le_Suc_ex not_less by blast
      have "(unat (tail r) + i) mod 131072 = (unat (head r) + 0 + (i - ring_used r)) mod 131072"
        unfolding m by (simp add: ring_head_eq [OF inv] mod_simps algebra_simps)
      moreover have "ring_write (data r) (head r) (of_nat 0) xs
          ((unat (head r) + 0 + (i - ring_used r)) mod 131072) = xs ! (i - ring_used r)"
        using False i room by (intro ring_write_at) auto
      ultimately show ?thesis using False nth' by (simp add: nth_append r'_def)
    qed
  qed
qed

lemma pop_batch_eq:
  assumes inv: "ring_inv r" and n: "n \<le> 2147483647"
  shows "fst (nsr_shm_ring_pop_batch r (of_nat n)) = take n (ring_contents r)"
    and "snd (nsr_shm_ring_pop_batch r (of_nat n)) =
          (if ring_used r = 0 then r else r\<lparr>tail := ring_mask (tail r + of_nat (min n (ring_used r)))\<rparr>)"
proof -
  let ?av = "ring_mask (head r - tail r)"
  have un: "unat (of_nat n :: u32) = n" using n by (simp add: unat_of_nat)
  have cnt: "(if ?av < of_nat n then ?av else of_nat n) = (of_nat (min n (ring_used r)) :: u32)"
    unfolding ring_used_def by (auto simp: word_less_nat_alt un min_def)
  have zero: "?av = 0 \<longleftrightarrow> ring_used r = 0"
    by (simp add: ring_used_def unat_eq_0)
  have "ring_read (data r) (tail r) (min n (ring_used r)) = take n (ring_contents r)"
    by (rule nth_equalityI) (auto simp: ring_read_def ring_contents_def ring_slot)
  moreover have "unat (of_nat (min n (ring_used r)) :: u32) = min n (ring_used r)"
    using n by (intro unat_of_nat_small) simp
  moreover have "ring_used r = 0 \<Longrightarrow> ring_contents r = []"
    by (simp add: ring_contents_def)
  ultimately show "fst (nsr_shm_ring_pop_batch r (of_nat n)) = take n (ring_contents r)"
    and "snd (nsr_shm_ring_pop_batch r (of_nat n)) =
          (if ring_used r = 0 then r else r\<lparr>tail := ring_mask (tail r + of_nat (min n (ring_used r)))\<rparr>)"
    unfolding nsr_shm_ring_pop_batch_def Let_def cnt zero by auto
qed

lemma popped_ring:
  assumes inv: "ring_inv r" and m: "m \<le> ring_used r"
  defines "r' \<equiv> r\<lparr>tail := ring_mask (tail r + of_nat m)\<rparr>"
  shows "ring_used r' = ring_used r - m"
    and "ring_inv r'" and "ring_contents r' = drop m (ring_contents r)"
proof -
  have t: "unat (tail r) < 131072" and h: "unat (head r) < 131072" and u: "ring_used r \<le> 131070"
    using inv by (auto simp: ring_inv_def)
  have t': "unat (tail r') = (unat (tail r) + m) mod 131072"
    by (simp add: r'_def ring_slot)
  show used: "ring_used r' = ring_used r - m"
  proof -
    have "unat (head r') < 131072" "unat (tail r') < 131072" using t' h by (auto simp: r'_def)
    then have "ring_used r' = (if unat (tail r') \<le> unat (head r) then unat (head r) - unat (tail r')
                        else unat (head r) + 131072 - unat (tail r'))"
      using ring_used_eq [of r'] by (simp add: r'_def)
    then show ?thesis
      using t t' u m h ring_used_eq [OF h t] mod_add_window [of m 131072 "unat (tail r)"]
      by (auto split: if_splits)
  qed
  show "ring_inv r'" using used u t' h by (simp add: ring_inv_def) (simp add: r'_def)
  show "ring_contents r' = drop m (ring_contents r)"
  proof (rule nth_equalityI)
    show "length (ring_contents r') = length (drop m (ring_contents r))" by (simp add: used)
  next
    fix i assume "i < length (ring_contents r')"
    then have i: "i < ring_used r - m" by (simp add: used)
    then have "ring_contents r' ! i = data r ((unat (tail r) + m + i) mod 131072)"
      using used by (simp add: ring_contents_def t' mod_simps) (simp add: r'_def)
    moreover have "ring_contents r ! (m + i) = data r ((unat (tail r) + (m + i)) mod 131072)"
      using i nth_upt [of 0 "m + i" "ring_used r"] by (simp add: ring_contents_def)
    ultimately show "ring_contents r' ! i = drop m (ring_contents r) ! i"
      using i m by (simp add: add.assoc)
  qed
qed

text \<open>A pop of \<open>c\<close> queued items leaves \<open>c\<close> fewer, whatever the two words hold.\<close>

lemma uint_ring_mask: "uint (ring_mask x) = uint x mod 131072"
proof -
  have "uint (ring_mask x) = int (unat x mod 131072)" by (simp flip: unat_ring_mask)
  then show ?thesis by (simp add: zmod_int)
qed

lemma uint_ring_mask_diff: "uint (ring_mask (a - b)) = (uint a - uint b) mod 131072"
proof -
  have "uint (ring_mask (a - b)) = (uint a - uint b) mod 4294967296 mod 131072"
    by (simp add: uint_ring_mask uint_word_ariths)
  also have "\<dots> = (uint a - uint b) mod 131072"
    by (rule mod_mod_cancel) simp
  finally show ?thesis .
qed

lemma uint_ring_mask_add: "uint (ring_mask (a + b)) = (uint a + uint b) mod 131072"
proof -
  have "uint (ring_mask (a + b)) = (uint a + uint b) mod 4294967296 mod 131072"
    by (simp add: uint_ring_mask uint_word_ariths)
  also have "\<dots> = (uint a + uint b) mod 131072"
    by (rule mod_mod_cancel) simp
  finally show ?thesis .
qed

lemma ring_used_popped:
  assumes "c \<le> ring_mask (head r - tail r)"
  shows "ring_used (r\<lparr>tail := ring_mask (tail r + c)\<rparr>) = ring_used r - unat c"
proof -
  let ?u = "uint (ring_mask (head r - tail r))"
  have le: "uint c \<le> ?u" using assms by (simp add: word_le_def)
  have "uint (ring_mask (head r - ring_mask (tail r + c))) = (uint (head r) - uint (tail r) - uint c) mod 131072"
    by (simp add: uint_ring_mask_diff uint_ring_mask_add mod_simps algebra_simps)
  also have "\<dots> = (?u - uint c) mod 131072"
    by (simp add: uint_ring_mask_diff mod_simps)
  also have "\<dots> = ?u - uint c"
    using le by (intro mod_pos_pos_trivial) (auto simp: uint_ring_mask intro: le_less_trans [OF diff_left_mono])
  finally have "int (ring_used (r\<lparr>tail := ring_mask (tail r + c)\<rparr>)) = int (ring_used r) - int (unat c)"
    by (simp add: ring_used_def)
  then show ?thesis by linarith
qed

interpretation ring: batch_fifo
  nsr_shm_ring_push_batch "\<lambda>r n. nsr_shm_ring_pop_batch r (of_nat n)"
  ring_contents ring_inv 131070 2147483647
proof (unfold_locales, goal_cases)
  case (1 r)
  then show ?case by (simp add: ring_inv_def)
next
  case 2
  then show ?case by simp
next
  case (3 r xs)
  then show ?case by (simp add: push_batch_eq)
next
  case (4 r xs)
  then show ?case using pushed_ring [of r xs] by (simp add: push_batch_eq)
next
  case (5 r n)
  have "ring_contents r = [] \<longleftrightarrow> ring_used r = 0" by (simp add: ring_contents_def)
  with 5 pop_batch_eq [of r n] popped_ring [of r "min n (ring_used r)"] show ?case
    by (auto simp: min_def split: if_splits)
qed

text \<open>
  The ring the code starts from: both words zeroed (\<open>memset\<close> in \<open>main\<close>).
\<close>

definition ring_zero :: "(nat \<Rightarrow> 'a) \<Rightarrow> 'a nsr_shm_ring" where
  "ring_zero d = \<lparr>head = 0, tail = 0, data = d\<rparr>"

lemma ring_zero [simp]:
  "ring_inv (ring_zero d)" "ring_contents (ring_zero d) = []" "ring_used (ring_zero d) = 0"
  by (simp_all add: ring_zero_def ring_inv_def ring_contents_def ring_used_def unat_ring_mask)

section \<open>The large ring refines the queue\<close>

definition large_used :: "'a nsr_shm_ring_large \<Rightarrow> nat" where
  "large_used r = (unat (lhead r) + 16 - unat (ltail r)) mod 16"

definition large_contents :: "'a nsr_shm_ring_large \<Rightarrow> 'a list" where
  "large_contents r = map (\<lambda>i. ldata r ! ((unat (ltail r) + i) mod 16)) [0..<large_used r]"

definition large_inv :: "'a nsr_shm_ring_large \<Rightarrow> bool" where
  "large_inv r \<longleftrightarrow> unat (lhead r) < 16 \<and> unat (ltail r) < 16 \<and> length (ldata r) = 16"

definition large_zero :: "'a list \<Rightarrow> 'a nsr_shm_ring_large" where
  "large_zero d = \<lparr>lhead = 0, ltail = 0, ldata = d\<rparr>"

lemma large_zero [simp]:
  "length d = 16 \<Longrightarrow> large_inv (large_zero d)" "large_contents (large_zero d) = []"
  by (simp_all add: large_zero_def large_inv_def large_contents_def large_used_def)

lemma length_large_contents [simp]: "length (large_contents r) = large_used r"
  by (simp add: large_contents_def)

lemma large_used_lt: "large_used r < 16"
  by (simp add: large_used_def)

lemma unat_succ_and_15 [ring_simps]:
  "unat (((x :: u32) + 1) AND 15) = (unat x + 1) mod 16"
proof -
  have "unat ((x + 1) AND 15) = unat (x + 1) mod 16"
    using unat_and_mask [of 4 "x + 1"] by (simp add: mask_eq_exp_minus_1)
  also have "\<dots> = (unat x + 1) mod 4294967296 mod 16"
    by (simp add: unat_word_ariths)
  also have "\<dots> = (unat x + 1) mod 16"
    by (rule mod_mod_cancel) simp
  finally show ?thesis .
qed

lemma large_head_eq:
  assumes "large_inv r"
  shows "unat (lhead r) = (unat (ltail r) + large_used r) mod 16"
  using assms by (simp add: large_inv_def large_used_def mod_simps)

lemma large_used_eq:
  assumes "unat (lhead r) < 16" "unat (ltail r) < 16"
  shows "large_used r = (if unat (ltail r) \<le> unat (lhead r) then unat (lhead r) - unat (ltail r)
                         else unat (lhead r) + 16 - unat (ltail r))"
  unfolding large_used_def by (rule mod_sub_window) (use assms in auto)

lemma large_full_iff:
  assumes "large_inv r"
  shows "(lhead r + 1) AND 15 = ltail r \<longleftrightarrow> large_used r = 15"
proof -
  have "unat (lhead r) < 16" "unat (ltail r) < 16" using assms by (auto simp: large_inv_def)
  then have "(unat (lhead r) + 1) mod 16 = unat (ltail r) \<longleftrightarrow> large_used r = 15"
    using large_used_eq [of r] mod_add_window [of 1 16 "unat (lhead r)"] by (auto split: if_splits)
  then show ?thesis by (simp add: word_unat_eq_iff ring_simps)
qed

lemma large_empty_iff:
  assumes "large_inv r"
  shows "ltail r = lhead r \<longleftrightarrow> large_used r = 0"
proof -
  have "unat (lhead r) < 16" "unat (ltail r) < 16" using assms by (auto simp: large_inv_def)
  then have "unat (ltail r) = unat (lhead r) \<longleftrightarrow> large_used r = 0"
    using large_used_eq [of r] by (auto split: if_splits)
  then show ?thesis by (simp add: word_unat_eq_iff)
qed

lemma large_push_eq:
  assumes "large_inv r"
  shows "nsr_shm_ring_large_push r x = Some
    (if large_used r = 15 then (False, r)
     else (True, r\<lparr>ldata := (ldata r)[unat (lhead r) := x], lhead := (lhead r + 1) AND 15\<rparr>))"
  using assms by (auto simp: nsr_shm_ring_large_push_def large_full_iff large_inv_def Let_def)

lemma large_pushed:
  fixes r :: "'a nsr_shm_ring_large" and x :: 'a
  assumes inv: "large_inv r" and room: "large_used r < 15"
  defines "r' \<equiv> r\<lparr>ldata := (ldata r)[unat (lhead r) := x], lhead := (lhead r + 1) AND 15\<rparr>"
  shows "large_inv r'" and "large_contents r' = large_contents r @ [x]"
proof -
  have b: "unat (lhead r) < 16" "unat (ltail r) < 16" "length (ldata r) = 16"
    using inv by (auto simp: large_inv_def)
  show "large_inv r'" using b by (simp add: large_inv_def r'_def ring_simps)
  have "unat (lhead r') = (unat (lhead r) + 1) mod 16" "unat (ltail r') = unat (ltail r)"
    by (simp_all add: r'_def ring_simps)
  then have used: "large_used r' = Suc (large_used r)"
    using b(1,2) room large_used_eq [of r] large_used_eq [of r']
      mod_add_window [of 1 16 "unat (lhead r)"] by (auto split: if_splits)
  have old: "ldata r' ! ((unat (ltail r) + i) mod 16) = ldata r ! ((unat (ltail r) + i) mod 16)"
    if "i < large_used r" for i
  proof -
    have "(unat (ltail r) + i) mod 16 \<noteq> (unat (ltail r) + large_used r) mod 16"
      using that room by (intro mod_window_neq [of _ _ "unat (ltail r)"]) auto
    then show ?thesis by (simp add: r'_def large_head_eq [OF inv])
  qed
  have new: "ldata r' ! ((unat (ltail r) + large_used r) mod 16) = x"
    by (simp add: r'_def b large_head_eq [OF inv])
  have "large_contents r' =
      map (\<lambda>i. ldata r' ! ((unat (ltail r) + i) mod 16)) [0..<Suc (large_used r)]"
    by (simp add: large_contents_def used) (simp add: r'_def)
  also have "\<dots> = large_contents r @ [x]"
    by (simp add: new large_contents_def old)
  finally show "large_contents r' = large_contents r @ [x]" .
qed

lemma large_pop_eq:
  assumes "large_inv r"
  shows "nsr_shm_ring_large_pop r = Some
    (if large_used r = 0 then (None, r)
     else (Some (ldata r ! unat (ltail r)), r\<lparr>ltail := (ltail r + 1) AND 15\<rparr>))"
  using assms by (auto simp: nsr_shm_ring_large_pop_def large_empty_iff large_inv_def Let_def)

lemma large_popped:
  assumes inv: "large_inv r" and ne: "0 < large_used r"
  defines "r' \<equiv> r\<lparr>ltail := (ltail r + 1) AND 15\<rparr>"
  shows "large_inv r'" and "large_contents r = ldata r ! unat (ltail r) # large_contents r'"
proof -
  have b: "unat (lhead r) < 16" "unat (ltail r) < 16" "length (ldata r) = 16"
    using inv by (auto simp: large_inv_def)
  show "large_inv r'" using b by (simp add: large_inv_def r'_def ring_simps)
  have "unat (lhead r') = unat (lhead r)" "unat (ltail r') = (unat (ltail r) + 1) mod 16"
    by (simp_all add: r'_def ring_simps)
  then have used: "large_used r = Suc (large_used r')"
    using b(1,2) ne large_used_eq [of r] large_used_eq [of r']
      mod_add_window [of 1 16 "unat (ltail r)"] by (auto split: if_splits)
  have "large_contents r = map (\<lambda>i. ldata r ! ((unat (ltail r) + i) mod 16)) [0..<Suc (large_used r')]"
    by (simp add: large_contents_def used)
  also have "\<dots> = ldata r ! unat (ltail r) #
      map (\<lambda>i. ldata r ! ((unat (ltail r) + Suc i) mod 16)) [0..<large_used r']"
    using b by (simp add: upt_conv_Cons map_Suc_upt [symmetric] del: upt_Suc)
  also have "map (\<lambda>i. ldata r ! ((unat (ltail r) + Suc i) mod 16)) [0..<large_used r'] = large_contents r'"
    by (simp add: large_contents_def r'_def ring_simps mod_simps)
  finally show "large_contents r = ldata r ! unat (ltail r) # large_contents r'" .
qed

interpretation large: fifo
  "\<lambda>r x. the (nsr_shm_ring_large_push r x)" "\<lambda>r. the (nsr_shm_ring_large_pop r)"
  large_contents large_inv 15
proof (unfold_locales, goal_cases)
  case (1 r)
  then show ?case using large_used_lt [of r] by simp
next
  case (2 r x)
  then show ?case by (simp add: large_push_eq)
next
  case (3 r x)
  then show ?case using large_pushed [of r x] by (simp add: large_push_eq)
next
  case (4 r)
  then show ?case by (simp add: large_pop_eq large_contents_def)
next
  case (5 r x xs)
  then have "0 < large_used r" using length_large_contents [of r] by simp
  with 5 large_popped [of r] show ?case by (simp add: large_pop_eq)
qed

section \<open>Properties\<close>

lemma push_pop_fold:
  "(\<lambda>q x. nsr_shm_ring_push_batch q [x]) = nsr_shm_ring_push"
  "(\<lambda>q. case nsr_shm_ring_pop_batch q (of_nat 1) of
      (xs, q') \<Rightarrow> (if length xs = 1 then Some (hd xs) else None, q')) = nsr_shm_ring_pop"
  by (auto simp: fun_eq_iff nsr_shm_ring_push_def nsr_shm_ring_pop_def)

text \<open>
  C3: the small ring is a lossless first-in first-out queue.  For every sequence of pushes and
  pops from a ring in its invariant, what was queued followed by what the pushes accepted
  equals what the pops delivered followed by what is still queued, and the invariant holds
  again.
\<close>

theorem ring_fifo:
  assumes "ring_inv r" "fifo_run nsr_shm_ring_push nsr_shm_ring_pop ops r = (acc, del, r')"
  shows "ring_inv r' \<and> ring_contents r @ acc = del @ ring_contents r'"
  using ring.run_fifo [unfolded push_pop_fold, OF assms] .

theorem ring_fifo_witness:
  "\<exists>r'. fifo_run nsr_shm_ring_push nsr_shm_ring_pop [Push (7::nat), Push 8, Pop] (ring_zero (\<lambda>_. 0))
          = ([7, 8], [7], r') \<and> ring_contents r' = [8]"
proof -
  let ?run = "fifo_run nsr_shm_ring_push nsr_shm_ring_pop [Push (7::nat), Push 8, Pop] (ring_zero (\<lambda>_. 0))"
  have 1: "fst ?run = [7, 8]" and 2: "fst (snd ?run) = [7]"
    by (simp_all add: ring_zero_def nsr_shm_ring_push_def nsr_shm_ring_pop_def
        nsr_shm_ring_push_batch_def nsr_shm_ring_pop_batch_def ring_mask_def SHM_RING_SIZE_def
        ring_read_def Let_def word_le_nat_alt)
  then have run: "?run = ([7, 8], [7], snd (snd ?run))" by (simp add: prod_eq_iff)
  have "ring_inv (ring_zero (\<lambda>_. 0 :: nat))" by simp
  from ring_fifo [OF this run] run show ?thesis by auto
qed

text \<open>
  C4: a batch push is all or nothing.  For every batch whose length is a C \<open>int\<close> (the type of
  \<open>count\<close>) it is refused, with the ring unchanged, exactly when the items queued and the batch
  together exceed 131070 (the ring keeps two of its 131072 slots free), and otherwise appends the
  whole batch in order.
\<close>

theorem push_batch_all_or_nothing:
  assumes "ring_inv r" "length xs \<le> 2147483647"
  shows "nsr_shm_ring_push_batch r xs = (False, r) \<and> 131070 < ring_used r + length xs \<or>
         (\<exists>r'. nsr_shm_ring_push_batch r xs = (True, r') \<and> ring_used r + length xs \<le> 131070 \<and>
               ring_inv r' \<and> ring_contents r' = ring_contents r @ xs)"
proof (cases "131070 < ring_used r + length xs")
  case True
  with ring.push_batch_full [OF assms] show ?thesis by simp
next
  case False
  with ring.push_batch_room [OF assms] show ?thesis
    by (intro disjI2 exI [of _ "snd (nsr_shm_ring_push_batch r xs)"]) (simp add: prod_eq_iff)
qed

theorem push_batch_all_or_nothing_witness:
  "nsr_shm_ring_push_batch (ring_zero (\<lambda>_. 0)) [5::nat, 6] = (False, ring_zero (\<lambda>_. 0)) \<and>
     131070 < ring_used (ring_zero (\<lambda>_. 0 :: nat)) + length [5::nat, 6] \<or>
   (\<exists>r'. nsr_shm_ring_push_batch (ring_zero (\<lambda>_. 0)) [5::nat, 6] = (True, r') \<and>
      ring_used (ring_zero (\<lambda>_. 0 :: nat)) + length [5::nat, 6] \<le> 131070 \<and>
      ring_inv r' \<and> ring_contents r' = ring_contents (ring_zero (\<lambda>_. 0)) @ [5, 6])"
  by (rule push_batch_all_or_nothing) simp_all

text \<open>
  C5: the large ring never indexes outside its 16 slots and never loses or reorders a
  snapshot.  From any ring in its invariant both operations are defined (no out-of-bounds
  access), keep the invariant, a push is refused exactly at 15 queued snapshots, and a pop
  returns the oldest one.
\<close>

theorem large_ring_safe_fifo:
  assumes "large_inv r"
  shows "(\<exists>ok r'. nsr_shm_ring_large_push r x = Some (ok, r') \<and> large_inv r' \<and>
            ok = (length (large_contents r) < 15) \<and>
            large_contents r' = (if ok then large_contents r @ [x] else large_contents r)) \<and>
         (\<exists>y r'. nsr_shm_ring_large_pop r = Some (y, r') \<and> large_inv r' \<and>
            large_contents r = (case y of None \<Rightarrow> [] | Some v \<Rightarrow> [v]) @ large_contents r')"
    (is "?push \<and> ?pop")
proof
  have lt: "large_used r = 15 \<or> large_used r < 15" using large_used_lt [of r] by linarith
  from assms lt show ?push
    using large_pushed [OF assms, of x] by (auto simp: large_push_eq)
  from assms show ?pop
    using large_popped [OF assms] by (auto simp: large_pop_eq large_contents_def)
qed

theorem large_ring_safe_fifo_witness:
  "(\<exists>ok r'. nsr_shm_ring_large_push (large_zero (replicate 16 (0::nat))) 3 = Some (ok, r') \<and>
      large_inv r' \<and> ok = (length (large_contents (large_zero (replicate 16 (0::nat)))) < 15) \<and>
      large_contents r' = (if ok then large_contents (large_zero (replicate 16 0)) @ [3]
                           else large_contents (large_zero (replicate 16 0)))) \<and>
   (\<exists>y r'. nsr_shm_ring_large_pop (large_zero (replicate 16 (0::nat))) = Some (y, r') \<and> large_inv r' \<and>
      large_contents (large_zero (replicate 16 0)) =
        (case y of None \<Rightarrow> [] | Some v \<Rightarrow> [v]) @ large_contents r')"
  by (rule large_ring_safe_fifo) simp

end
