(* ===== verification/Shm_Ring_Spsc.thy ===== *)
theory Shm_Ring_Spsc
  imports Shm_Ring
begin

text \<open>
  The small ring under concurrency.  The logic engine and the gatekeeper are different
  processes: one runs \<open>nsr_shm_ring_push_batch\<close> while the other runs
  \<open>nsr_shm_ring_pop_batch\<close> on the same memory.  The steps below cut both functions at their
  accesses to shared memory: the loads of head and tail with the bound check on them, each
  slot copied, and the store that publishes the new head or tail.  Any interleaving of the
  two is allowed.  The release store and acquire load of each index order the slot copies
  before the publication that makes them visible, so an interleaving of these steps is what
  the other process can observe.

  A batch has at most \<open>INT_MAX\<close> items, as \<open>count\<close> is an \<open>int\<close>.  \<open>accepted\<close> and \<open>delivered\<close> are
  ghost fields: the items of all published pushes and of all published pops, in order.
\<close>

section \<open>The steps\<close>

datatype 'a prod_pc = P_idle | P_write u32 nat "'a list"
datatype 'a cons_pc = C_idle | C_read u32 nat "'a list"

record 'a spsc =
  shm :: "'a nsr_shm_ring"
  ppc :: "'a prod_pc"
  cpc :: "'a cons_pc"
  accepted :: "'a list"
  delivered :: "'a list"

inductive spsc_step :: "'a spsc \<Rightarrow> 'a spsc \<Rightarrow> bool" where
  p_load: "ppc s = P_idle \<Longrightarrow> length items \<le> 2147483647 \<Longrightarrow>
     ring_mask (head (shm s) - tail (shm s)) + of_nat (length items) < SHM_RING_SIZE - 1 \<Longrightarrow>
     spsc_step s (s\<lparr>ppc := P_write (head (shm s)) 0 items\<rparr>)"
| p_full: "ppc s = P_idle \<Longrightarrow>
     ring_mask (head (shm s) - tail (shm s)) + of_nat (length (items :: 'a list)) \<ge> SHM_RING_SIZE - 1 \<Longrightarrow>
     spsc_step s s"
| p_copy: "ppc s = P_write h i items \<Longrightarrow> i < length items \<Longrightarrow>
     spsc_step s (s\<lparr>shm := (shm s)\<lparr>data := (data (shm s))(unat (ring_mask (h + of_nat i)) := items ! i)\<rparr>,
                    ppc := P_write h (Suc i) items\<rparr>)"
| p_publish: "ppc s = P_write h (length items) items \<Longrightarrow>
     spsc_step s (s\<lparr>shm := (shm s)\<lparr>head := ring_mask (h + of_nat (length items))\<rparr>,
                    ppc := P_idle, accepted := accepted s @ items\<rparr>)"
| c_load: "cpc s = C_idle \<Longrightarrow> available = ring_mask (head (shm s) - tail (shm s)) \<Longrightarrow>
     available \<noteq> 0 \<Longrightarrow> count = (if available < max_count then available else max_count) \<Longrightarrow>
     spsc_step s (s\<lparr>cpc := C_read (tail (shm s)) (unat count) []\<rparr>)"
| c_empty: "cpc s = C_idle \<Longrightarrow> ring_mask (head (shm s) - tail (shm s)) = 0 \<Longrightarrow> spsc_step s s"
| c_copy: "cpc s = C_read t count out \<Longrightarrow> length out < count \<Longrightarrow>
     spsc_step s (s\<lparr>cpc := C_read t count
        (out @ [data (shm s) (unat (ring_mask (t + of_nat (length out))))])\<rparr>)"
| c_publish: "cpc s = C_read t (length out) out \<Longrightarrow>
     spsc_step s (s\<lparr>shm := (shm s)\<lparr>tail := ring_mask (t + of_nat (length out))\<rparr>,
                    cpc := C_idle, delivered := delivered s @ out\<rparr>)"

definition spsc_init :: "(nat \<Rightarrow> 'a) \<Rightarrow> 'a spsc" where
  "spsc_init d = \<lparr>shm = ring_zero d, ppc = P_idle, cpc = C_idle, accepted = [], delivered = []\<rparr>"

inductive spsc_reach :: "(nat \<Rightarrow> 'a) \<Rightarrow> 'a spsc \<Rightarrow> bool" for d where
  start: "spsc_reach d (spsc_init d)"
| step: "spsc_reach d s \<Longrightarrow> spsc_step s s' \<Longrightarrow> spsc_reach d s'"

section \<open>The invariant\<close>

text \<open>
  Positions count all items ever accepted: \<open>H\<close> items published by the producer, \<open>T\<close> taken
  by the consumer; head and tail are these counts modulo the ring size.
\<close>

definition spsc_core :: "'a spsc \<Rightarrow> bool" where
  "spsc_core s \<longleftrightarrow>
     (let H = length (accepted s); T = length (delivered s) in
      unat (head (shm s)) = H mod 131072 \<and> unat (tail (shm s)) = T mod 131072 \<and>
      T \<le> H \<and> H - T \<le> 131070 \<and> delivered s = take T (accepted s) \<and>
      (\<forall>k. T \<le> k \<and> k < H \<longrightarrow> data (shm s) (k mod 131072) = accepted s ! k))"

definition prod_ok :: "'a spsc \<Rightarrow> bool" where
  "prod_ok s \<longleftrightarrow> (case ppc s of P_idle \<Rightarrow> True | P_write h i items \<Rightarrow>
     (let H = length (accepted s); T = length (delivered s) in
      h = head (shm s) \<and> i \<le> length items \<and> H + length items - T \<le> 131070 \<and>
      (\<forall>j < i. data (shm s) ((H + j) mod 131072) = items ! j)))"

definition cons_ok :: "'a spsc \<Rightarrow> bool" where
  "cons_ok s \<longleftrightarrow> (case cpc s of C_idle \<Rightarrow> True | C_read t count out \<Rightarrow>
     (let H = length (accepted s); T = length (delivered s) in
      t = tail (shm s) \<and> T + count \<le> H \<and> length out \<le> count \<and>
      out = take (length out) (drop T (accepted s))))"

definition spsc_inv :: "'a spsc \<Rightarrow> bool" where
  "spsc_inv s \<longleftrightarrow> spsc_core s \<and> prod_ok s \<and> cons_ok s"

lemmas spsc_defs = spsc_inv_def spsc_core_def prod_ok_def cons_ok_def Let_def

text \<open>Each part of the invariant reads the other side's program counter nowhere.\<close>

lemma spsc_frame [simp]:
  "spsc_core (s\<lparr>ppc := p\<rparr>) = spsc_core s" "cons_ok (s\<lparr>ppc := p\<rparr>) = cons_ok s"
  "spsc_core (s\<lparr>cpc := c\<rparr>) = spsc_core s" "prod_ok (s\<lparr>cpc := c\<rparr>) = prod_ok s"
  by (simp_all add: spsc_core_def prod_ok_def cons_ok_def Let_def split: prod_pc.splits cons_pc.splits)

lemma spsc_inv_init: "spsc_inv (spsc_init d)"
  by (simp add: spsc_defs spsc_init_def ring_zero_def)

text \<open>What the code computes from head and tail is the number of unread items.\<close>

lemma spsc_used:
  assumes "spsc_core s"
  shows "unat (ring_mask (head (shm s) - tail (shm s))) = length (accepted s) - length (delivered s)"
proof -
  let ?H = "length (accepted s)" and ?T = "length (delivered s)"
  have hd: "unat (head (shm s)) = ?H mod 131072" and tl: "unat (tail (shm s)) = ?T mod 131072"
    and le: "?T \<le> ?H" "?H - ?T \<le> 131070"
    using assms by (auto simp: spsc_core_def Let_def)
  have "ring_used (shm s) = (if ?T mod 131072 \<le> ?H mod 131072 then ?H mod 131072 - ?T mod 131072
                        else ?H mod 131072 + 131072 - ?T mod 131072)"
    using ring_used_eq [of "shm s"] by (simp add: hd tl)
  also have "\<dots> = ?H - ?T"
    using le by (intro mod_diff_window) auto
  finally show ?thesis by (simp add: ring_used_def)
qed

text \<open>
  The slot the producer is about to write lies outside the unread window, and outside the part
  of the batch already written.
\<close>

lemma prod_slot_fresh:
  assumes inv: "spsc_inv s" and pc: "ppc s = P_write h i items" and i: "i < length items"
    and k: "length (delivered s) \<le> k" "k < length (accepted s) + i"
  shows "k mod 131072 \<noteq> unat (ring_mask (h + of_nat i))"
proof -
  let ?H = "length (accepted s)" and ?T = "length (delivered s)"
  have "unat h = ?H mod 131072" "?H + length items - ?T \<le> 131070" "?T \<le> ?H"
    using inv pc by (auto simp: spsc_defs)
  then have "unat (ring_mask (h + of_nat i)) = (?H + i) mod 131072"
    by (simp add: ring_slot mod_simps)
  moreover have "k mod 131072 \<noteq> (?H + i) mod 131072"
    using i k \<open>?H + length items - ?T \<le> 131070\<close> \<open>?T \<le> ?H\<close>
    by (intro mod_window_neq [of _ _ ?T]) auto
  ultimately show ?thesis by simp
qed

section \<open>Every step keeps the invariant\<close>

lemma p_load_inv:
  assumes inv: "spsc_inv s" and "length items \<le> 2147483647"
    and room: "ring_mask (head (shm s) - tail (shm s)) + of_nat (length items) < SHM_RING_SIZE - 1"
  shows "spsc_inv (s\<lparr>ppc := P_write (head (shm s)) 0 items\<rparr>)"
proof -
  have core: "spsc_core s" using inv by (simp add: spsc_inv_def)
  let ?u = "length (accepted s) - length (delivered s)"
  have "?u \<le> 131070" using core by (simp add: spsc_core_def Let_def)
  with assms(2) have "unat (ring_mask (head (shm s) - tail (shm s)) + of_nat (length items)) =
      ?u + length items"
    by (simp add: unat_word_ariths unat_of_nat spsc_used [OF core])
  with room have "?u + length items \<le> 131070"
    by (simp add: word_less_nat_alt SHM_RING_SIZE_def)
  then have "prod_ok (s\<lparr>ppc := P_write (head (shm s)) 0 items\<rparr>)"
    using core by (simp add: prod_ok_def spsc_core_def Let_def)
  with inv show ?thesis by (simp add: spsc_inv_def)
qed

lemma p_copy_inv:
  assumes inv: "spsc_inv s" and pc: "ppc s = P_write h i items" and i: "i < length items"
  shows "spsc_inv (s\<lparr>shm := (shm s)\<lparr>data := (data (shm s))(unat (ring_mask (h + of_nat i)) := items ! i)\<rparr>,
                    ppc := P_write h (Suc i) items\<rparr>)" (is "spsc_inv ?s'")
proof -
  let ?H = "length (accepted s)" and ?T = "length (delivered s)"
  have hH: "unat h = ?H mod 131072" and "?T \<le> ?H" using inv pc by (auto simp: spsc_defs)
  have slot: "unat (ring_mask (h + of_nat i)) = (?H + i) mod 131072"
    by (simp add: ring_slot hH mod_simps)
  have fresh: "k mod 131072 \<noteq> (?H + i) mod 131072" if "?T \<le> k" "k < ?H + i" for k
    using prod_slot_fresh [OF inv pc i that] by (simp add: slot)
  have "spsc_core ?s'"
    using inv fresh by (auto simp: spsc_inv_def spsc_core_def Let_def slot)
  moreover have "prod_ok ?s'"
  proof -
    have "data (shm ?s') ((?H + j) mod 131072) = items ! j" if "j < Suc i" for j
    proof (cases "j = i")
      case True
      then show ?thesis by (simp add: slot)
    next
      case False
      with that have "j < i" by simp
      then have "data (shm s) ((?H + j) mod 131072) = items ! j"
        using inv pc by (auto simp: spsc_defs)
      then show ?thesis using fresh [of "?H + j"] \<open>j < i\<close> \<open>?T \<le> ?H\<close> by (simp add: slot)
    qed
    then show ?thesis using inv pc i by (simp add: spsc_inv_def prod_ok_def Let_def)
  qed
  moreover have "cons_ok ?s'"
    using inv by (simp add: spsc_inv_def cons_ok_def Let_def split: cons_pc.splits)
  ultimately show ?thesis by (simp add: spsc_inv_def)
qed

lemma p_publish_inv:
  assumes inv: "spsc_inv s" and pc: "ppc s = P_write h (length items) items"
  shows "spsc_inv (s\<lparr>shm := (shm s)\<lparr>head := ring_mask (h + of_nat (length items))\<rparr>,
                    ppc := P_idle, accepted := accepted s @ items\<rparr>)" (is "spsc_inv ?s'")
proof -
  let ?H = "length (accepted s)" and ?T = "length (delivered s)"
  have "unat h = ?H mod 131072" and le: "?T \<le> ?H" "?H + length items - ?T \<le> 131070"
    and new: "\<And>j. j < length items \<Longrightarrow> data (shm s) ((?H + j) mod 131072) = items ! j"
    using inv pc by (auto simp: spsc_defs)
  then have hd: "unat (ring_mask (h + of_nat (length items))) = (?H + length items) mod 131072"
    by (simp add: ring_slot mod_simps)
  have "data (shm s) (k mod 131072) = (accepted s @ items) ! k"
    if k: "?T \<le> k" "k < ?H + length items" for k
  proof (cases "k < ?H")
    case True
    with k inv show ?thesis by (simp add: spsc_defs nth_append)
  next
    case False
    with k new [of "k - ?H"] show ?thesis by (simp add: nth_append)
  qed
  with inv hd le have "spsc_core ?s'" by (auto simp: spsc_inv_def spsc_core_def Let_def)
  moreover have "cons_ok ?s'"
    using inv le by (auto simp: spsc_inv_def cons_ok_def Let_def split: cons_pc.splits)
  ultimately show ?thesis by (simp add: spsc_inv_def prod_ok_def)
qed

lemma c_load_inv:
  assumes inv: "spsc_inv s" and av: "available = ring_mask (head (shm s) - tail (shm s))"
    and c: "count = (if available < max_count then available else max_count)"
  shows "spsc_inv (s\<lparr>cpc := C_read (tail (shm s)) (unat count) []\<rparr>)"
proof -
  have core: "spsc_core s" using inv by (simp add: spsc_inv_def)
  have "unat count \<le> unat available"
    using c by (auto simp: word_less_nat_alt)
  then have "unat count \<le> length (accepted s) - length (delivered s)"
    by (simp add: av spsc_used [OF core])
  then have "cons_ok (s\<lparr>cpc := C_read (tail (shm s)) (unat count) []\<rparr>)"
    using core by (auto simp: cons_ok_def spsc_core_def Let_def)
  with inv show ?thesis by (simp add: spsc_inv_def)
qed

lemma c_copy_inv:
  assumes inv: "spsc_inv s" and pc: "cpc s = C_read t count out" and lt: "length out < count"
  shows "spsc_inv (s\<lparr>cpc := C_read t count
        (out @ [data (shm s) (unat (ring_mask (t + of_nat (length out))))])\<rparr>)"
proof -
  let ?H = "length (accepted s)" and ?T = "length (delivered s)" and ?n = "length out"
  have "unat t = ?T mod 131072" and le: "?T + count \<le> ?H"
    and out: "out = take ?n (drop ?T (accepted s))"
    using inv pc by (auto simp: spsc_defs)
  then have "unat (ring_mask (t + of_nat ?n)) = (?T + ?n) mod 131072"
    by (simp add: ring_slot mod_simps)
  moreover have "data (shm s) ((?T + ?n) mod 131072) = accepted s ! (?T + ?n)"
    using inv le lt by (simp add: spsc_defs)
  moreover have "take (Suc ?n) (drop ?T (accepted s)) = out @ [accepted s ! (?T + ?n)]"
    using le lt out by (subst take_Suc_conv_app_nth) auto
  ultimately have "cons_ok (s\<lparr>cpc := C_read t count
        (out @ [data (shm s) (unat (ring_mask (t + of_nat (length out))))])\<rparr>)"
    using inv pc lt by (simp add: spsc_inv_def cons_ok_def Let_def)
  with inv show ?thesis by (simp add: spsc_inv_def)
qed

lemma c_publish_inv:
  assumes inv: "spsc_inv s" and pc: "cpc s = C_read t (length out) out"
  shows "spsc_inv (s\<lparr>shm := (shm s)\<lparr>tail := ring_mask (t + of_nat (length out))\<rparr>,
                    cpc := C_idle, delivered := delivered s @ out\<rparr>)" (is "spsc_inv ?s'")
proof -
  let ?H = "length (accepted s)" and ?T = "length (delivered s)"
  have "unat t = ?T mod 131072" and le: "?T + length out \<le> ?H"
    and out: "out = take (length out) (drop ?T (accepted s))" and del: "delivered s = take ?T (accepted s)"
    using inv pc by (auto simp: spsc_defs)
  then have "unat (ring_mask (t + of_nat (length out))) = (?T + length out) mod 131072"
    by (simp add: ring_slot mod_simps)
  moreover have "delivered s @ out = take (?T + length out) (accepted s)"
    using out del by (metis take_add)
  ultimately have "spsc_core ?s'" using inv le by (auto simp: spsc_inv_def spsc_core_def Let_def)
  moreover have "prod_ok ?s'"
    using inv by (auto simp: spsc_inv_def prod_ok_def Let_def split: prod_pc.splits)
  ultimately show ?thesis by (simp add: spsc_inv_def cons_ok_def)
qed

lemma spsc_step_inv: "spsc_step s s' \<Longrightarrow> spsc_inv s \<Longrightarrow> spsc_inv s'"
  by (induction rule: spsc_step.induct)
    (auto intro: p_load_inv p_copy_inv p_publish_inv c_load_inv c_copy_inv c_publish_inv)

lemma spsc_reach_inv: "spsc_reach d s \<Longrightarrow> spsc_inv s"
  by (induction rule: spsc_reach.induct) (auto intro: spsc_inv_init spsc_step_inv)

text \<open>
  A reachable state in which one item is published and unread, the consumer has started to
  read it, and the producer is about to write the next one.
\<close>

lemma spsc_example:
  "\<exists>s. spsc_reach (\<lambda>_. 0 :: nat) s \<and> accepted s = [7] \<and> delivered s = [] \<and>
       ppc s = P_write 1 0 [8] \<and> cpc s = C_read 0 1 []"
proof -
  let ?d = "\<lambda>_. 0 :: nat"
  note ev = ring_zero_def spsc_init_def ring_mask_def SHM_RING_SIZE_def word_less_nat_alt
  define s1 where "s1 = (spsc_init ?d)\<lparr>ppc := P_write 0 0 [7]\<rparr>"
  have 1: "spsc_reach ?d s1"
    using p_load [of "spsc_init ?d" "[7]"]
    by (intro spsc_reach.step [OF spsc_reach.start]) (simp add: ev s1_def)
  define s2 where "s2 = s1\<lparr>shm := (shm s1)\<lparr>data := (data (shm s1))(0 := 7)\<rparr>, ppc := P_write 0 1 [7]\<rparr>"
  have 2: "spsc_reach ?d s2"
    using p_copy [of s1 0 0 "[7]"] by (intro spsc_reach.step [OF 1]) (simp add: ev s1_def s2_def)
  define s3 where "s3 = s2\<lparr>shm := (shm s2)\<lparr>head := 1\<rparr>, ppc := P_idle, accepted := [7]\<rparr>"
  have 3: "spsc_reach ?d s3"
    using p_publish [of s2 0 "[7]"]
    by (intro spsc_reach.step [OF 2]) (simp add: ev s1_def s2_def s3_def)
  define s4 where "s4 = s3\<lparr>ppc := P_write 1 0 [8]\<rparr>"
  have 4: "spsc_reach ?d s4"
    using p_load [of s3 "[8]"]
    by (intro spsc_reach.step [OF 3]) (simp add: ev s1_def s2_def s3_def s4_def)
  define s5 where "s5 = s4\<lparr>cpc := C_read 0 1 []\<rparr>"
  have 5: "spsc_reach ?d s5"
    using c_load [of s4 1 1 1]
    by (intro spsc_reach.step [OF 4]) (simp add: ev s1_def s2_def s3_def s4_def s5_def)
  show ?thesis
    using 5 by (intro exI [of _ s5]) (simp add: ev s1_def s2_def s3_def s4_def s5_def)
qed

section \<open>Properties\<close>

text \<open>
  C1: the ring is correct between two processes.  In every state reachable by any
  interleaving of the producer's and the consumer's accesses, what the consumer has taken is
  a prefix of what the producer has published, and at most 131070 items are in between:
  nothing is lost, duplicated, reordered or read before it was completely written.
\<close>

theorem spsc_delivers_prefix:
  assumes "spsc_reach d s"
  shows "\<exists>rest. accepted s = delivered s @ rest \<and> length rest \<le> 131070"
proof -
  have "spsc_core s" using spsc_reach_inv [OF assms] by (simp add: spsc_inv_def)
  then have "accepted s = delivered s @ drop (length (delivered s)) (accepted s)"
    and "length (drop (length (delivered s)) (accepted s)) \<le> 131070"
    by (auto simp: spsc_core_def Let_def) (metis append_take_drop_id)
  then show ?thesis by blast
qed

theorem spsc_delivers_prefix_witness:
  "\<exists>s. spsc_reach (\<lambda>_. 0 :: nat) s \<and> accepted s = [7] \<and>
       (\<exists>rest. accepted s = delivered s @ rest \<and> length rest \<le> 131070)"
  using spsc_example spsc_delivers_prefix by blast

text \<open>
  C2: no data race on a slot.  Whenever the producer is about to write a slot, that slot holds
  no item that is published and not yet taken, and it is not a slot the consumer is copying.
\<close>

theorem spsc_no_overwrite:
  assumes "spsc_reach d s" "ppc s = P_write h i items" "i < length items"
    "length (delivered s) \<le> k" "k < length (accepted s)"
  shows "k mod 131072 \<noteq> unat (ring_mask (h + of_nat i))"
  using prod_slot_fresh [OF spsc_reach_inv [OF assms(1)] assms(2,3,4)] assms(5) by simp

theorem spsc_no_overwrite_witness:
  "\<exists>s. spsc_reach (\<lambda>_. 0 :: nat) s \<and> ppc s = P_write 1 0 [8] \<and> length (accepted s) = 1 \<and>
       (0::nat) mod 131072 \<noteq> unat (ring_mask (1 + of_nat 0))"
proof -
  from spsc_example obtain s where s: "spsc_reach (\<lambda>_. 0 :: nat) s" "accepted s = [7]"
    "delivered s = []" "ppc s = P_write 1 0 [8]" by blast
  have "(0::nat) mod 131072 \<noteq> unat (ring_mask (1 + of_nat 0))"
    using spsc_no_overwrite [OF s(1) s(4), of 0] s(2,3) by simp
  with s show ?thesis by auto
qed

end
