(* ===== verification/Telemetry.thy ===== *)
theory Telemetry
  imports Nsr_Prelude
begin

text \<open>
  The data of \<open>include/nsr/telemetry.h\<close>: intents sent to the gatekeeper, observations it
  reports, and the per-hop statistics the logic engine publishes.  Padding members are left
  out.  A \<open>char[48]\<close> address is the C string it holds (at most 47 bytes).
\<close>

datatype nsr_obs_type =
  NSR_OBS_NONE | NSR_OBS_REPLY | NSR_OBS_EXCEEDED | NSR_OBS_UNREACH | NSR_OBS_TIMEOUT | NSR_OBS_ERROR

record nsr_intent =
  it_ttl :: u8
  it_seq :: u16
  it_action :: u32
  it_timestamp_us :: u64
  it_integrity :: u64

record nsr_observation =
  ob_ttl :: u8
  ob_seq :: u16
  ob_rtt_us :: u64
  ob_type :: nsr_obs_type
  ob_addr_bin :: "u8 list"
  ob_is_v6 :: bool

definition NSR_MAX_HOPS :: nat where
  "NSR_MAX_HOPS = 64"

definition NSR_MAX_HOP_ALIASES :: nat where
  "NSR_MAX_HOP_ALIASES = 3"

record nsr_config =
  cfg_interval_ms :: u32
  cfg_target_ip :: string
  cfg_target_host :: string

record nsr_hop_alias =
  al_addr :: string
  al_recv :: u32

record nsr_hop_info =
  hop_addr :: string
  hop_rtt_us :: u64
  hop_sent :: u32
  hop_recv :: u32
  hop_primary_recv :: u32
  hop_last_status :: nsr_obs_type
  hop_alias_count :: u8
  hop_aliases :: "nsr_hop_alias list"

record nsr_telemetry_state =
  tel_hops :: "nsr_hop_info list"
  tel_target_ip :: string
  tel_target_host :: string
  tel_start_time_us :: u64
  tel_interval_ms :: u32

text \<open>The all-zero structs that \<open>memset\<close> produces.\<close>

definition alias_zero :: nsr_hop_alias where
  "alias_zero = \<lparr>al_addr = [], al_recv = 0\<rparr>"

definition hop_zero :: nsr_hop_info where
  "hop_zero = \<lparr>hop_addr = [], hop_rtt_us = 0, hop_sent = 0, hop_recv = 0, hop_primary_recv = 0,
     hop_last_status = NSR_OBS_NONE, hop_alias_count = 0, hop_aliases = replicate 3 alias_zero\<rparr>"

definition telemetry_zero :: nsr_telemetry_state where
  "telemetry_zero = \<lparr>tel_hops = replicate 64 hop_zero, tel_target_ip = [], tel_target_host = [],
     tel_start_time_us = 0, tel_interval_ms = 0\<rparr>"

text \<open>The aliases in use: the first \<open>alias_count\<close> slots.\<close>

definition live_aliases :: "nsr_hop_info \<Rightarrow> nsr_hop_alias list" where
  "live_aliases h = take (unat (hop_alias_count h)) (hop_aliases h)"

text \<open>
  Well-formed hop: three alias slots, the count within them, addresses that fit their arrays,
  aliases only behind a primary address, all addresses of the hop different and none empty.
\<close>

definition hop_addrs :: "nsr_hop_info \<Rightarrow> string list" where
  "hop_addrs h = (if hop_addr h = [] then [] else [hop_addr h]) @ map al_addr (live_aliases h)"

definition hop_wf :: "nsr_hop_info \<Rightarrow> bool" where
  "hop_wf h \<longleftrightarrow> length (hop_aliases h) = 3 \<and> unat (hop_alias_count h) \<le> 3 \<and>
     (hop_addr h = [] \<longrightarrow> hop_alias_count h = 0) \<and>
     distinct (hop_addrs h) \<and> (\<forall>a \<in> set (hop_addrs h). a \<noteq> [] \<and> length a \<le> 47)"

definition telemetry_wf :: "nsr_telemetry_state \<Rightarrow> bool" where
  "telemetry_wf t \<longleftrightarrow> length (tel_hops t) = 64 \<and> (\<forall>h \<in> set (tel_hops t). hop_wf h)"

lemma hop_wf_zero [simp]: "hop_wf hop_zero"
  by (simp add: hop_wf_def hop_zero_def hop_addrs_def live_aliases_def)

lemma telemetry_wf_zero [simp]: "telemetry_wf telemetry_zero"
  by (simp add: telemetry_wf_def telemetry_zero_def)

end
