(* ===== verification/Gatekeeper.thy ===== *)
theory Gatekeeper
  imports Telemetry Shm_Ring "HOL-Library.Monad_Syntax"
begin

text \<open>
  The ICMP gatekeeper, \<open>src/io/gatekeeper.c\<close>: the table of probes in flight, the echo
  packets and their checksum, the parsers for received IPv4 and IPv6 packets, and one
  iteration of \<open>nsr_gatekeeper_run\<close>.

  A received packet is the list of the \<open>n\<close> bytes the kernel reported, and every read of it
  goes through \<open>get8\<close>, whose \<open>None\<close> is a read outside those bytes; that it never happens is
  a theorem.  Sizes are at most 512 + 2048, so \<open>size_t\<close> sums are natural numbers.  The
  sockets (\<open>sendmmsg\<close>, \<open>recvmmsg\<close>), the clock and the process id are arguments.
\<close>

section \<open>Probes in flight\<close>

definition NSR_GK_MAX_INFLIGHT :: nat where
  "NSR_GK_MAX_INFLIGHT = 65536"

record nsr_inflight =
  if_seq :: u16
  if_ttl :: u8
  if_sent_us :: u64
  if_active :: bool

type_synonym inflight = "nat \<Rightarrow> nsr_inflight"

definition track_probe :: "u8 \<Rightarrow> u16 \<Rightarrow> u64 \<Rightarrow> inflight \<Rightarrow> inflight" where
  "track_probe ttl seq now_us tab =
     tab(unat seq mod NSR_GK_MAX_INFLIGHT :=
           \<lparr>if_seq = seq, if_ttl = ttl, if_sent_us = now_us, if_active = True\<rparr>)"

definition find_probe :: "u16 \<Rightarrow> inflight \<Rightarrow> (u8 \<times> u64) option \<times> inflight" where
  "find_probe seq tab =
     (let idx = unat seq mod NSR_GK_MAX_INFLIGHT
      in if if_active (tab idx) \<and> if_seq (tab idx) = seq
         then (Some (if_ttl (tab idx), if_sent_us (tab idx)), tab(idx := (tab idx)\<lparr>if_active := False\<rparr>))
         else (None, tab))"

definition drop_probe :: "u16 \<Rightarrow> inflight \<Rightarrow> inflight" where
  "drop_probe seq tab =
     (let idx = unat seq mod NSR_GK_MAX_INFLIGHT
      in if if_active (tab idx) \<and> if_seq (tab idx) = seq
         then tab(idx := (tab idx)\<lparr>if_active := False\<rparr>) else tab)"

record gatekeeper =
  g_inflight :: inflight
  g_gk_id :: u16
  last_reap :: u64

text \<open>The loop over all slots, each updated on its own.\<close>

definition reap_slots :: "u64 \<Rightarrow> inflight \<Rightarrow> inflight" where
  "reap_slots now_us tab =
     (\<lambda>i. if i < NSR_GK_MAX_INFLIGHT \<and> if_active (tab i) \<and> now_us - if_sent_us (tab i) > 5000000
          then (tab i)\<lparr>if_active := False\<rparr> else tab i)"

definition reap_stale_inflight :: "u64 \<Rightarrow> gatekeeper \<Rightarrow> gatekeeper" where
  "reap_stale_inflight now_us gk =
     (if now_us - last_reap gk < 1000000 then gk
      else gk\<lparr>last_reap := now_us, g_inflight := reap_slots now_us (g_inflight gk)\<rparr>)"

section \<open>Echo requests\<close>

definition fast_icmp_checksum :: "u16 \<Rightarrow> u16 \<Rightarrow> u16" where
  "fast_icmp_checksum ident seq =
     (let sum = 0x0800 + ucast ident + ucast seq :: u32;
          sum = drop_bit 16 sum + (sum AND 0xFFFF);
          sum = sum + drop_bit 16 sum
      in ucast (NOT sum))"

text \<open>
  A 16-bit value in memory and \<open>htons\<close>, for a little-endian (\<open>True\<close>) or a big-endian host.
\<close>

definition lo_byte :: "u16 \<Rightarrow> u8" where "lo_byte w = ucast w"

definition hi_byte :: "u16 \<Rightarrow> u8" where "hi_byte w = ucast (drop_bit 8 w)"

definition u16_of_bytes :: "u8 \<Rightarrow> u8 \<Rightarrow> u16" where
  "u16_of_bytes hi lo = push_bit 8 (ucast hi) OR ucast lo"

definition mem_u16 :: "bool \<Rightarrow> u16 \<Rightarrow> u8 list" where
  "mem_u16 le w = (if le then [lo_byte w, hi_byte w] else [hi_byte w, lo_byte w])"

definition htons :: "bool \<Rightarrow> u16 \<Rightarrow> u16" where
  "htons le w = (if le then u16_of_bytes (lo_byte w) (hi_byte w) else w)"

text \<open>The eight bytes of an outgoing packet: \<open>struct icmphdr\<close> or \<open>struct icmp6_hdr\<close>.\<close>

definition echo_request :: "bool \<Rightarrow> bool \<Rightarrow> u16 \<Rightarrow> u16 \<Rightarrow> u8 list" where
  "echo_request le is_v6 gk_id seq =
     (let id_net = htons le gk_id; seq_net = htons le seq
      in if is_v6 then [128, 0] @ mem_u16 le 0 @ mem_u16 le id_net @ mem_u16 le seq_net
         else [8, 0] @ mem_u16 le (fast_icmp_checksum id_net seq_net) @ mem_u16 le id_net @ mem_u16 le seq_net)"

section \<open>Parsing what comes back\<close>

definition get8 :: "u8 list \<Rightarrow> nat \<Rightarrow> u8 option" where
  "get8 buf i = (if i < length buf then Some (buf ! i) else None)"

definition get16 :: "u8 list \<Rightarrow> nat \<Rightarrow> u16 option" where
  "get16 buf i = do { a \<leftarrow> get8 buf i; b \<leftarrow> get8 buf (i + 1); Some (u16_of_bytes a b) }"

text \<open>
  The walk over the extension headers.  The result is \<open>None\<close> for a read outside the packet,
  \<open>Some None\<close> for \<open>false\<close>, \<open>Some (Some (id, seq))\<close> for \<open>true\<close>.  An extension header is
  skipped only when it ends within \<open>end\<close>, and it has at least 8 bytes.
\<close>

function walk_ext :: "u8 list \<Rightarrow> nat \<Rightarrow> u8 \<Rightarrow> nat \<Rightarrow> (u16 \<times> u16) option option" where
  "walk_ext buf end' nxt off =
     (if nxt \<in> {0, 43, 60} then
        if off + 2 > end' then Some None
        else case (get8 buf off, get8 buf (off + 1)) of
          (Some nxt', Some len) \<Rightarrow>
            (let hdr_len = (unat len + 1) * 8
             in if hdr_len = 0 \<or> off + hdr_len > end' then Some None
                else walk_ext buf end' nxt' (off + hdr_len))
        | _ \<Rightarrow> None
      else if nxt = 44 then
        if off + 8 > end' then Some None
        else case get8 buf off of
          Some nxt' \<Rightarrow> walk_ext buf end' nxt' (off + 8)
        | None \<Rightarrow> None
      else if nxt = 51 then
        if off + 2 > end' then Some None
        else case (get8 buf off, get8 buf (off + 1)) of
          (Some nxt', Some len) \<Rightarrow>
            (let hdr_len = (unat len + 2) * 4
             in if hdr_len = 0 \<or> off + hdr_len > end' then Some None
                else walk_ext buf end' nxt' (off + hdr_len))
        | _ \<Rightarrow> None
      else if nxt = 58 then
        if off + 8 > end' then Some None
        else do {
          type \<leftarrow> get8 buf off;
          if type \<noteq> 128 then Some None
          else do { rid \<leftarrow> get16 buf (off + 4); rseq \<leftarrow> get16 buf (off + 6); Some (Some (rid, rseq)) } }
      else Some None)"
  by pat_completeness auto
termination walk_ext
  by (relation "measure (\<lambda>(buf, end', nxt, off). end' - off)") auto

declare walk_ext.simps [simp del]

definition parse_ipv6_original_icmp6 :: "u8 list \<Rightarrow> nat \<Rightarrow> (u16 \<times> u16) option option" where
  "parse_ipv6_original_icmp6 buf ip6_off =
     (if length buf < ip6_off + 40 then Some None
      else do {
        nxt \<leftarrow> get8 buf (ip6_off + 6);
        plen \<leftarrow> get16 buf (ip6_off + 4);
        walk_ext buf (min (ip6_off + 40 + unat plen) (length buf)) nxt (ip6_off + 40) })"

text \<open>
  One received packet: \<open>Some None\<close> when it is skipped (\<open>continue\<close>), otherwise the identifier,
  the sequence number and the observation type, \<open>NSR_OBS_NONE\<close> for other ICMP types.
\<close>

definition parse_ipv4 :: "u8 list \<Rightarrow> (u16 \<times> u16 \<times> nsr_obs_type) option option" where
  "parse_ipv4 buf =
     (if length buf < 20 then Some None
      else do {
        b0 \<leftarrow> get8 buf 0;
        if drop_bit 4 b0 \<noteq> 4 then Some None
        else let ihl = unat (b0 AND 15); ip_hdr_len = ihl * 4
        in if ihl < 5 \<or> length buf < ip_hdr_len + 8 then Some None
        else do {
          type \<leftarrow> get8 buf ip_hdr_len;
          if type = 0 then do {
            rid \<leftarrow> get16 buf (ip_hdr_len + 4); rseq \<leftarrow> get16 buf (ip_hdr_len + 6);
            Some (Some (rid, rseq, NSR_OBS_REPLY)) }
          else if type = 11 \<or> type = 3 then
            let inner_off = ip_hdr_len + 8
            in if length buf < inner_off + 20 + 8 then Some None
            else do {
              i0 \<leftarrow> get8 buf inner_off;
              let iihl = unat (i0 AND 15); iip_len = iihl * 4
              in if iihl < 5 \<or> length buf < inner_off + iip_len + 8 then Some None
              else do {
                rid \<leftarrow> get16 buf (inner_off + iip_len + 4); rseq \<leftarrow> get16 buf (inner_off + iip_len + 6);
                Some (Some (rid, rseq, if type = 3 then NSR_OBS_UNREACH else NSR_OBS_EXCEEDED)) } }
          else Some (Some (0, 0, NSR_OBS_NONE)) } })"

definition parse_ipv6 :: "u8 list \<Rightarrow> (u16 \<times> u16 \<times> nsr_obs_type) option option" where
  "parse_ipv6 buf =
     (if length buf < 8 then Some None
      else do {
        type \<leftarrow> get8 buf 0;
        if type = 129 then do {
          rid \<leftarrow> get16 buf 4; rseq \<leftarrow> get16 buf 6;
          Some (Some (rid, rseq, NSR_OBS_REPLY)) }
        else if type = 3 \<or> type = 1 then do {
          r \<leftarrow> parse_ipv6_original_icmp6 buf 8;
          Some (case r of None \<Rightarrow> None
                | Some (rid, rseq) \<Rightarrow> Some (rid, rseq, if type = 1 then NSR_OBS_UNREACH else NSR_OBS_EXCEEDED)) }
        else Some (Some (0, 0, NSR_OBS_NONE)) })"

section \<open>One iteration of \<open>nsr_gatekeeper_run\<close>\<close>

text \<open>
  A received packet comes with the sender's address, 4 or 16 bytes.  An IPv4 address fills
  the first 4 bytes of \<open>addr_bin\<close>; the other 12 keep what the array slot held, \<open>stale k\<close> for
  slot \<open>k\<close>.
\<close>

type_synonym packet = "u8 list \<times> u8 list"

definition process_packet ::
    "bool \<Rightarrow> u64 \<Rightarrow> (nat \<Rightarrow> u8 list) \<Rightarrow> packet \<Rightarrow> nsr_observation list \<times> gatekeeper \<Rightarrow>
     (nsr_observation list \<times> gatekeeper) option" where
  "process_packet is_v6 now_us stale pkt acc =
     (case (pkt, acc) of ((buf, from), (obs, gk)) \<Rightarrow>
        if buf = [] then Some (obs, gk)
        else do {
          r \<leftarrow> (if is_v6 then parse_ipv6 buf else parse_ipv4 buf);
          Some (case r of
            None \<Rightarrow> (obs, gk)
          | Some (rid, rseq, type) \<Rightarrow>
              if type \<noteq> NSR_OBS_NONE \<and> rid = g_gk_id gk then
                (case find_probe rseq (g_inflight gk) of
                   (Some (ttl, sts), tab) \<Rightarrow>
                     (obs @ [\<lparr>ob_ttl = ttl, ob_seq = rseq, ob_rtt_us = now_us - sts, ob_type = type,
                              ob_addr_bin = (if is_v6 then from else from @ stale (length obs)),
                              ob_is_v6 = is_v6\<rparr>],
                      gk\<lparr>g_inflight := tab\<rparr>)
                 | (None, tab) \<Rightarrow> (obs, gk\<lparr>g_inflight := tab\<rparr>))
              else (obs, gk)) })"

fun process_batch ::
    "bool \<Rightarrow> u64 \<Rightarrow> (nat \<Rightarrow> u8 list) \<Rightarrow> packet list \<Rightarrow> nsr_observation list \<times> gatekeeper \<Rightarrow>
     (nsr_observation list \<times> gatekeeper) option" where
  "process_batch is_v6 now_us stale [] acc = Some acc"
| "process_batch is_v6 now_us stale (p # ps) acc =
     do { acc' \<leftarrow> process_packet is_v6 now_us stale p acc; process_batch is_v6 now_us stale ps acc' }"

text \<open>
  The receive loop.  Each element is what one successful \<open>recvmmsg\<close> brought, with the clock
  read after it; the end of the list is the call that returns no packet.  \<open>None\<close> is a read
  outside a packet or the endless spin on a full observation ring.
\<close>

fun receive_loop ::
    "bool \<Rightarrow> (nat \<Rightarrow> u8 list) \<Rightarrow> (u64 \<times> packet list) list \<Rightarrow> nsr_observation nsr_shm_ring \<Rightarrow> gatekeeper \<Rightarrow>
     (nsr_observation nsr_shm_ring \<times> gatekeeper) option" where
  "receive_loop is_v6 stale [] g2l gk = Some (g2l, gk)"
| "receive_loop is_v6 stale ((now_us, pkts) # bs) g2l gk =
     do {
       (obs, gk') \<leftarrow> process_batch is_v6 now_us stale pkts ([], gk);
       if obs = [] then receive_loop is_v6 stale bs g2l gk'
       else case nsr_shm_ring_push_batch g2l obs of
         (True, g2l') \<Rightarrow> receive_loop is_v6 stale bs g2l' gk'
       | (False, _) \<Rightarrow> None }"

definition BATCH_SIZE :: u32 where
  "BATCH_SIZE = 1024"

text \<open>
  The send half: every popped intent is tracked and its packet filled in; those that
  \<open>sendmmsg\<close> did not take are dropped again.  \<open>sent\<close> is its result.
\<close>

definition track_intents :: "u64 \<Rightarrow> nsr_intent list \<Rightarrow> inflight \<Rightarrow> inflight" where
  "track_intents now intents tab = fold (\<lambda>i. track_probe (it_ttl i) (it_seq i) now) intents tab"

definition drop_unsent :: "int \<Rightarrow> nsr_intent list \<Rightarrow> inflight \<Rightarrow> inflight" where
  "drop_unsent sent intents tab =
     (if intents = [] then tab
      else if sent < 0 then fold (\<lambda>i. drop_probe (it_seq i)) intents tab
      else if sent < int (length intents) then fold (\<lambda>i. drop_probe (it_seq i)) (drop (nat sent) intents) tab
      else tab)"

definition send_packets :: "bool \<Rightarrow> bool \<Rightarrow> u16 \<Rightarrow> nsr_intent list \<Rightarrow> (u8 \<times> u8 list) list" where
  "send_packets le is_v6 gk_id intents = map (\<lambda>i. (it_ttl i, echo_request le is_v6 gk_id (it_seq i))) intents"

definition send_intents :: "u64 \<Rightarrow> int \<Rightarrow> nsr_intent list \<Rightarrow> gatekeeper \<Rightarrow> gatekeeper" where
  "send_intents now sent intents gk =
     gk\<lparr>g_inflight := drop_unsent sent intents (track_intents now intents (g_inflight gk))\<rparr>"

text \<open>
  \<open>nsr_gatekeeper_run\<close> before the loop: the address family and address of the target, and the static
  state as the program starts with it.  \<open>pton6\<close> and \<open>pton4\<close> stand for \<open>inet_pton\<close>, \<open>sock\<close> says whether
  the raw socket can be opened; \<open>None\<close> is \<open>exit(1)\<close>.
\<close>

definition inflight_zero :: nsr_inflight where
  "inflight_zero = \<lparr>if_seq = 0, if_ttl = 0, if_sent_us = 0, if_active = False\<rparr>"

definition nsr_gatekeeper_start ::
    "(string \<Rightarrow> u8 list option) \<Rightarrow> (string \<Rightarrow> u8 list option) \<Rightarrow> (bool \<Rightarrow> bool) \<Rightarrow> u32 \<Rightarrow> string \<Rightarrow> (bool \<times> u8 list \<times> gatekeeper) option" where
  "nsr_gatekeeper_start pton6 pton4 sock pid target_ip =
     (case (case pton6 target_ip of Some a \<Rightarrow> Some (True, a) | None \<Rightarrow> map_option (Pair False) (pton4 target_ip)) of
        None \<Rightarrow> None
      | Some (is_v6, addr) \<Rightarrow>
          if \<not> sock is_v6 then None
          else Some (is_v6, addr, \<lparr>g_inflight = \<lambda>_. inflight_zero, g_gk_id = ucast pid, last_reap = 0\<rparr>))"

text \<open>
  A whole iteration.  \<open>sendmm pkts\<close> is the result of \<open>sendmmsg\<close> on the packets (TTL control
  value and bytes).
\<close>

definition nsr_gatekeeper_iteration ::
    "bool \<Rightarrow> bool \<Rightarrow> u64 \<Rightarrow> ((u8 \<times> u8 list) list \<Rightarrow> int) \<Rightarrow> (nat \<Rightarrow> u8 list) \<Rightarrow> (u64 \<times> packet list) list \<Rightarrow>
     nsr_intent nsr_shm_ring \<times> nsr_observation nsr_shm_ring \<times> gatekeeper \<Rightarrow>
     (nsr_intent nsr_shm_ring \<times> nsr_observation nsr_shm_ring \<times> gatekeeper) option" where
  "nsr_gatekeeper_iteration le is_v6 now sendmm stale received = (\<lambda>(l2g, g2l, gk).
     case nsr_shm_ring_pop_batch l2g BATCH_SIZE of (intents, l2g') \<Rightarrow>
       let gk = reap_stale_inflight now gk;
           gk = send_intents now (sendmm (send_packets le is_v6 (g_gk_id gk) intents)) intents gk
       in do { (g2l', gk') \<leftarrow> receive_loop is_v6 stale received g2l gk; Some (l2g', g2l', gk') })"

section \<open>What the table promises\<close>

text \<open>
  A table of outstanding requests by sequence number: a finite map from sequence numbers to
  TTL and send time.  Its client, the packet handler, relies on these laws alone.
\<close>

datatype table_op = Track u8 u16 u64 | Find u16 | Drop u16 | Reap u64

text \<open>A sequence of operations on any such table, with the matches the finds reported.\<close>

fun table_run :: "(u8 \<Rightarrow> u16 \<Rightarrow> u64 \<Rightarrow> 't \<Rightarrow> 't) \<Rightarrow> (u16 \<Rightarrow> 't \<Rightarrow> (u8 \<times> u64) option \<times> 't) \<Rightarrow>
    (u16 \<Rightarrow> 't \<Rightarrow> 't) \<Rightarrow> (u64 \<Rightarrow> 't \<Rightarrow> 't) \<Rightarrow> table_op list \<Rightarrow> 't \<Rightarrow> (u8 \<times> u16 \<times> u64) list \<times> 't" where
  "table_run tr fi dr re [] t = ([], t)"
| "table_run tr fi dr re (Track ttl seq now # ops) t = table_run tr fi dr re ops (tr ttl seq now t)"
| "table_run tr fi dr re (Find seq # ops) t =
     (case fi seq t of (r, t') \<Rightarrow> case table_run tr fi dr re ops t' of (ms, t'') \<Rightarrow>
        (case r of None \<Rightarrow> ms | Some (ttl, sent) \<Rightarrow> (ttl, seq, sent) # ms, t''))"
| "table_run tr fi dr re (Drop seq # ops) t = table_run tr fi dr re ops (dr seq t)"
| "table_run tr fi dr re (Reap now # ops) t = table_run tr fi dr re ops (re now t)"

fun op_tracks :: "table_op \<Rightarrow> (u8 \<times> u16 \<times> u64) list" where
  "op_tracks (Track ttl seq now) = [(ttl, seq, now)]"
| "op_tracks _ = []"

definition count_seq :: "u16 \<Rightarrow> (u8 \<times> u16 \<times> u64) list \<Rightarrow> nat" where
  "count_seq seq xs = length (filter (\<lambda>(_, s, _). s = seq) xs)"

lemma count_seq_simps [simp]:
  "count_seq seq [] = 0"
  "count_seq seq ((ttl, s, now) # xs) = (if s = seq then 1 else 0) + count_seq seq xs"
  "count_seq seq (xs @ ys) = count_seq seq xs + count_seq seq ys"
  by (simp_all add: count_seq_def)

locale probe_table =
  fixes track :: "u8 \<Rightarrow> u16 \<Rightarrow> u64 \<Rightarrow> 't \<Rightarrow> 't"
    and find :: "u16 \<Rightarrow> 't \<Rightarrow> (u8 \<times> u64) option \<times> 't"
    and drop :: "u16 \<Rightarrow> 't \<Rightarrow> 't"
    and reap :: "u64 \<Rightarrow> 't \<Rightarrow> 't"
    and pending :: "'t \<Rightarrow> u16 \<Rightarrow> (u8 \<times> u64) option"
  assumes pending_track: "pending (track ttl seq now t) = (pending t)(seq \<mapsto> (ttl, now))"
    and find_result: "fst (find seq t) = pending t seq"
    and pending_find: "pending (snd (find seq t)) = (pending t)(seq := None)"
    and pending_drop: "pending (drop seq t) = (pending t)(seq := None)"
    and pending_reap: "pending (reap now t) seq =
          (case pending t seq of None \<Rightarrow> None
           | Some (ttl, sent) \<Rightarrow> if now - sent > 5000000 then None else Some (ttl, sent))"
begin

lemma run_at_most_once:
  "count_seq seq (fst (table_run track find drop reap ops t)) +
     (if pending (snd (table_run track find drop reap ops t)) seq = None then 0 else 1)
   \<le> count_seq seq (concat (map op_tracks ops)) + (if pending t seq = None then 0 else 1)"
proof (induction ops arbitrary: t)
  case (Cons p ops)
  show ?case
  proof (cases p)
    case (Track ttl s now)
    then show ?thesis using Cons [of "track ttl s now t"] by (auto simp: pending_track split: if_splits)
  next
    case (Find s)
    then show ?thesis
      using Cons [of "snd (find s t)"] find_result [of s t] pending_find [of s t]
      by (auto simp: case_prod_beta split: option.splits if_splits)
  next
    case (Drop s)
    then show ?thesis using Cons [of "drop s t"] by (auto simp: pending_drop split: if_splits)
  next
    case (Reap now)
    then show ?thesis using Cons [of "reap now t"] pending_reap [of now t seq]
      by (auto split: if_splits option.splits prod.splits)
  qed
qed simp

text \<open>Every match and every pending entry goes back to a tracked probe, with its TTL and send time.\<close>

definition entries :: "'t \<Rightarrow> (u8 \<times> u16 \<times> u64) set" where
  "entries t = {(ttl, seq, sent). pending t seq = Some (ttl, sent)}"

lemma run_sound:
  "set (fst (table_run track find drop reap ops t)) \<union> entries (snd (table_run track find drop reap ops t))
   \<subseteq> set (concat (map op_tracks ops)) \<union> entries t"
proof (induction ops arbitrary: t)
  case (Cons p ops)
  show ?case
  proof (cases p)
    case (Track ttl s now)
    have "entries (track ttl s now t) \<subseteq> {(ttl, s, now)} \<union> entries t"
      by (auto simp: entries_def pending_track split: if_splits)
    with Track Cons [of "track ttl s now t"] show ?thesis by auto
  next
    case (Find s)
    have "entries (snd (find s t)) \<subseteq> entries t"
      by (auto simp: entries_def pending_find split: if_splits)
    moreover have "fst (find s t) = Some (ttl, sent) \<Longrightarrow> (ttl, s, sent) \<in> entries t" for ttl sent
      by (simp add: entries_def find_result)
    ultimately show ?thesis
      using Find Cons [of "snd (find s t)"] by (auto simp: case_prod_beta split: option.splits)
  next
    case (Drop s)
    have "entries (drop s t) \<subseteq> entries t"
      by (auto simp: entries_def pending_drop split: if_splits)
    with Drop Cons [of "drop s t"] show ?thesis by auto
  next
    case (Reap now)
    have "entries (reap now t) \<subseteq> entries t"
      by (auto simp: entries_def pending_reap split: option.splits if_splits)
    with Reap Cons [of "reap now t"] show ?thesis by auto
  qed
qed simp

end

text \<open>
  The array implements the map: 65536 slots and 16-bit sequence numbers, so a slot is never
  shared by two of them.
\<close>

definition inflight_pending :: "inflight \<Rightarrow> u16 \<Rightarrow> (u8 \<times> u64) option" where
  "inflight_pending tab seq =
     (let e = tab (unat seq) in if if_active e \<and> if_seq e = seq then Some (if_ttl e, if_sent_us e) else None)"

lemma inflight_idx [simp]: "unat (seq :: u16) mod NSR_GK_MAX_INFLIGHT = unat seq"
  using unat_u16_less [of seq] by (simp add: NSR_GK_MAX_INFLIGHT_def)

lemma unat_u16_lt [simp]: "unat (seq :: u16) < NSR_GK_MAX_INFLIGHT"
  using unat_u16_less [of seq] by (simp add: NSR_GK_MAX_INFLIGHT_def)

interpretation inflight: probe_table track_probe find_probe drop_probe reap_slots inflight_pending
  by unfold_locales
     (auto simp: fun_eq_iff inflight_pending_def track_probe_def find_probe_def drop_probe_def reap_slots_def
        Let_def word_unat_eq_iff)

section \<open>Bytes and the checksum\<close>

lemma unat_u16_of_bytes: "unat (u16_of_bytes a b) = unat a * 256 + unat b"
proof -
  have "push_bit 8 (ucast a :: u16) AND ucast b = 0"
    by (rule bit_eqI) (auto simp: bit_simps dest: bit_imp_le_length)
  then have "u16_of_bytes a b = push_bit 8 (ucast a) + ucast b"
    unfolding u16_of_bytes_def by (simp add: disjunctive_add_eq_or)
  also have "\<dots> = of_nat (unat a * 256 + unat b)"
    by (simp add: push_bit_eq_mult)
  finally have "unat (u16_of_bytes a b) = unat (of_nat (unat a * 256 + unat b) :: u16)" by (rule arg_cong)
  also have "\<dots> = unat a * 256 + unat b"
    using unat_u8_less [of a] unat_u8_less [of b] by (intro unat_of_nat_small) simp
  finally show ?thesis .
qed

lemma unat_lo_byte: "unat (lo_byte w) = unat w mod 256"
  by (simp add: lo_byte_def unat_ucast)

lemma unat_hi_byte: "unat (hi_byte w) = unat w div 256"
  using unat_u16_less [of w] by (simp add: hi_byte_def unat_ucast drop_bit_eq_div unat_div_distrib)

lemma u16_of_bytes_hi_lo [simp]: "u16_of_bytes (hi_byte w) (lo_byte w) = w"
  by (simp add: word_unat_eq_iff unat_u16_of_bytes unat_lo_byte unat_hi_byte)

lemma hi_lo_u16_of_bytes [simp]: "hi_byte (u16_of_bytes a b) = a" "lo_byte (u16_of_bytes a b) = b"
  using unat_u8_less [of a] unat_u8_less [of b]
  by (simp_all add: word_unat_eq_iff unat_u16_of_bytes unat_lo_byte unat_hi_byte)

lemma mem_htons [simp]: "mem_u16 le (htons le w) = [hi_byte w, lo_byte w]"
  by (simp add: mem_u16_def htons_def)

text \<open>The Internet checksum of RFC 1071: the 16-bit one's complement sum of the words.\<close>

definition ones_add :: "nat \<Rightarrow> nat \<Rightarrow> nat" where
  "ones_add a b = (if a + b < 65536 then a + b else a + b - 65535)"

definition rfc1071_sum :: "u16 list \<Rightarrow> nat" where
  "rfc1071_sum ws = fold (\<lambda>w s. ones_add s (unat w)) ws 0"

fun be_words :: "u8 list \<Rightarrow> u16 list" where
  "be_words (a # b # bs) = u16_of_bytes a b # be_words bs"
| "be_words [a] = [u16_of_bytes a 0]"
| "be_words [] = []"

definition icmp_checksum_ok :: "u8 list \<Rightarrow> bool" where
  "icmp_checksum_ok pkt \<longleftrightarrow> rfc1071_sum (be_words pkt) = 65535"

lemma ones_fold:
  fixes ws :: "u16 list"
  assumes "s \<le> 65535"
  shows "fold (\<lambda>w s. ones_add s (unat w)) ws s \<le> 65535 \<and>
     fold (\<lambda>w s. ones_add s (unat w)) ws s mod 65535 = (s + (\<Sum>w \<leftarrow> ws. unat w)) mod 65535 \<and>
     (0 < s + (\<Sum>w \<leftarrow> ws. unat w) \<longrightarrow> 0 < fold (\<lambda>w s. ones_add s (unat w)) ws s)"
  using assms
proof (induction ws arbitrary: s)
  case (Cons w ws)
  have le: "ones_add s (unat w) \<le> 65535"
    using Cons.prems unat_u16_less [of w] by (cases "s + unat w < 65536") (simp_all add: ones_add_def)
  have "ones_add s (unat w) mod 65535 = (s + unat w) mod 65535"
    by (auto simp: ones_add_def le_mod_geq)
  then have "(ones_add s (unat w) + x) mod 65535 = (s + unat w + x) mod 65535" for x
    by (metis mod_add_left_eq)
  moreover have "0 < s + unat w \<Longrightarrow> 0 < ones_add s (unat w)" by (auto simp: ones_add_def)
  ultimately show ?case using Cons.IH [OF le] by (auto simp: add.assoc)
qed simp

lemma rfc1071_sum_props:
  "rfc1071_sum ws \<le> 65535" "rfc1071_sum ws mod 65535 = (\<Sum>w \<leftarrow> ws. unat w) mod 65535"
  "0 < (\<Sum>w \<leftarrow> ws. unat w) \<Longrightarrow> 0 < rfc1071_sum ws"
  using ones_fold [of 0 ws] by (simp_all add: rfc1071_sum_def)

lemma fold_carries:
  fixes S :: nat
  assumes "S < 196608"
  defines "T \<equiv> S div 65536 + S mod 65536"
  shows "T < 131072" "((T + T div 65536) mod 65536) mod 65535 = S mod 65535"
    "0 < S \<Longrightarrow> 0 < (T + T div 65536) mod 65536"
proof -
  define q r where "q = S div 65536" and "r = S mod 65536"
  have S: "S = q * 65536 + r" "r < 65536" "q \<le> 2" using assms by (auto simp: q_def r_def)
  have "S mod 65535 = (q + r + q * 65535) mod 65535" by (simp add: S algebra_simps)
  then have Sm: "S mod 65535 = (q + r) mod 65535" by (simp only: mod_mult_self1)
  have T: "T = q + r" by (simp add: T_def q_def r_def)
  then show "T < 131072" using S by simp
  have "((T + T div 65536) mod 65536) mod 65535 = (q + r) mod 65535 \<and> (0 < S \<longrightarrow> 0 < (T + T div 65536) mod 65536)"
  proof (cases "T < 65536")
    case True
    then show ?thesis using S by (auto simp: T)
  next
    case False
    then obtain d where d: "T = 65536 + d" "d \<le> 1" using S T by (intro that [of "T - 65536"]) linarith+
    then have "d = 0 \<or> d = 1" by auto
    with d show ?thesis by (auto simp: T [symmetric])
  qed
  with Sm show "((T + T div 65536) mod 65536) mod 65535 = S mod 65535"
    "0 < S \<Longrightarrow> 0 < (T + T div 65536) mod 65536" by simp_all
qed

text \<open>
  The fast checksum: the sum of its result and the three header words is 0 modulo 65535, and
  it is the complement of their one's complement sum.
\<close>

lemma unat_NOT_u16: "unat (NOT (w :: u16)) = 65535 - unat w"
proof -
  have "NOT w = 0xFFFF - w" by (simp add: not_eq_complement)
  then show ?thesis using unat_u16_less [of w] by (simp add: unat_sub_if')
qed

lemma fast_icmp_checksum_unat:
  defines "S \<equiv> \<lambda>a b. 2048 + unat (a :: u16) + unat (b :: u16)"
  defines "T \<equiv> \<lambda>a b. S a b div 65536 + S a b mod 65536"
  shows "unat (fast_icmp_checksum a b) = 65535 - (T a b + T a b div 65536) mod 65536"
proof -
  define s1 where "s1 = (0x0800 + ucast a + ucast b :: u32)"
  define s2 where "s2 = drop_bit 16 s1 + (s1 AND 0xFFFF)"
  define s3 where "s3 = s2 + drop_bit 16 s2"
  have lt: "S a b < 196608" using unat_u16_less [of a] unat_u16_less [of b] by (simp add: S_def)
  have "s1 = of_nat (S a b)" by (simp add: s1_def S_def)
  then have 1: "unat s1 = S a b" using lt by (simp add: unat_of_nat_small)
  have m: "unat (s1 AND 0xFFFF) = S a b mod 65536"
    using unat_and_mask [of 16 s1] 1 by (simp add: mask_eq_exp_minus_1)
  have 2: "unat s2 = T a b"
    using lt fold_carries(1) [OF lt] by (simp add: s2_def T_def m 1 unat_word_ariths drop_bit_eq_div unat_div_distrib)
  have 3: "unat s3 = T a b + T a b div 65536"
    using fold_carries(1) [OF lt] by (simp add: s3_def 2 T_def unat_word_ariths drop_bit_eq_div unat_div_distrib)
  have "fast_icmp_checksum a b = ucast (NOT s3)"
    by (simp add: fast_icmp_checksum_def s1_def s2_def s3_def Let_def)
  also have "\<dots> = NOT (ucast s3)"
    by (rule bit_eqI) (auto simp: bit_simps)
  finally show ?thesis by (simp add: unat_NOT_u16 unat_ucast 3)
qed

lemma fast_icmp_checksum_mod:
  "(unat (fast_icmp_checksum a b) + 2048 + unat a + unat b) mod 65535 = 0"
proof -
  define S where "S = 2048 + unat a + unat b"
  define T where "T = S div 65536 + S mod 65536"
  define U where "U = (T + T div 65536) mod 65536"
  have lt: "S < 196608" using unat_u16_less [of a] unat_u16_less [of b] by (simp add: S_def)
  have "unat (fast_icmp_checksum a b) = 65535 - U" "U < 65536"
    using fast_icmp_checksum_unat [of a b] by (simp_all add: S_def T_def U_def)
  then have U: "unat (fast_icmp_checksum a b) + U = 65535" by simp
  have "U mod 65535 = S mod 65535" using fold_carries(2) [OF lt] by (simp add: T_def U_def)
  then have "(unat (fast_icmp_checksum a b) + S) mod 65535 = (unat (fast_icmp_checksum a b) + U) mod 65535"
    by (metis mod_add_right_eq)
  also have "\<dots> = 0" by (simp add: U)
  finally show ?thesis by (simp add: S_def add.assoc)
qed

lemma rfc1071_eq_all_ones:
  assumes "0 < (\<Sum>w \<leftarrow> ws. unat w)"
  shows "rfc1071_sum ws = 65535 \<longleftrightarrow> (\<Sum>w \<leftarrow> ws. unat w) mod 65535 = 0"
proof -
  have "rfc1071_sum ws \<le> 65535" "0 < rfc1071_sum ws" using rfc1071_sum_props assms by auto
  moreover have "rfc1071_sum ws mod 65535 = (\<Sum>w \<leftarrow> ws. unat w) mod 65535" by (rule rfc1071_sum_props)
  ultimately show ?thesis
    by (metis le_neq_implies_less mod_less mod_self not_gr0)
qed

text \<open>Swapping the bytes of a word multiplies it by 256 modulo 65535.\<close>

lemma swap_mod: "unat (htons True w) mod 65535 = 256 * unat w mod 65535"
proof -
  have "256 * unat w = unat (lo_byte w) * 256 + unat (hi_byte w) + unat (hi_byte w) * 65535"
    unfolding unat_lo_byte unat_hi_byte using div_mult_mod_eq [of "unat w" 256] by linarith
  then show ?thesis
    by (simp only: htons_def if_True unat_u16_of_bytes mod_mult_self1)
qed

lemma be_words_echo_request:
  "be_words (echo_request le False i s) =
     [0x0800, htons le (fast_icmp_checksum (htons le i) (htons le s)), i, s]"
proof -
  have "u16_of_bytes 8 0 = 0x0800" by (simp add: word_unat_eq_iff unat_u16_of_bytes)
  then show ?thesis by (auto simp: echo_request_def Let_def) (auto simp: mem_u16_def htons_def)
qed

lemma echo_request_checksum_iff:
  "icmp_checksum_ok (echo_request le False i s) \<longleftrightarrow>
     (2048 + unat (htons le (fast_icmp_checksum (htons le i) (htons le s))) + unat i + unat s) mod 65535 = 0"
proof -
  have "unat (0x0800 :: u16) = 2048" by simp
  then show ?thesis
    unfolding icmp_checksum_ok_def be_words_echo_request
    by (subst rfc1071_eq_all_ones) (simp_all del: unsigned_numeral add: add.assoc)
qed

section \<open>Reads stay within the packet\<close>

lemma get8_Some [simp]: "i < length buf \<Longrightarrow> get8 buf i = Some (buf ! i)"
  by (simp add: get8_def)

lemma get16_Some [simp]: "Suc i < length buf \<Longrightarrow> get16 buf i = Some (u16_of_bytes (buf ! i) (buf ! Suc i))"
  by (simp add: get16_def)

lemma walk_ext_safe: "end' \<le> length buf \<Longrightarrow> walk_ext buf end' nxt off \<noteq> None"
proof (induction buf end' nxt off rule: walk_ext.induct)
  case (1 buf end' nxt off)
  show ?case
    by (subst walk_ext.simps) (use 1 in \<open>auto simp: Let_def split: if_splits\<close>)
qed

lemma parse_ipv6_original_icmp6_safe: "parse_ipv6_original_icmp6 buf off \<noteq> None"
proof (cases "length buf < off + 40")
  case False
  then have "get8 buf (off + 6) = Some (buf ! (off + 6))"
    "get16 buf (off + 4) = Some (u16_of_bytes (buf ! (off + 4)) (buf ! Suc (off + 4)))"
    by simp_all
  with False walk_ext_safe [of _ buf] show ?thesis by (simp add: parse_ipv6_original_icmp6_def)
qed (simp add: parse_ipv6_original_icmp6_def)

lemma get8_first: "k \<le> length buf \<Longrightarrow> 0 < k \<Longrightarrow> get8 buf 0 = Some (buf ! 0)"
  by (auto simp: get8_def)

lemma parse_ipv6_safe: "parse_ipv6 buf \<noteq> None"
proof (cases "length buf < 8")
  case False
  with parse_ipv6_original_icmp6_safe [of buf 8] get8_first [of 8 buf] show ?thesis
    by (auto simp: parse_ipv6_def)
qed (simp add: parse_ipv6_def)

lemma parse_ipv4_safe: "parse_ipv4 buf \<noteq> None"
proof (cases "length buf < 20")
  case False
  with get8_first [of 20 buf] show ?thesis by (simp add: parse_ipv4_def Let_def)
qed (simp add: parse_ipv4_def)

lemma process_packet_safe: "process_packet is_v6 now stale pkt acc \<noteq> None"
  using parse_ipv4_safe [of "fst pkt"] parse_ipv6_safe [of "fst pkt"]
  by (auto simp: process_packet_def case_prod_beta)

lemma process_batch_safe: "process_batch is_v6 now stale pkts acc \<noteq> None"
proof (induction pkts arbitrary: acc)
  case (Cons p ps)
  then show ?case using process_packet_safe [of is_v6 now stale p acc] by auto
qed simp

section \<open>Recognising our own probes\<close>

lemma length_echo_request [simp]: "length (echo_request le v i s) = 8"
  by (simp add: echo_request_def Let_def mem_u16_def)

lemma echo_request_nth:
  "echo_request le v i s ! 0 = (if v then 128 else 8)"
  "echo_request le v i s ! 4 = hi_byte i" "echo_request le v i s ! 5 = lo_byte i"
  "echo_request le v i s ! 6 = hi_byte s" "echo_request le v i s ! 7 = lo_byte s"
  by (simp_all add: echo_request_def Let_def) (simp_all add: mem_u16_def)

lemma get16_echo_request:
  assumes "buf = pre @ echo_request le v i s @ post"
  shows "get16 buf (length pre + 4) = Some i" "get16 buf (length pre + 6) = Some s"
proof -
  have at: "buf ! (length pre + k) = echo_request le v i s ! k" if "k < 8" for k
    using that by (simp add: assms nth_append)
  have "u16_of_bytes (buf ! (length pre + 4)) (buf ! Suc (length pre + 4)) = i"
    using at [of 4] at [of 5] echo_request_nth [of le v i s] by (simp add: numeral_eq_Suc)
  then show "get16 buf (length pre + 4) = Some i" by (simp add: assms)
  have "u16_of_bytes (buf ! (length pre + 6)) (buf ! Suc (length pre + 6)) = s"
    using at [of 6] at [of 7] echo_request_nth [of le v i s] by (simp add: numeral_eq_Suc)
  then show "get16 buf (length pre + 6) = Some s" by (simp add: assms)
qed

text \<open>A chain of IPv6 extension headers: type, length byte and the bytes after those two.\<close>

type_synonym ext_header = "u8 \<times> u8 \<times> u8 list"

fun ext_ok :: "ext_header \<Rightarrow> bool" where
  "ext_ok (ty, len, body) \<longleftrightarrow>
     (ty \<in> {0, 43, 60} \<and> length body + 2 = (unat len + 1) * 8) \<or>
     (ty = 44 \<and> length body = 6) \<or> (ty = 51 \<and> length body + 2 = (unat len + 2) * 4)"

fun chain_type :: "ext_header list \<Rightarrow> u8" where
  "chain_type [] = 58"
| "chain_type ((ty, len, body) # cs) = ty"

fun encode_chain :: "ext_header list \<Rightarrow> u8 list" where
  "encode_chain [] = []"
| "encode_chain ((ty, len, body) # cs) = chain_type cs # len # body @ encode_chain cs"

lemma walk_ext_skip:
  assumes "get8 buf off = Some nxt'" "get8 buf (off + 1) = Some len"
  shows "nxt \<in> {0, 43, 60} \<Longrightarrow> off + (unat len + 1) * 8 \<le> end' \<Longrightarrow>
      walk_ext buf end' nxt off = walk_ext buf end' nxt' (off + (unat len + 1) * 8)"
    and "nxt = 51 \<Longrightarrow> off + (unat len + 2) * 4 \<le> end' \<Longrightarrow>
      walk_ext buf end' nxt off = walk_ext buf end' nxt' (off + (unat len + 2) * 4)"
    and "nxt = 44 \<Longrightarrow> off + 8 \<le> end' \<Longrightarrow> walk_ext buf end' nxt off = walk_ext buf end' nxt' (off + 8)"
  using assms by (subst walk_ext.simps, force simp: Let_def)+

lemma walk_ext_chain:
  assumes "\<forall>c \<in> set cs. ext_ok c"
    and "buf = pre @ encode_chain cs @ echo_request le True i s @ post"
    and "length pre + length (encode_chain cs) + 8 \<le> end'" "end' \<le> length buf"
  shows "walk_ext buf end' (chain_type cs) (length pre) = Some (Some (i, s))"
  using assms
proof (induction cs arbitrary: pre)
  case Nil
  have "get8 buf (length pre) = Some 128"
    using Nil(2,3,4) echo_request_nth(1) [of le True i s] by (simp add: get8_def nth_append)
  then show ?case
    using Nil get16_echo_request [of buf pre le True i s post] by (subst walk_ext.simps) simp
next
  case (Cons c cs)
  obtain ty len body where c: "c = (ty, len, body)" by (cases c)
  let ?pre = "pre @ chain_type cs # len # body"
  have IH: "walk_ext buf end' (chain_type cs) (length ?pre) = Some (Some (i, s))"
    using Cons.prems by (intro Cons.IH) (auto simp: c)
  have g: "get8 buf (length pre) = Some (chain_type cs)" "get8 buf (length pre + 1) = Some len"
    using Cons.prems(2) by (auto simp: c get8_def nth_append)
  have len: "length pre + 2 + length body + 8 \<le> end'" using Cons.prems(3) by (simp add: c)
  from Cons.prems(1) have "ext_ok (ty, len, body)" by (simp add: c)
  then consider "ty \<in> {0, 43, 60}" "length body + 2 = (unat len + 1) * 8" | "ty = 44" "length body = 6"
    | "ty = 51" "length body + 2 = (unat len + 2) * 4" by auto
  then show ?case
  proof cases
    case 1
    then have off: "length pre + (unat len + 1) * 8 = length ?pre" by simp
    show ?thesis using walk_ext_skip(1) [OF g 1(1)] IH len unfolding off by (simp add: c)
  next
    case 2
    then have off: "length pre + 8 = length ?pre" by simp
    show ?thesis using walk_ext_skip(3) [OF g 2(1)] IH len unfolding off by (simp add: c)
  next
    case 3
    then have off: "length pre + (unat len + 2) * 4 = length ?pre" by simp
    show ?thesis using walk_ext_skip(2) [OF g 3(1)] IH len unfolding off by (simp add: c)
  qed
qed

definition ipv4_header :: "u8 list \<Rightarrow> bool" where
  "ipv4_header h \<longleftrightarrow> length h \<ge> 20 \<and> drop_bit 4 (h ! 0) = 4 \<and> length h = unat (h ! 0 AND 15) * 4"

lemma ipv4_headerD:
  assumes "ipv4_header h"
  shows "h \<noteq> []" "drop_bit 4 (h ! 0) = 4" "unat (h ! 0 AND 15) * 4 = length h" "\<not> unat (h ! 0 AND 15) < 5"
  using assms by (auto simp: ipv4_header_def)

lemma parse_ipv4_step:
  assumes h: "ipv4_header h" and buf: "buf = h @ msg" and len: "8 \<le> length msg"
  shows "parse_ipv4 buf =
    (if msg ! 0 = 0 then Some (Some (u16_of_bytes (msg ! 4) (msg ! 5), u16_of_bytes (msg ! 6) (msg ! 7), NSR_OBS_REPLY))
     else if msg ! 0 = 11 \<or> msg ! 0 = 3 then
       if length msg < 36 then Some None
       else let iip_len = unat (msg ! 8 AND 15) * 4
            in if unat (msg ! 8 AND 15) < 5 \<or> length msg < 8 + iip_len + 8 then Some None
               else Some (Some (u16_of_bytes (msg ! (8 + iip_len + 4)) (msg ! (8 + iip_len + 5)),
                                u16_of_bytes (msg ! (8 + iip_len + 6)) (msg ! (8 + iip_len + 7)),
                                if msg ! 0 = 3 then NSR_OBS_UNREACH else NSR_OBS_EXCEEDED))
     else Some (Some (0, 0, NSR_OBS_NONE)))"
proof -
  note hd = ipv4_headerD [OF h]
  have b0: "buf ! 0 = h ! 0" using hd by (simp add: buf nth_append)
  have g0: "get8 buf 0 = Some (h ! 0)" using hd by (auto simp: buf get8_def nth_append)
  have L: "length buf = length h + length msg" "20 \<le> length h" using h by (auto simp: buf ipv4_header_def)
  have g: "get8 buf (length h + k) = Some (msg ! k)" if "k < length msg" for k
    using that by (simp add: buf get8_def nth_append)
  have g16: "get16 buf (length h + k) = Some (u16_of_bytes (msg ! k) (msg ! Suc k))" if "Suc k < length msg" for k
    using that by (simp add: buf get16_def get8_def nth_append)
  have type: "get8 buf (length h) = Some (msg ! 0)" using g [of 0] len by (cases msg) auto
  show ?thesis
  proof (cases "msg ! 0 = 11 \<or> msg ! 0 = 3")
    case False
    then show ?thesis
      using g16 [of 4] g16 [of 6] len L
      by (auto simp: parse_ipv4_def g0 hd type Let_def)
  next
    case True
    show ?thesis
    proof (cases "36 \<le> length msg")
      case small: True
      let ?i = "unat (msg ! 8 AND 15)"
      have inner: "get8 buf (length h + 8) = Some (msg ! 8)" using g [of 8] small by simp
      show ?thesis
      proof (cases "?i < 5 \<or> length msg < 8 + ?i * 4 + 8")
        case bad: True
        then show ?thesis using True small L inner
          by (auto simp: parse_ipv4_def g0 hd type Let_def)
      next
        case ok: False
        have "get16 buf (length h + 8 + ?i * 4 + 4) = Some (u16_of_bytes (msg ! (8 + ?i * 4 + 4)) (msg ! (8 + ?i * 4 + 5)))"
          "get16 buf (length h + 8 + ?i * 4 + 6) = Some (u16_of_bytes (msg ! (8 + ?i * 4 + 6)) (msg ! (8 + ?i * 4 + 7)))"
          using ok g16 [of "8 + ?i * 4 + 4"] g16 [of "8 + ?i * 4 + 6"] by (simp_all add: add.assoc)
        then show ?thesis using True small ok L inner
          by (auto simp: parse_ipv4_def g0 hd type Let_def)
      qed
    next
      case False
      then show ?thesis using True L len by (auto simp: parse_ipv4_def g0 hd type Let_def)
    qed
  qed
qed

section \<open>What a batch of packets yields\<close>

abbreviation gk_pending :: "gatekeeper \<Rightarrow> u16 \<Rightarrow> (u8 \<times> u64) option" where
  "gk_pending gk \<equiv> inflight_pending (g_inflight gk)"

text \<open>An observation answers a pending probe, with its TTL and the time since it was sent.\<close>

definition answers :: "bool \<Rightarrow> u64 \<Rightarrow> gatekeeper \<Rightarrow> nsr_observation \<Rightarrow> bool" where
  "answers is_v6 now gk x \<longleftrightarrow>
     (case gk_pending gk (ob_seq x) of None \<Rightarrow> False
      | Some (ttl, sent) \<Rightarrow> ob_ttl x = ttl \<and> ob_rtt_us x = now - sent) \<and>
     ob_type x \<in> {NSR_OBS_REPLY, NSR_OBS_EXCEEDED, NSR_OBS_UNREACH} \<and> ob_is_v6 x = is_v6"

definition without :: "u16 set \<Rightarrow> (u16 \<Rightarrow> 'b option) \<Rightarrow> u16 \<Rightarrow> 'b option" where
  "without S m s = (if s \<in> S then None else m s)"

lemma without_simps [simp]:
  "without {} m = m" "without S (without S' m) = without (S' \<union> S) m" "without {s} m = m(s := None)"
  by (auto simp: without_def fun_eq_iff)

lemma parse_type:
  "parse_ipv4 buf = Some (Some (i, s, ty)) \<Longrightarrow> ty \<noteq> NSR_OBS_NONE \<Longrightarrow> ty \<in> {NSR_OBS_REPLY, NSR_OBS_EXCEEDED, NSR_OBS_UNREACH}"
  "parse_ipv6 buf = Some (Some (i, s, ty)) \<Longrightarrow> ty \<noteq> NSR_OBS_NONE \<Longrightarrow> ty \<in> {NSR_OBS_REPLY, NSR_OBS_EXCEEDED, NSR_OBS_UNREACH}"
  by (auto simp: parse_ipv4_def parse_ipv6_def Let_def split: if_splits Option.bind_splits option.splits)

lemma process_packet_cases:
  assumes "process_packet is_v6 now stale pkt (obs, gk) = Some (obs', gk')"
  shows "(obs' = obs \<and> gk_pending gk' = gk_pending gk \<and> g_gk_id gk' = g_gk_id gk \<and> last_reap gk' = last_reap gk) \<or>
    (\<exists>x. obs' = obs @ [x] \<and> answers is_v6 now gk x \<and> gk_pending gk' = without {ob_seq x} (gk_pending gk) \<and>
       g_gk_id gk' = g_gk_id gk \<and> last_reap gk' = last_reap gk)"
proof -
  have none: "gk_pending gk s = None \<Longrightarrow> (gk_pending gk)(s := None) = gk_pending gk" for s by auto
  show ?thesis
    using assms parse_type [of "fst pkt"] inflight.pending_find inflight.find_result none
    by (fastforce simp: process_packet_def case_prod_beta answers_def split: if_splits option.splits Option.bind_splits)
qed

lemma answers_without:
  assumes "gk_pending gk' = without S (gk_pending gk)" "answers v now gk' x"
  shows "answers v now gk x" "ob_seq x \<notin> S"
  using assms by (auto simp: answers_def without_def split: option.splits if_splits)

definition batch_result :: "bool \<Rightarrow> u64 set \<Rightarrow> gatekeeper \<Rightarrow> nsr_observation list \<Rightarrow> gatekeeper \<Rightarrow> bool" where
  "batch_result is_v6 nows gk new gk' \<longleftrightarrow>
     distinct (map ob_seq new) \<and> (\<forall>x \<in> set new. \<exists>now \<in> nows. answers is_v6 now gk x) \<and>
     gk_pending gk' = without (ob_seq ` set new) (gk_pending gk) \<and> g_gk_id gk' = g_gk_id gk"

lemma batch_result_refl: "batch_result v nows gk [] gk"
  by (simp add: batch_result_def)

lemma batch_result_trans:
  assumes "batch_result v nows gk new gk1" "batch_result v nows' gk1 new' gk2"
  shows "batch_result v (nows \<union> nows') gk (new @ new') gk2"
proof -
  let ?S = "ob_seq ` set new"
  have p1: "gk_pending gk1 = without ?S (gk_pending gk)" and d: "distinct (map ob_seq new)" "distinct (map ob_seq new')"
    and p2: "gk_pending gk2 = without (ob_seq ` set new') (gk_pending gk1)"
    and a1: "\<forall>x \<in> set new. \<exists>now \<in> nows. answers v now gk x"
    and a2: "\<forall>x \<in> set new'. \<exists>now \<in> nows'. answers v now gk1 x"
    using assms by (simp_all add: batch_result_def)
  have a2': "\<forall>x \<in> set new'. \<exists>now \<in> nows'. answers v now gk x" and "\<forall>x \<in> set new'. ob_seq x \<notin> ?S"
    using a2 answers_without [OF p1] by blast+
  then have "?S \<inter> ob_seq ` set new' = {}" unfolding disjoint_iff by (metis imageE)
  with d have "distinct (map ob_seq (new @ new'))" by simp
  moreover have "\<forall>x \<in> set (new @ new'). \<exists>now \<in> nows \<union> nows'. answers v now gk x"
    using a1 a2' unfolding set_append by blast
  moreover have "gk_pending gk2 = without (ob_seq ` set (new @ new')) (gk_pending gk)"
    unfolding p2 p1 by (simp add: image_Un)
  moreover have "g_gk_id gk2 = g_gk_id gk" using assms by (simp add: batch_result_def)
  ultimately show ?thesis unfolding batch_result_def by blast
qed

lemma batch_result_mono: "batch_result v nows gk new gk' \<Longrightarrow> nows \<subseteq> nows' \<Longrightarrow> batch_result v nows' gk new gk'"
  unfolding batch_result_def by (meson subsetD)

lemma process_packet_result:
  assumes "process_packet is_v6 now stale pkt (obs, gk) = Some (obs', gk')"
  shows "\<exists>new. obs' = obs @ new \<and> length new \<le> 1 \<and> batch_result is_v6 {now} gk new gk'"
  using process_packet_cases [OF assms]
proof (elim disjE exE)
  assume "obs' = obs \<and> gk_pending gk' = gk_pending gk \<and> g_gk_id gk' = g_gk_id gk \<and> last_reap gk' = last_reap gk"
  then show ?thesis by (auto simp: batch_result_def)
next
  fix x
  assume "obs' = obs @ [x] \<and> answers is_v6 now gk x \<and> gk_pending gk' = without {ob_seq x} (gk_pending gk) \<and>
       g_gk_id gk' = g_gk_id gk \<and> last_reap gk' = last_reap gk"
  then show ?thesis by (intro exI [of _ "[x]"]) (simp add: batch_result_def)
qed

lemma process_batch_result:
  "process_batch is_v6 now stale pkts (obs, gk) = Some (obs', gk') \<Longrightarrow>
     \<exists>new. obs' = obs @ new \<and> length new \<le> length pkts \<and> batch_result is_v6 {now} gk new gk'"
proof (induction pkts arbitrary: obs gk)
  case Nil
  then show ?case by (auto intro: batch_result_refl)
next
  case (Cons p ps)
  then obtain obs1 gk1 where 1: "process_packet is_v6 now stale p (obs, gk) = Some (obs1, gk1)"
    and 2: "process_batch is_v6 now stale ps (obs1, gk1) = Some (obs', gk')"
    by (auto split: Option.bind_splits)
  obtain new1 where n1: "obs1 = obs @ new1" "length new1 \<le> 1" "batch_result is_v6 {now} gk new1 gk1"
    using process_packet_result [OF 1] by blast
  obtain new2 where n2: "obs' = obs1 @ new2" "length new2 \<le> length ps" "batch_result is_v6 {now} gk1 new2 gk'"
    using Cons.IH [OF 2] by blast
  from batch_result_trans [OF n1(3) n2(3)] n1 n2 show ?case
    by (intro exI [of _ "new1 @ new2"]) simp
qed

lemma receive_loop_result:
  assumes "receive_loop is_v6 stale received g2l gk = Some (g2l', gk')"
    and "ring_inv g2l" "\<forall>(now, pkts) \<in> set received. length pkts \<le> 1024"
  shows "ring_inv g2l' \<and> (\<exists>new. ring_contents g2l' = ring_contents g2l @ new \<and>
     batch_result is_v6 (fst ` set received) gk new gk')"
  using assms
proof (induction received arbitrary: g2l gk)
  case Nil
  then show ?case by (auto intro: batch_result_refl)
next
  case (Cons b bs)
  obtain now pkts where b: "b = (now, pkts)" by (cases b)
  with Cons.prems obtain obs gk1 where pb: "process_batch is_v6 now stale pkts ([], gk) = Some (obs, gk1)"
    by (auto split: Option.bind_splits)
  then have obs: "length obs \<le> length pkts" "batch_result is_v6 {now} gk obs gk1"
    using process_batch_result [OF pb] by auto
  have small: "length obs \<le> 2147483647" using obs Cons.prems(3) by (auto simp: b)
  show ?case
  proof (cases "obs = []")
    case True
    then have "receive_loop is_v6 stale bs g2l gk1 = Some (g2l', gk')" using Cons.prems(1) pb by (simp add: b)
    from Cons.IH [OF this Cons.prems(2)] Cons.prems(3) obtain new where
      "ring_inv g2l'" "ring_contents g2l' = ring_contents g2l @ new" "batch_result is_v6 (fst ` set bs) gk1 new gk'" by auto
    with True batch_result_trans [OF obs(2)] show ?thesis by (fastforce simp: b)
  next
    case False
    obtain g1 where push: "nsr_shm_ring_push_batch g2l obs = (True, g1)"
      and rest: "receive_loop is_v6 stale bs g1 gk1 = Some (g2l', gk')"
      using Cons.prems(1) pb False by (auto simp: b split: prod.splits bool.splits)
    have "ring_contents g1 = ring_contents g2l @ obs" "ring_inv g1"
      using ring.push_batch_full [OF Cons.prems(2) small] ring.push_batch_room [OF Cons.prems(2) small] push
      by (auto simp: not_less [symmetric])
    with Cons.IH [OF rest] Cons.prems(3) obtain new where
      "ring_inv g2l'" "ring_contents g2l' = ring_contents g2l @ obs @ new" "batch_result is_v6 (fst ` set bs) gk1 new gk'" by auto
    with batch_result_trans [OF obs(2)] show ?thesis by (fastforce simp: b)
  qed
qed

lemma receive_loop_progress:
  assumes "ring_inv g2l" "\<forall>(now, pkts) \<in> set received. length pkts \<le> 1024"
    and "ring_used g2l + (\<Sum>(now, pkts) \<leftarrow> received. length pkts) \<le> 131070"
  shows "\<exists>g2l' gk'. receive_loop is_v6 stale received g2l gk = Some (g2l', gk')"
  using assms
proof (induction received arbitrary: g2l gk)
  case (Cons b bs)
  obtain now pkts where b: "b = (now, pkts)" by (cases b)
  obtain obs gk1 where pb: "process_batch is_v6 now stale pkts ([], gk) = Some (obs, gk1)"
    using process_batch_safe [of is_v6 now stale pkts "([], gk)"] by fastforce
  then have obs: "length obs \<le> length pkts" using process_batch_result [OF pb] by auto
  show ?case
  proof (cases "obs = []")
    case True
    with Cons pb show ?thesis by (auto simp: b)
  next
    case False
    have r: "fst (nsr_shm_ring_push_batch g2l obs)" "ring_inv (snd (nsr_shm_ring_push_batch g2l obs))"
      "ring_contents (snd (nsr_shm_ring_push_batch g2l obs)) = ring_contents g2l @ obs"
      using ring.push_batch_room [OF Cons.prems(1), of obs] obs Cons.prems(2,3) by (auto simp: b)
    then obtain g1 where push: "nsr_shm_ring_push_batch g2l obs = (True, g1)"
      by (metis (full_types) prod.collapse)
    then have "ring_used g1 = ring_used g2l + length obs" using r(3) by (metis length_append length_ring_contents snd_conv)
    with Cons r push pb False obs show ?thesis by (auto simp: b)
  qed
qed simp

section \<open>Properties\<close>

text \<open>
  The table of probes in flight answers each probe at most once.  Over any sequence of
  track, find, drop and reap operations, the matches for a sequence number plus a probe still
  pending are no more than the probes tracked under it plus one pending at the start, and every
  match carries the TTL and send time of a probe that was tracked or pending.
\<close>

lemma probe_matched_at_most_once:
  "case table_run track_probe find_probe drop_probe reap_slots ops tab of (matches, tab') \<Rightarrow>
     count_seq seq matches + (if inflight_pending tab' seq = None then 0 else 1) \<le>
       count_seq seq (concat (map op_tracks ops)) + (if inflight_pending tab seq = None then 0 else 1) \<and>
     set matches \<subseteq> set (concat (map op_tracks ops)) \<union>
       {(ttl, s, sent) |ttl s sent. inflight_pending tab s = Some (ttl, sent)}"
  using inflight.run_at_most_once [of seq ops tab] inflight.run_sound [of ops tab]
  unfolding inflight.entries_def by (auto simp: case_prod_beta)

lemma checksum_big_endian: "icmp_checksum_ok (echo_request False False gk_id seq)"
  unfolding echo_request_checksum_iff
  using fast_icmp_checksum_mod [of gk_id seq] by (simp add: htons_def add.commute add.left_commute)

lemma checksum_little_endian: "\<not> icmp_checksum_ok (echo_request True False gk_id seq)"
proof -
  let ?c = "fast_icmp_checksum (htons True gk_id) (htons True seq)"
  let ?i = "unat gk_id" and ?s = "unat seq"
  have "(unat ?c + 2048 + unat (htons True gk_id) + unat (htons True seq)) mod 65535 = 0"
    by (rule fast_icmp_checksum_mod)
  moreover have "(unat ?c + 2048 + unat (htons True gk_id) + unat (htons True seq)) mod 65535 =
      (unat ?c + 2048 + 256 * ?i + 256 * ?s) mod 65535"
    by (intro mod_add_cong swap_mod refl)
  ultimately have "65535 dvd unat ?c + 2048 + 256 * ?i + 256 * ?s" by (simp only: dvd_eq_mod_eq_0)
  then have "65535 dvd 256 * (unat ?c + 2048 + 256 * ?i + 256 * ?s)" by (rule dvd_mult)
  then have "256 * (unat ?c + 2048 + 256 * ?i + 256 * ?s) mod 65535 = 0" by (simp only: dvd_eq_mod_eq_0)
  then have "(256 * unat ?c + 8 + ?i + ?s + (8 + ?i + ?s) * 65535) mod 65535 = 0"
    by (simp add: algebra_simps)
  then have "(256 * unat ?c + 8 + ?i + ?s) mod 65535 = 0" by (simp only: mod_mult_self1)
  moreover have "(unat (htons True ?c) + 8 + ?i + ?s) mod 65535 = (256 * unat ?c + 8 + ?i + ?s) mod 65535"
    by (intro mod_add_cong swap_mod refl)
  ultimately have "(unat (htons True ?c) + 8 + ?i + ?s) mod 65535 = 0" by simp
  then have "(2048 + unat (htons True ?c) + ?i + ?s) mod 65535 = 2040"
    using mod_add_left_eq [of "unat (htons True ?c) + 8 + ?i + ?s" 65535 2040] by (simp add: add.commute add.left_commute)
  then show ?thesis unfolding echo_request_checksum_iff by simp
qed

text \<open>
  C25: An IPv4 echo request has a correct Internet checksum (RFC 1071: the receiver's one's
  complement sum over the packet is all ones) on big-endian hosts, for every identifier and
  sequence number, and on little-endian hosts for none: there the constant 0x0800 for type and
  code is added in the wrong byte order, and the receiver's sum is off by 0x07F8.
\<close>

theorem echo_checksum_byte_order: "icmp_checksum_ok (echo_request le False gk_id seq) \<longleftrightarrow> \<not> le"
  using checksum_big_endian checksum_little_endian by (cases le) auto

text \<open>
  C12: No packet makes the parsers read outside the bytes that were received: whatever the
  buffers contain, processing a batch of packets completes.  The walk over IPv6 extension
  headers ends for every packet.
\<close>

theorem parsers_stay_in_bounds:
  "parse_ipv4 buf \<noteq> None \<and> parse_ipv6 buf \<noteq> None \<and> parse_ipv6_original_icmp6 buf off \<noteq> None \<and>
   process_batch is_v6 now_us stale pkts (obs, gk) \<noteq> None"
  by (intro conjI parse_ipv4_safe parse_ipv6_safe parse_ipv6_original_icmp6_safe process_batch_safe)

text \<open>
  C21: IPv4 answers to our probes are recognised.  Behind any valid outer header, with or
  without options, an echo reply yields REPLY with its identifier and sequence number, and an
  ICMP error that quotes the probe behind any inner header yields EXCEEDED (type 11) or UNREACH
  (type 3) with the probe's identifier and sequence number.
\<close>

theorem ipv4_answers_recognised:
  assumes "ipv4_header hdr" "ipv4_header quoted_hdr" "ty = 11 \<or> ty = 3" "length rest = 7"
  shows "parse_ipv4 (hdr @ [0, 0, c1, c2, hi_byte i, lo_byte i, hi_byte s, lo_byte s] @ post) =
           Some (Some (i, s, NSR_OBS_REPLY)) \<and>
         parse_ipv4 (hdr @ (ty # rest) @ quoted_hdr @ echo_request le False i s @ post) =
           Some (Some (i, s, if ty = 3 then NSR_OBS_UNREACH else NSR_OBS_EXCEEDED))"
proof
  show "parse_ipv4 (hdr @ [0, 0, c1, c2, hi_byte i, lo_byte i, hi_byte s, lo_byte s] @ post) =
      Some (Some (i, s, NSR_OBS_REPLY))"
    by (subst parse_ipv4_step [OF assms(1) refl]) simp_all
  let ?msg = "(ty # rest) @ quoted_hdr @ echo_request le False i s @ post"
  note q = ipv4_headerD [OF assms(2)]
  have q20: "20 \<le> length quoted_hdr" using assms(2) by (simp add: ipv4_header_def)
  have m0: "?msg ! 0 = ty" by simp
  have m8: "?msg ! 8 = quoted_hdr ! 0" using assms(4) q by (simp add: nth_append)
  have mk: "?msg ! (8 + length quoted_hdr + k) = echo_request le False i s ! k" if "k < 8" for k
    using that assms(4) by (simp add: nth_append)
  have ty: "ty \<noteq> 0" using assms(3) by auto
  show "parse_ipv4 (hdr @ ?msg) = Some (Some (i, s, if ty = 3 then NSR_OBS_UNREACH else NSR_OBS_EXCEEDED))"
    using assms(3,4) q q20 mk [of 4] mk [of 5] mk [of 6] mk [of 7] ty echo_request_nth [of le False i s]
    by (subst parse_ipv4_step [OF assms(1) refl]) (simp_all only: m0, auto simp: m8 Let_def simp del: append_Cons)
qed

theorem ipv4_answers_recognised_witness:
  "parse_ipv4 ((0x46 # replicate 23 0) @ [0, 0, 1, 2, hi_byte 0x1234, lo_byte 0x1234, hi_byte 7, lo_byte 7] @ []) =
     Some (Some (0x1234, 7, NSR_OBS_REPLY)) \<and>
   parse_ipv4 ((0x46 # replicate 23 0) @ (11 # replicate 7 0) @ (0x45 # replicate 19 0) @
       echo_request True False 0x1234 7 @ []) = Some (Some (0x1234, 7, if (11 :: u8) = 3 then NSR_OBS_UNREACH else NSR_OBS_EXCEEDED))"
proof -
  have "ipv4_header (0x46 # replicate 23 0)" "ipv4_header (0x45 # replicate 19 0)" by code_simp+
  moreover have "(11 :: u8) = 11 \<or> (11 :: u8) = 3" "length (replicate 7 (0 :: u8)) = 7" by simp_all
  ultimately show ?thesis by (rule ipv4_answers_recognised)
qed

text \<open>
  C22: An ICMPv6 error that quotes our echo request is recognised through any chain of
  hop-by-hop, routing, destination, fragment and authentication headers, of any lengths, as
  EXCEEDED or UNREACH with the probe's identifier and sequence number.
\<close>

theorem ipv6_answers_recognised:
  assumes "ty = 3 \<or> ty = 1" "length rest = 7" "length ip6 = 40" "ip6 ! 6 = chain_type cs"
    and "\<forall>c \<in> set cs. ext_ok c"
    and "length (encode_chain cs) + 8 \<le> unat (u16_of_bytes (ip6 ! 4) (ip6 ! 5))"
  shows "parse_ipv6 ((ty # rest) @ ip6 @ encode_chain cs @ echo_request le True i s @ post) =
     Some (Some (i, s, if ty = 1 then NSR_OBS_UNREACH else NSR_OBS_EXCEEDED))"
proof -
  let ?pre = "(ty # rest) @ ip6"
  let ?buf = "?pre @ encode_chain cs @ echo_request le True i s @ post"
  let ?stop = "min (8 + 40 + unat (u16_of_bytes (ip6 ! 4) (ip6 ! 5))) (length ?buf)"
  have len: "length ?pre = 48" using assms by simp
  have ip6: "?buf ! (8 + k) = ip6 ! k" if "k < 40" for k
    using that assms by (simp add: nth_append)
  have g: "get8 ?buf (8 + 6) = Some (chain_type cs)" "get16 ?buf (8 + 4) = Some (u16_of_bytes (ip6 ! 4) (ip6 ! 5))"
    using ip6 [of 4] ip6 [of 5] ip6 [of 6] assms by (simp_all del: append_Cons)
  have "walk_ext ?buf ?stop (chain_type cs) (length ?pre) = Some (Some (i, s))"
    using assms len by (intro walk_ext_chain [OF assms(5)]) (simp_all del: append_Cons)
  then have "parse_ipv6_original_icmp6 ?buf 8 = Some (Some (i, s))"
    unfolding len using g len by (simp add: parse_ipv6_original_icmp6_def del: append_Cons)
  moreover have "get8 ?buf 0 = Some ty" "\<not> length ?buf < 8" "ty \<noteq> 129" using assms by (auto simp: get8_def)
  ultimately have "parse_ipv6 ?buf = Some (Some (i, s, if ty = 1 then NSR_OBS_UNREACH else NSR_OBS_EXCEEDED))"
    using assms(1) by (simp add: parse_ipv6_def del: append_Cons)
  then show ?thesis by simp
qed

theorem ipv6_answers_recognised_witness:
  "parse_ipv6 ((1 # replicate 7 0) @ ([0x60, 0, 0, 0, 0, 24, 0, 3] @ replicate 32 0) @
      encode_chain [(0, 0, replicate 6 1), (44, 0, replicate 6 2)] @ echo_request True True 0x1234 7 @ []) =
     Some (Some (0x1234, 7, if (1 :: u8) = 1 then NSR_OBS_UNREACH else NSR_OBS_EXCEEDED))"
proof (rule ipv6_answers_recognised)
  show "(1 :: u8) = 3 \<or> (1 :: u8) = 1" by simp
  show "length (replicate 7 (0 :: u8)) = 7" by simp
  show "length ([0x60, 0, 0, 0, 0, 24, 0, 3] @ replicate 32 (0 :: u8)) = 40" by simp
  show "([0x60, 0, 0, 0, 0, 24, 0, 3] @ replicate 32 0) ! 6 = chain_type [(0, 0, replicate 6 1), (44, 0, replicate 6 2)]"
    by simp
  show "\<forall>c \<in> set [(0, 0, replicate 6 1), (44, 0, replicate 6 2)]. ext_ok c" by simp
  show "length (encode_chain [(0, 0, replicate 6 1), (44, 0, replicate 6 2)]) + 8
      \<le> unat (u16_of_bytes (([0x60, 0, 0, 0, 0, 24, 0, 3] @ replicate 32 0) ! 4) (([0x60, 0, 0, 0, 0, 24, 0, 3] @ replicate 32 0) ! 5))"
    by (simp add: unat_u16_of_bytes)
qed

text \<open>
  C8: What an iteration of the gatekeeper reports.  Every observation it appends to the ring
  answers a probe that was in flight after the send phase, with that probe's TTL and the time
  elapsed since it was sent; no probe is reported twice, and reported probes are no longer in
  flight.
\<close>

theorem gatekeeper_reports_once:
  assumes "nsr_gatekeeper_iteration le is_v6 now sendmm stale received (l2g, g2l, gk) = Some (l2g', g2l', gk')"
    and "ring_inv g2l" "\<forall>(now, pkts) \<in> set received. length pkts \<le> 1024"
  shows "\<exists>new. ring_contents g2l' = ring_contents g2l @ new \<and> distinct (map ob_seq new) \<and>
     (let intents = fst (nsr_shm_ring_pop_batch l2g BATCH_SIZE);
          gk1 = send_intents now (sendmm (send_packets le is_v6 (g_gk_id gk) intents)) intents (reap_stale_inflight now gk)
      in (\<forall>x \<in> set new. \<exists>(now_us, pkts) \<in> set received. answers is_v6 now_us gk1 x) \<and>
         gk_pending gk' = without (ob_seq ` set new) (gk_pending gk1))"
proof -
  obtain intents l2g1 where pop: "nsr_shm_ring_pop_batch l2g BATCH_SIZE = (intents, l2g1)"
    by (cases "nsr_shm_ring_pop_batch l2g BATCH_SIZE")
  have gid: "g_gk_id (reap_stale_inflight now gk) = g_gk_id gk" by (simp add: reap_stale_inflight_def)
  let ?gk1 = "send_intents now (sendmm (send_packets le is_v6 (g_gk_id gk) intents)) intents (reap_stale_inflight now gk)"
  have "receive_loop is_v6 stale received g2l ?gk1 = Some (g2l', gk')"
    using assms(1) by (auto simp: nsr_gatekeeper_iteration_def pop gid Let_def split: Option.bind_splits)
  from receive_loop_result [OF this assms(2,3)] obtain new
    where "ring_contents g2l' = ring_contents g2l @ new" "batch_result is_v6 (fst ` set received) ?gk1 new gk'" by blast
  then show ?thesis by (auto simp: batch_result_def pop Let_def split_beta intro!: exI [of _ new])
qed

definition ex_gk :: gatekeeper where
  "ex_gk = \<lparr>g_inflight = (\<lambda>_. \<lparr>if_seq = 0, if_ttl = 0, if_sent_us = 0, if_active = False\<rparr>)
              (7 := \<lparr>if_seq = 7, if_ttl = 3, if_sent_us = 100, if_active = True\<rparr>),
            g_gk_id = 0x1234, last_reap = 0\<rparr>"

definition ex_received :: "(u64 \<times> packet list) list" where
  "ex_received = [(900, [((0x45 # replicate 19 0) @ [0, 0, 1, 2, 0x12, 0x34, 0, 7], [192, 0, 2, 1])])]"

lemma ex_receive_loop:
  "receive_loop False (\<lambda>_. []) ex_received g2l ex_gk =
     (case nsr_shm_ring_push_batch g2l
        [\<lparr>ob_ttl = 3, ob_seq = 7, ob_rtt_us = 800, ob_type = NSR_OBS_REPLY, ob_addr_bin = [192, 0, 2, 1], ob_is_v6 = False\<rparr>] of
        (True, g2l') \<Rightarrow> Some (g2l', ex_gk\<lparr>g_inflight := (g_inflight ex_gk)(7 := (g_inflight ex_gk 7)\<lparr>if_active := False\<rparr>)\<rparr>)
      | (False, _) \<Rightarrow> None)"
proof -
  have "parse_ipv4 ((0x45 # replicate 19 0) @ [0, 0, 1, 2, 0x12, 0x34, 0, 7]) = Some (Some (0x1234, 7, NSR_OBS_REPLY))"
    by code_simp
  moreover have "find_probe 7 (g_inflight ex_gk) =
      (Some (3, 100), (g_inflight ex_gk)(7 := (g_inflight ex_gk 7)\<lparr>if_active := False\<rparr>))"
    by (simp add: find_probe_def ex_gk_def Let_def NSR_GK_MAX_INFLIGHT_def)
  ultimately show ?thesis
    by (simp add: ex_received_def process_packet_def ex_gk_def del: append_Cons split: prod.splits bool.splits)
qed

theorem gatekeeper_reports_once_witness:
  "\<exists>l2g' g2l' gk'.
     nsr_gatekeeper_iteration True False 500 (\<lambda>_. 0) (\<lambda>_. []) ex_received
       (ring_zero (\<lambda>_. undefined), ring_zero (\<lambda>_. undefined), ex_gk) = Some (l2g', g2l', gk') \<and>
     map ob_rtt_us (ring_contents g2l') = [800] \<and> distinct (map ob_seq (ring_contents g2l')) \<and> gk_pending gk' 7 = None"
proof -
  let ?z = "ring_zero (\<lambda>_. undefined) :: nsr_observation nsr_shm_ring"
  let ?x = "\<lparr>ob_ttl = 3, ob_seq = 7, ob_rtt_us = 800, ob_type = NSR_OBS_REPLY, ob_addr_bin = [192, 0, 2, 1], ob_is_v6 = False\<rparr>"
  let ?l = "ring_zero (\<lambda>_. undefined) :: nsr_intent nsr_shm_ring"
  obtain g where push: "nsr_shm_ring_push_batch ?z [?x] = (True, g)" and g: "ring_contents g = [?x]"
    using ring.push_batch_room [of ?z "[?x]"] by (cases "nsr_shm_ring_push_batch ?z [?x]") auto
  have pop: "nsr_shm_ring_pop_batch ?l BATCH_SIZE = ([], ?l)"
    by (simp add: nsr_shm_ring_pop_batch_def ring_zero_def ring_mask_def)
  have gk: "send_intents 500 n [] (reap_stale_inflight 500 ex_gk) = ex_gk" for n
    by (simp add: send_intents_def drop_unsent_def track_intents_def reap_stale_inflight_def ex_gk_def)
  let ?gk' = "ex_gk\<lparr>g_inflight := (g_inflight ex_gk)(7 := (g_inflight ex_gk 7)\<lparr>if_active := False\<rparr>)\<rparr>"
  have it: "nsr_gatekeeper_iteration True False 500 (\<lambda>_. 0) (\<lambda>_. []) ex_received (?l, ?z, ex_gk) = Some (?l, g, ?gk')"
    unfolding nsr_gatekeeper_iteration_def by (simp add: pop gk ex_receive_loop push)
  have small: "\<forall>(now, pkts) \<in> set ex_received. length pkts \<le> 1024" by (simp add: ex_received_def)
  from gatekeeper_reports_once [OF it ring_zero(1) small] obtain new
    where "ring_contents g = new" "distinct (map ob_seq new)" "gk_pending ?gk' = without (ob_seq ` set new) (gk_pending ex_gk)"
    by (auto simp: pop gk Let_def)
  with it g show ?thesis by (intro exI [of _ ?l] exI [of _ g] exI [of _ ?gk']) (auto simp: without_def)
qed

text \<open>
  C19: While the observation ring has room for one observation per received packet, an
  iteration of the gatekeeper returns, whatever the packets contain.
\<close>

theorem gatekeeper_iteration_progress:
  assumes "ring_inv g2l" "\<forall>(now, pkts) \<in> set received. length pkts \<le> 1024"
    and "ring_used g2l + (\<Sum>(now, pkts) \<leftarrow> received. length pkts) \<le> 131070"
  shows "\<exists>l2g' g2l' gk'. nsr_gatekeeper_iteration le is_v6 now sendmm stale received (l2g, g2l, gk) = Some (l2g', g2l', gk')"
proof -
  obtain intents l2g' where pop: "nsr_shm_ring_pop_batch l2g BATCH_SIZE = (intents, l2g')"
    by (cases "nsr_shm_ring_pop_batch l2g BATCH_SIZE")
  let ?gk = "reap_stale_inflight now gk"
  obtain g2l' gk' where "receive_loop is_v6 stale received g2l
      (send_intents now (sendmm (send_packets le is_v6 (g_gk_id ?gk) intents)) intents ?gk) = Some (g2l', gk')"
    using receive_loop_progress [OF assms] by blast
  then show ?thesis by (simp add: nsr_gatekeeper_iteration_def pop Let_def)
qed

theorem gatekeeper_iteration_progress_witness:
  "\<exists>l2g' g2l' gk'. nsr_gatekeeper_iteration True False 500 (\<lambda>_. 0) (\<lambda>_. []) ex_received
     (ring_zero (\<lambda>_. undefined), ring_zero (\<lambda>_. undefined), ex_gk) = Some (l2g', g2l', gk')"
proof (rule gatekeeper_iteration_progress)
  show "ring_inv (ring_zero (\<lambda>_. undefined) :: nsr_observation nsr_shm_ring)" by simp
  show "\<forall>(now, pkts) \<in> set ex_received. length pkts \<le> 1024" by (simp add: ex_received_def)
  show "ring_used (ring_zero (\<lambda>_. undefined) :: nsr_observation nsr_shm_ring) +
      (\<Sum>(now, pkts) \<leftarrow> ex_received. length pkts) \<le> 131070" by (simp add: ex_received_def)
qed

end
