(* ===== verification/Tracer.thy ===== *)
theory Tracer
  imports Gatekeeper
begin

text \<open>
  The three earlier designs of the tracer that the repository keeps beside the current one: one
  process with probe slots in abstract memory (\<open>src/io/tracer.c\<close>), a supervised worker on shared
  state (\<open>src/io/supervisor.c\<close>), and broker, sender and receiver connected by pipes
  (\<open>src/io/singular_*.c\<close>).  LibTTAK and the system calls are arguments.
\<close>

section \<open>Checksum\<close>

text \<open>
  \<open>nsr_checksum\<close> adds the 16-bit words as they are in the memory of a little-endian (\<open>True\<close>) or
  big-endian host, a last odd byte with a zero behind it.
\<close>

definition host_word :: "bool \<Rightarrow> u8 \<Rightarrow> u8 \<Rightarrow> u16" where
  "host_word le a b = (if le then u16_of_bytes b a else u16_of_bytes a b)"

definition checksum_add :: "u32 \<Rightarrow> u16 \<Rightarrow> u32" where
  "checksum_add acc w = (let acc = acc + ucast w in if acc > 0xFFFF then acc - 0xFFFF else acc)"

fun checksum_loop :: "bool \<Rightarrow> u32 \<Rightarrow> u8 list \<Rightarrow> u32" where
  "checksum_loop le acc (a # b # bs) = checksum_loop le (checksum_add acc (host_word le a b)) bs"
| "checksum_loop le acc [a] = checksum_add acc (host_word le a 0)"
| "checksum_loop le acc [] = acc"

definition nsr_checksum :: "bool \<Rightarrow> u8 list \<Rightarrow> u16" where
  "nsr_checksum le bytes = ucast (NOT (checksum_loop le 0xFFFF bytes))"

section \<open>Probe slots\<close>

datatype nsr_probe_state = NSR_PROBE_IDLE | NSR_PROBE_SENT | NSR_PROBE_RECEIVED | NSR_PROBE_TIMEOUT

record nsr_probe_data =
  pd_generation :: u32
  pd_seq :: u16
  pd_ttl :: u8
  pd_sent_at :: u64
  pd_state :: nsr_probe_state
  pd_rtt :: u64
  pd_last_ip :: string

record 'm nsr_probe_handle =
  ph_abs_mem :: 'm
  ph_generation :: u32

record 'm nsr_context =
  cx_hops :: "'m nsr_probe_handle list"
  cx_sent_count :: u64
  cx_running :: bool
  cx_start_time :: u64

text \<open>Abstract memory of LibTTAK: an allocated block, reading and writing it.\<close>

record 'm abstract_mem =
  am_alloc :: "nat \<Rightarrow> 'm"
  am_read :: "'m \<Rightarrow> nsr_probe_data"
  am_write :: "'m \<Rightarrow> nsr_probe_data \<Rightarrow> 'm"

definition probe_init :: "nat \<Rightarrow> nsr_probe_data" where
  "probe_init i = \<lparr>pd_generation = 1, pd_seq = of_nat i, pd_ttl = 0, pd_sent_at = 0, pd_state = NSR_PROBE_IDLE, pd_rtt = 0, pd_last_ip = []\<rparr>"

text \<open>
  \<open>None\<close>: no owner, \<open>TTAK_ERR_NOMEM\<close>.  The context comes from the caller; its statistics are not set,
  so the count of probes goes on from whatever is there.
\<close>

definition nsr_init :: "'m abstract_mem \<Rightarrow> bool \<Rightarrow> u64 \<Rightarrow> 'm nsr_context \<Rightarrow> 'm nsr_context option" where
  "nsr_init am owner now cx =
     (if \<not> owner then None
      else Some (cx\<lparr>cx_hops := map (\<lambda>i. \<lparr>ph_abs_mem = am_write am (am_alloc am i) (probe_init i), ph_generation = 1\<rparr>) [0..<NSR_MAX_HOPS],
                    cx_running := True, cx_start_time := now\<rparr>))"

text \<open>
  A tick of one TTL; \<open>None\<close> is an index outside the table.  The packet that is built is not sent:
  the call is commented out.
\<close>

definition nsr_logic_tick :: "'m abstract_mem \<Rightarrow> u64 \<Rightarrow> u8 \<Rightarrow> 'm nsr_context \<Rightarrow> 'm nsr_context option" where
  "nsr_logic_tick am now ttl cx =
     (if unat ttl \<ge> length (cx_hops cx) then None
      else let h = cx_hops cx ! unat ttl; d = am_read am (ph_abs_mem h)
           in if pd_state d \<noteq> NSR_PROBE_SENT
              then let d = d\<lparr>pd_generation := pd_generation d + 1, pd_state := NSR_PROBE_SENT, pd_sent_at := now\<rparr>
                   in Some (cx\<lparr>cx_hops := (cx_hops cx)[unat ttl := h\<lparr>ph_abs_mem := am_write am (ph_abs_mem h) d\<rparr>],
                               cx_sent_count := cx_sent_count cx + 1\<rparr>)
              else Some cx)"

definition nsr_logic_on_timeout :: "'m abstract_mem \<Rightarrow> nat \<Rightarrow> 'm nsr_context \<Rightarrow> 'm nsr_context" where
  "nsr_logic_on_timeout am i cx =
     (let h = cx_hops cx ! i; d = am_read am (ph_abs_mem h)
      in if pd_generation d = ph_generation h \<and> pd_state d = NSR_PROBE_SENT
         then cx\<lparr>cx_hops := (cx_hops cx)[i := h\<lparr>ph_abs_mem := am_write am (ph_abs_mem h) (d\<lparr>pd_state := NSR_PROBE_TIMEOUT\<rparr>)\<rparr>]\<rparr>
         else cx)"

text \<open>Cleanup retires the memory of every hop.\<close>

definition nsr_cleanup :: "'m nsr_context \<Rightarrow> 'm list" where
  "nsr_cleanup cx = map (\<lambda>i. ph_abs_mem (cx_hops cx ! i)) [0..<NSR_MAX_HOPS]"

section \<open>Supervised worker\<close>

record nsr_hop_record =
  hr_generation :: u32
  hr_ttl :: u8
  hr_seq :: u16
  hr_state :: u32
  hr_sent_at_us :: u64
  hr_rtt_us :: u64

record nsr_shared_state =
  sh_magic :: u32
  sh_version :: u32
  sh_global_generation :: u32
  sh_hops :: "nsr_hop_record list"

definition hop_record_zero :: nsr_hop_record where
  "hop_record_zero = \<lparr>hr_generation = 0, hr_ttl = 0, hr_seq = 0, hr_state = 0, hr_sent_at_us = 0, hr_rtt_us = 0\<rparr>"

text \<open>The shared state as \<open>nsr_supervisor_main\<close> prepares it.\<close>

definition shared_init :: nsr_shared_state where
  "shared_init = \<lparr>sh_magic = 0x52534E21, sh_version = 1, sh_global_generation = 0, sh_hops = replicate NSR_MAX_HOPS hop_record_zero\<rparr>"

text \<open>\<open>mapped\<close>: whether \<open>ttak_shm_map\<close> succeeds.\<close>

definition nsr_state_get_hop :: "bool \<Rightarrow> u8 \<Rightarrow> nsr_shared_state \<Rightarrow> nsr_hop_record option" where
  "nsr_state_get_hop mapped ttl sh =
     (if unat ttl \<ge> NSR_MAX_HOPS then None else if \<not> mapped then None else Some (sh_hops sh ! unat ttl))"

definition nsr_state_update_hop :: "bool \<Rightarrow> u8 \<Rightarrow> nsr_hop_record \<Rightarrow> nsr_shared_state \<Rightarrow> bool \<times> nsr_shared_state" where
  "nsr_state_update_hop mapped ttl hop sh =
     (if unat ttl \<ge> NSR_MAX_HOPS then (False, sh)
      else if \<not> mapped then (False, sh)
      else (True, sh\<lparr>sh_hops := (sh_hops sh)[unat ttl := hop], sh_global_generation := sh_global_generation sh + 1\<rparr>))"

definition worker_hop :: "bool \<Rightarrow> u64 \<Rightarrow> u8 \<Rightarrow> nsr_shared_state \<Rightarrow> nsr_shared_state" where
  "worker_hop mapped now ttl sh =
     (case nsr_state_get_hop mapped ttl sh of
        None \<Rightarrow> sh
      | Some hop \<Rightarrow>
          if hr_state hop \<noteq> 1
          then snd (nsr_state_update_hop mapped ttl
                 (hop\<lparr>hr_generation := hr_generation hop + 1, hr_state := 1, hr_sent_at_us := now\<rparr>) sh)
          else sh)"

text \<open>One pass of the worker over TTL 1 to 15; \<open>clock\<close> is read once per TTL.\<close>

definition worker_pass :: "bool \<Rightarrow> (nat \<Rightarrow> u64) \<Rightarrow> nsr_shared_state \<Rightarrow> nsr_shared_state" where
  "worker_pass mapped clock sh = fold (\<lambda>ttl. worker_hop mapped (clock ttl) (of_nat ttl)) [1..<16] sh"

section \<open>Broker, sender and receiver\<close>

record nsr_msg =
  mg_magic :: u64
  mg_ttl :: u8
  mg_seq :: u16
  mg_type :: u8
  mg_ts_us :: u64

definition NSR_MSG_MAGIC :: u64 where
  "NSR_MSG_MAGIC = 0x53494E47554C4152"

text \<open>
  The command of the broker.  C leaves open whether the initializer of \<open>ttl\<close> sees \<open>seq\<close> before or
  after \<open>seq++\<close>: \<open>after\<close>.
\<close>

definition broker_command :: "bool \<Rightarrow> u64 \<Rightarrow> u16 \<Rightarrow> nsr_msg \<times> u16" where
  "broker_command after now seq =
     (\<lparr>mg_magic = NSR_MSG_MAGIC, mg_ttl = ucast ((if after then seq + 1 else seq) mod 30 + 1), mg_seq = seq, mg_type = 0, mg_ts_us = now\<rparr>, seq + 1)"

text \<open>What the broker prints for an event: round-trip time, sequence number, TTL.\<close>

definition broker_event :: "u64 \<Rightarrow> nsr_msg \<Rightarrow> (u64 \<times> u16 \<times> u8) option" where
  "broker_event now event =
     (if mg_magic event = NSR_MSG_MAGIC \<and> mg_type event = 1 then Some (now - mg_ts_us event, mg_seq event, mg_ttl event) else None)"

text \<open>
  The sender: the TTL it sets and the bytes it sends to the fixed address.  \<open>cksum\<close> is the checksum
  function of LibTTAK on the header with an empty checksum field.
\<close>

definition sender_step :: "bool \<Rightarrow> (u8 list \<Rightarrow> u16) \<Rightarrow> u16 \<Rightarrow> nsr_msg \<Rightarrow> (u8 \<times> u8 list) option" where
  "sender_step le cksum ident cmd =
     (if mg_magic cmd = NSR_MSG_MAGIC \<and> mg_type cmd = 0
      then let body = mem_u16 le (htons le ident) @ mem_u16 le (htons le (mg_seq cmd))
           in Some (mg_ttl cmd, [8, 0] @ mem_u16 le (cksum ([8, 0, 0, 0] @ body)) @ body)
      else None)"

text \<open>
  The receiver reads the packet in a buffer of 2048 bytes, of which only the first are new.  It does
  not look at the length.
\<close>

definition receiver_seq :: "u8 list \<Rightarrow> u16 option" where
  "receiver_seq buf =
     (let icmp = 4 * unat (buf ! 0 AND 0x0F)
      in if buf ! icmp = 0 then Some (u16_of_bytes (buf ! (icmp + 6)) (buf ! (icmp + 7)))
         else if buf ! icmp = 11
         then let ip = icmp + 8; inner = ip + 4 * unat (buf ! ip AND 0x0F)
              in Some (u16_of_bytes (buf ! (inner + 6)) (buf ! (inner + 7)))
         else None)"

definition receiver_step :: "u64 \<Rightarrow> u8 list \<Rightarrow> u8 list \<Rightarrow> nsr_msg option" where
  "receiver_step now old pkt =
     (if pkt = [] then None
      else map_option (\<lambda>seq. \<lparr>mg_magic = NSR_MSG_MAGIC, mg_ttl = 0, mg_seq = seq, mg_type = 1, mg_ts_us = now\<rparr>)
             (receiver_seq (pkt @ drop (length pkt) old)))"

section \<open>The checksum is valid\<close>

definition host_words :: "bool \<Rightarrow> u8 list \<Rightarrow> u16 list" where
  "host_words le bs = map (htons le) (be_words bs)"

lemma host_word_htons: "host_word le a b = htons le (u16_of_bytes a b)"
  by (simp add: host_word_def htons_def)

lemma checksum_add_props:
  assumes "1 \<le> unat acc" "unat acc \<le> 65535"
  shows "1 \<le> unat (checksum_add acc w)" "unat (checksum_add acc w) \<le> 65535"
    "unat (checksum_add acc w) mod 65535 = (unat acc + unat w) mod 65535"
proof -
  have w: "unat w \<le> 65535" using unat_u16_less [of w] by simp
  then have s: "unat (acc + ucast w :: u32) = unat acc + unat w" using assms by (simp add: unat_word_ariths unat_ucast)
  have d: "unat (acc + ucast w - 0xFFFF :: u32) = unat acc + unat w - 65535" if "unat acc + unat w > 65535"
    using that s by (simp add: unat_sub word_le_nat_alt)
  show "1 \<le> unat (checksum_add acc w)" "unat (checksum_add acc w) \<le> 65535"
    "unat (checksum_add acc w) mod 65535 = (unat acc + unat w) mod 65535"
    using assms w s d by (auto simp: checksum_add_def Let_def word_less_nat_alt le_mod_geq)
qed

lemma checksum_loop_props:
  assumes "1 \<le> unat acc" "unat acc \<le> 65535"
  shows "1 \<le> unat (checksum_loop le acc bs) \<and> unat (checksum_loop le acc bs) \<le> 65535 \<and>
    unat (checksum_loop le acc bs) mod 65535 = (unat acc + (\<Sum>w \<leftarrow> host_words le bs. unat w)) mod 65535"
  using assms
proof (induction le acc bs rule: checksum_loop.induct)
  case (1 le acc a b bs)
  note p = checksum_add_props [OF 1(2,3), of "host_word le a b"]
  have "unat (checksum_loop le acc (a # b # bs)) mod 65535 =
      (unat (checksum_add acc (host_word le a b)) + (\<Sum>w \<leftarrow> host_words le bs. unat w)) mod 65535" using 1(1) [OF p(1,2)] by simp
  also have "\<dots> = (unat acc + unat (host_word le a b) + (\<Sum>w \<leftarrow> host_words le bs. unat w)) mod 65535" using p(3) by (metis mod_add_left_eq)
  finally show ?case using 1(1) [OF p(1,2)] by (simp add: host_words_def host_word_htons add.assoc)
next
  case (2 le acc a)
  then show ?case using checksum_add_props [of acc "host_word le a 0"] by (simp add: host_words_def host_word_htons)
qed (simp add: host_words_def)

lemma unat_nsr_checksum:
  "\<exists>acc. unat (nsr_checksum le bs) + acc = 65535 \<and> acc mod 65535 = (\<Sum>w \<leftarrow> host_words le bs. unat w) mod 65535"
proof -
  let ?a = "checksum_loop le 0xFFFF bs"
  have a: "unat ?a \<le> 65535" "unat ?a mod 65535 = (65535 + (\<Sum>w \<leftarrow> host_words le bs. unat w)) mod 65535"
    using checksum_loop_props [of "0xFFFF" le bs] by simp_all
  have "ucast (NOT ?a) = NOT (ucast ?a :: u16)" by (rule bit_word_eqI) (auto simp: bit_simps)
  moreover have "unat (ucast ?a :: u16) = unat ?a" using a(1) by (simp add: unat_ucast)
  ultimately have "unat (nsr_checksum le bs) = 65535 - unat ?a" by (simp add: nsr_checksum_def unat_NOT_u16)
  then show ?thesis using a by (intro exI [of _ "unat ?a"]) simp
qed

lemma htons_sum_mod:
  "(\<Sum>w \<leftarrow> map (htons le) ws. unat w) mod 65535 = (if le then 256 else 1) * (\<Sum>w \<leftarrow> ws. unat w) mod 65535"
proof (induction ws)
  case (Cons w ws)
  have w: "unat (htons le w) mod 65535 = (if le then 256 else 1) * unat w mod 65535"
    using swap_mod [of w] by (cases le) (simp_all add: htons_def [of False])
  from mod_add_cong [OF w Cons] show ?case by (simp add: distrib_left)
qed simp

text \<open>
  C26: The checksum of the tracer is the Internet checksum on every host: when it is stored in the
  empty checksum field of an ICMP header with a type other than zero, the packet checks by RFC 1071,
  with either byte order and whether or not its length is even.
\<close>

theorem nsr_checksum_valid:
  assumes "a \<noteq> 0"
  shows "icmp_checksum_ok (a # b # mem_u16 le (nsr_checksum le (a # b # 0 # 0 # bs)) @ bs)"
proof -
  let ?c = "nsr_checksum le (a # b # 0 # 0 # bs)"
  let ?pkt = "a # b # mem_u16 le ?c @ bs" and ?w = "u16_of_bytes a b"
  let ?S = "unat (htons le ?w) + (\<Sum>w \<leftarrow> host_words le bs. unat w)"
  have pkt: "be_words ?pkt = ?w # htons le ?c # be_words bs"
    by (auto simp: mem_u16_def htons_def)
  have "htons le (htons le ?c) = ?c" by (simp add: htons_def)
  then have sum: "(\<Sum>w \<leftarrow> map (htons le) (be_words ?pkt). unat w) = unat ?c + ?S" unfolding pkt by (simp add: host_words_def)
  have "u16_of_bytes 0 0 = 0" "htons le 0 = 0" by (simp_all add: word_unat_eq_iff unat_u16_of_bytes htons_def lo_byte_def hi_byte_def)
  then obtain acc where acc: "unat ?c + acc = 65535" "acc mod 65535 = ?S mod 65535"
    using unat_nsr_checksum [of le "a # b # 0 # 0 # bs"] by (auto simp: host_words_def)
  have "(unat ?c + ?S) mod 65535 = (unat ?c + acc) mod 65535" using acc(2) by (metis mod_add_right_eq)
  then have host: "(\<Sum>w \<leftarrow> map (htons le) (be_words ?pkt). unat w) mod 65535 = 0" unfolding sum by (simp add: acc(1))
  have "(\<Sum>w \<leftarrow> be_words ?pkt. unat w) mod 65535 = 0"
  proof -
    have "be_words ?pkt = map (htons le) (map (htons le) (be_words ?pkt))" by (simp add: comp_def htons_def)
    then have "(\<Sum>w \<leftarrow> be_words ?pkt. unat w) mod 65535 =
        (if le then 256 else 1) * (\<Sum>w \<leftarrow> map (htons le) (be_words ?pkt). unat w) mod 65535" by (metis htons_sum_mod)
    also have "\<dots> = 0" using host by (metis mod_mult_right_eq mult_0_right mod_0)
    finally show ?thesis .
  qed
  moreover have "0 < (\<Sum>w \<leftarrow> be_words ?pkt. unat w)"
  proof -
    have "0 < unat a" using assms by (simp add: unat_gt_0)
    then have "0 < unat ?w" by (simp add: unat_u16_of_bytes)
    then show ?thesis unfolding pkt by simp
  qed
  ultimately show ?thesis by (simp add: icmp_checksum_ok_def rfc1071_eq_all_ones)
qed

theorem nsr_checksum_valid_witness: "icmp_checksum_ok (8 # 0 # mem_u16 True (nsr_checksum True (8 # 0 # 0 # 0 # [0, 1, 0, 7, 9])) @ [0, 1, 0, 7, 9])"
  by (rule nsr_checksum_valid) simp

section \<open>Probe slots never time out\<close>

text \<open>
  The handle of a slot keeps generation 1 while a tick raises the generation of its data, so the check
  of \<open>nsr_logic_on_timeout\<close> never holds for a probe that was sent, and no slot is ever used again.
  (\<open>nsr_logic_on_recv\<close> is declared but not in the repository.)
\<close>

inductive tracer_reach :: "'m abstract_mem \<Rightarrow> 'm nsr_context \<Rightarrow> bool" for am where
  init: "nsr_init am owner now cx0 = Some cx \<Longrightarrow> tracer_reach am cx"
| tick: "tracer_reach am cx \<Longrightarrow> nsr_logic_tick am now ttl cx = Some cx' \<Longrightarrow> tracer_reach am cx'"
| timeout: "tracer_reach am cx \<Longrightarrow> i < NSR_MAX_HOPS \<Longrightarrow> tracer_reach am (nsr_logic_on_timeout am i cx)"

definition slot_ok :: "'m abstract_mem \<Rightarrow> 'm nsr_probe_handle \<Rightarrow> bool" where
  "slot_ok am h \<longleftrightarrow> ph_generation h = 1 \<and>
     (let d = am_read am (ph_abs_mem h) in (pd_generation d = 1 \<and> pd_state d = NSR_PROBE_IDLE) \<or> (pd_generation d = 2 \<and> pd_state d = NSR_PROBE_SENT))"

lemma slot_ok_timeout:
  assumes "i < length (cx_hops cx)" "\<forall>h \<in> set (cx_hops cx). slot_ok am h"
  shows "nsr_logic_on_timeout am i cx = cx"
proof -
  have "slot_ok am (cx_hops cx ! i)" using assms by simp
  then show ?thesis by (auto simp: nsr_logic_on_timeout_def slot_ok_def Let_def)
qed

lemma slot_ok_tick:
  assumes "\<And>m d. am_read am (am_write am m d) = d" "nsr_logic_tick am now ttl cx = Some cx'" "\<forall>h \<in> set (cx_hops cx). slot_ok am h"
  shows "\<forall>h \<in> set (cx_hops cx'). slot_ok am h" "length (cx_hops cx') = length (cx_hops cx)"
proof -
  let ?h = "cx_hops cx ! unat ttl"
  let ?d = "am_read am (ph_abs_mem ?h)"
  let ?h' = "?h\<lparr>ph_abs_mem := am_write am (ph_abs_mem ?h) (?d\<lparr>pd_generation := pd_generation ?d + 1, pd_state := NSR_PROBE_SENT, pd_sent_at := now\<rparr>)\<rparr>"
  have lt: "unat ttl < length (cx_hops cx)" using assms(2) by (auto simp: nsr_logic_tick_def split: if_splits)
  then have ok: "slot_ok am ?h" using assms(3) by simp
  have "cx' = cx \<or> (pd_state ?d \<noteq> NSR_PROBE_SENT \<and> cx_hops cx' = (cx_hops cx)[unat ttl := ?h'])"
    using assms(2) lt by (auto simp: nsr_logic_tick_def Let_def split: if_splits)
  moreover have "slot_ok am ?h'" if "pd_state ?d \<noteq> NSR_PROBE_SENT" using ok that assms(1) by (simp add: slot_ok_def Let_def)
  ultimately show "\<forall>h \<in> set (cx_hops cx'). slot_ok am h" "length (cx_hops cx') = length (cx_hops cx)"
    using assms(3) set_update_subset_insert [of "cx_hops cx" "unat ttl" ?h'] by auto
qed

lemma tracer_slots:
  assumes "tracer_reach am cx" "\<And>m d. am_read am (am_write am m d) = d"
  shows "length (cx_hops cx) = NSR_MAX_HOPS \<and> (\<forall>h \<in> set (cx_hops cx). slot_ok am h)"
  using assms(1)
proof induction
  case (init owner now cx0 cx)
  then show ?case using assms(2) by (auto simp: nsr_init_def slot_ok_def probe_init_def Let_def split: if_splits)
next
  case (tick cx now ttl cx')
  then show ?case using slot_ok_tick [OF assms(2) tick(2)] by simp
next
  case (timeout cx i)
  then show ?case by (simp add: slot_ok_timeout)
qed

lemma timeout_never_fires:
  assumes "tracer_reach am cx" "\<And>m d. am_read am (am_write am m d) = d" "i < NSR_MAX_HOPS"
  shows "nsr_logic_on_timeout am i cx = cx"
  using tracer_slots [OF assms(1,2)] assms(3) by (intro slot_ok_timeout) simp_all

section \<open>The worker probes every hop once\<close>

lemma worker_hop_state:
  assumes "length (sh_hops sh) = NSR_MAX_HOPS" "unat ttl < NSR_MAX_HOPS"
  shows "length (sh_hops (worker_hop True now ttl sh)) = NSR_MAX_HOPS" "hr_state (sh_hops (worker_hop True now ttl sh) ! unat ttl) = 1"
    "j \<noteq> unat ttl \<Longrightarrow> sh_hops (worker_hop True now ttl sh) ! j = sh_hops sh ! j"
  using assms by (simp_all add: worker_hop_def nsr_state_get_hop_def nsr_state_update_hop_def)

lemma worker_fold:
  assumes "length (sh_hops sh) = NSR_MAX_HOPS" "\<forall>ttl \<in> set ts. ttl < NSR_MAX_HOPS"
  shows "length (sh_hops (fold (\<lambda>ttl. worker_hop True (clock ttl) (of_nat ttl)) ts sh)) = NSR_MAX_HOPS \<and>
    (\<forall>j. j \<in> set ts \<or> hr_state (sh_hops sh ! j) = 1 \<longrightarrow> hr_state (sh_hops (fold (\<lambda>ttl. worker_hop True (clock ttl) (of_nat ttl)) ts sh) ! j) = 1)"
  using assms
proof (induction ts arbitrary: sh)
  case (Cons t ts)
  have t: "unat (of_nat t :: u8) = t" using Cons.prems(2) by (intro unat_of_nat_small) (simp add: NSR_MAX_HOPS_def)
  let ?sh = "worker_hop True (clock t) (of_nat t) sh"
  have sh: "length (sh_hops ?sh) = NSR_MAX_HOPS" "hr_state (sh_hops ?sh ! t) = 1" "\<And>j. j \<noteq> t \<Longrightarrow> sh_hops ?sh ! j = sh_hops sh ! j"
    using worker_hop_state [of sh "of_nat t"] Cons.prems t by simp_all
  have "hr_state (sh_hops ?sh ! j) = 1" if "j = t \<or> hr_state (sh_hops sh ! j) = 1" for j using that sh(2,3) by (cases "j = t") auto
  then show ?case using Cons.IH [OF sh(1)] Cons.prems(2) by auto
qed simp

text \<open>After the first pass no pass changes anything: nothing ever resets the state of a hop.\<close>

lemma worker_pass_once:
  assumes "length (sh_hops sh) = NSR_MAX_HOPS"
  shows "worker_pass True clock' (worker_pass True clock sh) = worker_pass True clock sh"
proof -
  let ?sh = "worker_pass True clock sh"
  have st: "hr_state (sh_hops ?sh ! j) = 1" if "j \<in> set [1..<16]" for j
    using worker_fold [OF assms, of "[1..<16]" clock] that unfolding worker_pass_def NSR_MAX_HOPS_def by auto
  have "worker_hop True now (of_nat ttl) ?sh = ?sh" if "ttl \<in> set [1..<16]" for ttl now
  proof -
    have "unat (of_nat ttl :: u8) = ttl" using that by (intro unat_of_nat_small) auto
    then show ?thesis using that st by (simp add: worker_hop_def nsr_state_get_hop_def)
  qed
  then have "fold (\<lambda>ttl. worker_hop True (clock' ttl) (of_nat ttl)) ts ?sh = ?sh" if "set ts \<subseteq> set [1..<16]" for ts
    using that by (induction ts) auto
  then show ?thesis unfolding worker_pass_def [of True clock'] by blast
qed

section \<open>What the broker reports\<close>

lemma broker_ttl_range: "1 \<le> unat (mg_ttl (fst (broker_command after now seq))) \<and> unat (mg_ttl (fst (broker_command after now seq))) \<le> 30"
proof -
  have "unat (ucast (s mod 30 + 1) :: u8) = unat s mod 30 + 1" for s :: u16
  proof -
    have m: "unat (s mod 30) = unat s mod 30" by (simp add: unat_mod_distrib)
    have "unat s mod 30 < 30" by simp
    then have "unat (s mod 30 + 1) = unat s mod 30 + 1" using m by (simp add: unat_word_ariths)
    then show ?thesis using \<open>unat s mod 30 < 30\<close> by (simp add: unat_ucast)
  qed
  then show ?thesis by (simp add: broker_command_def)
qed

text \<open>
  The event carries the time of its reception, not of the probe, and no TTL: the round-trip time the
  broker prints is the delay of the pipe.
\<close>

lemma broker_reports_pipe_delay:
  assumes "receiver_step now old pkt = Some event"
  shows "\<exists>seq. broker_event now' event = Some (now' - now, seq, 0)"
  using assms by (auto simp: receiver_step_def broker_event_def split: if_splits)

text \<open>The receiver stays in its buffer.\<close>

lemma receiver_in_buffer:
  fixes b c :: u8
  shows "4 * unat (b AND 0x0F) + 8 + 4 * unat (c AND 0x0F) + 7 < 2048"
proof -
  have "unat (x AND 0x0F) \<le> 15" for x :: u8
    using word_and_le1 [of x "0x0F"] by (simp add: word_le_nat_alt)
  from this [of b] this [of c] show ?thesis by simp
qed

end
