(* ===== verification/Json_Encoder.thy ===== *)
theory Json_Encoder
  imports Complex_Main Nsr_Prelude "HOL-Library.Monad_Syntax"
begin

text \<open>
  The encoder half of \<open>src/json/json.c\<close>: a growing byte buffer and the functions that append
  JSON tokens to it.

  The buffer is the list of its \<open>cap\<close> bytes, \<open>None\<close> for a byte that was never written (the
  part that \<open>realloc\<close> adds); a null \<open>buf\<close> is the empty list.  A store outside the buffer or a
  read of an unwritten byte makes the whole operation \<open>None\<close>; the lemmas show that it never
  happens.  Allocation failure and sizes near \<open>2^64\<close> are not modelled.  \<open>double\<close> arguments of
  \<open>nsr_json_double\<close> are finite, given by their exact value, and not the negative zero.
\<close>

section \<open>The buffer\<close>

record nsr_json_buf =
  jb_buf :: "char option list"
  jb_len :: nat
  jb_cap :: nat

text \<open>\<open>while (new_cap < need) new_cap *= 2\<close>; the capacity is never 0 here.\<close>

function grow_cap :: "nat \<Rightarrow> nat \<Rightarrow> nat" where
  "grow_cap c n = (if 0 < c \<and> c < n then grow_cap (c * 2) n else c)"
  by pat_completeness auto
termination grow_cap
  by (relation "measure (\<lambda>(c, n). n - c)") auto

declare grow_cap.simps [simp del]

definition jb_grow :: "nsr_json_buf \<Rightarrow> nat \<Rightarrow> nsr_json_buf" where
  "jb_grow jb need =
     (if jb_len jb + need < jb_cap jb then jb
      else let new_cap = grow_cap (if jb_cap jb \<noteq> 0 then jb_cap jb * 2 else 256) (jb_len jb + need)
           in jb\<lparr>jb_buf := take new_cap (jb_buf jb) @ replicate (new_cap - length (jb_buf jb)) None, jb_cap := new_cap\<rparr>)"

definition jb_store :: "nat \<Rightarrow> char \<Rightarrow> nsr_json_buf \<Rightarrow> nsr_json_buf option" where
  "jb_store i c jb = (if i < length (jb_buf jb) then Some (jb\<lparr>jb_buf := (jb_buf jb)[i := Some c]\<rparr>) else None)"

fun jb_memcpy :: "nat \<Rightarrow> string \<Rightarrow> nsr_json_buf \<Rightarrow> nsr_json_buf option" where
  "jb_memcpy i [] jb = Some jb"
| "jb_memcpy i (c # s) jb = do { jb \<leftarrow> jb_store i c jb; jb_memcpy (Suc i) s jb }"

definition jb_append_raw :: "nsr_json_buf \<Rightarrow> string \<Rightarrow> nsr_json_buf option" where
  "jb_append_raw jb s =
     do {
       let jb = jb_grow jb (length s + 1);
       jb \<leftarrow> jb_memcpy (jb_len jb) s jb;
       let jb = jb\<lparr>jb_len := jb_len jb + length s\<rparr>;
       jb_store (jb_len jb) (CHR 0x00) jb }"

definition jb_append_char :: "nsr_json_buf \<Rightarrow> char \<Rightarrow> nsr_json_buf option" where
  "jb_append_char jb c =
     do {
       let jb = jb_grow jb 2;
       jb \<leftarrow> jb_store (jb_len jb) c jb;
       let jb = jb\<lparr>jb_len := jb_len jb + 1\<rparr>;
       jb_store (jb_len jb) (CHR 0x00) jb }"

definition needs_comma :: "nsr_json_buf \<Rightarrow> bool option" where
  "needs_comma jb =
     (if jb_len jb = 0 then Some False
      else do { c \<leftarrow> jb_buf jb ! (jb_len jb - 1); Some (c \<notin> {CHR 0x7B, CHR ''['', CHR '':'', CHR '',''}) })"

definition nsr_json_init :: "nsr_json_buf option" where
  "nsr_json_init = jb_store 0 (CHR 0x00) (jb_grow \<lparr>jb_buf = [], jb_len = 0, jb_cap = 0\<rparr> 1)"

definition nsr_json_reset :: "nsr_json_buf \<Rightarrow> nsr_json_buf option" where
  "nsr_json_reset jb =
     (let jb = jb\<lparr>jb_len := 0\<rparr> in if jb_buf jb \<noteq> [] then jb_store 0 (CHR 0x00) jb else Some jb)"

definition nsr_json_free :: "nsr_json_buf \<Rightarrow> nsr_json_buf" where
  "nsr_json_free jb = \<lparr>jb_buf = [], jb_len = 0, jb_cap = 0\<rparr>"

text \<open>The C string a reader sees: the bytes before the first NUL.\<close>

fun read_cstr :: "char option list \<Rightarrow> string option" where
  "read_cstr [] = None"
| "read_cstr (None # bs) = None"
| "read_cstr (Some c # bs) = (if c = CHR 0x00 then Some [] else map_option (Cons c) (read_cstr bs))"

definition nsr_json_cstr :: "nsr_json_buf \<Rightarrow> string option" where
  "nsr_json_cstr jb = (if jb_buf jb \<noteq> [] then read_cstr (jb_buf jb) else Some [])"

section \<open>Tokens\<close>

definition maybe_comma :: "nsr_json_buf \<Rightarrow> nsr_json_buf option" where
  "maybe_comma jb = do { b \<leftarrow> needs_comma jb; if b then jb_append_char jb (CHR '','') else Some jb }"

definition nsr_json_obj_start :: "nsr_json_buf \<Rightarrow> nsr_json_buf option" where
  "nsr_json_obj_start jb = do { jb \<leftarrow> maybe_comma jb; jb_append_char jb (CHR 0x7B) }"

definition nsr_json_obj_end :: "nsr_json_buf \<Rightarrow> nsr_json_buf option" where
  "nsr_json_obj_end jb = jb_append_char jb (CHR 0x7D)"

definition nsr_json_arr_start :: "nsr_json_buf \<Rightarrow> nsr_json_buf option" where
  "nsr_json_arr_start jb = do { jb \<leftarrow> maybe_comma jb; jb_append_char jb (CHR ''['') }"

definition nsr_json_arr_end :: "nsr_json_buf \<Rightarrow> nsr_json_buf option" where
  "nsr_json_arr_end jb = jb_append_char jb (CHR '']'')"

text \<open>\<open>snprintf\<close> with \<open>\u%04x\<close> of a byte below 0x20.\<close>

definition hex_digit :: "nat \<Rightarrow> char" where
  "hex_digit n = (if n < 10 then char_of (48 + n) else char_of (87 + n))"

definition u_escape :: "char \<Rightarrow> string" where
  "u_escape c = [CHR 0x5C, CHR ''u'', CHR ''0'', CHR ''0'', hex_digit (of_char c div 16), hex_digit (of_char c mod 16)]"

definition append_escaped_char :: "nsr_json_buf \<Rightarrow> char \<Rightarrow> nsr_json_buf option" where
  "append_escaped_char jb c =
     (if c = CHR 0x22 then jb_append_raw jb [CHR 0x5C, CHR 0x22]
      else if c = CHR 0x5C then jb_append_raw jb [CHR 0x5C, CHR 0x5C]
      else if c = CHR 0x08 then jb_append_raw jb [CHR 0x5C, CHR ''b'']
      else if c = CHR 0x0C then jb_append_raw jb [CHR 0x5C, CHR ''f'']
      else if c = CHR 0x0A then jb_append_raw jb [CHR 0x5C, CHR ''n'']
      else if c = CHR 0x0D then jb_append_raw jb [CHR 0x5C, CHR ''r'']
      else if c = CHR 0x09 then jb_append_raw jb [CHR 0x5C, CHR ''t'']
      else if (of_char c :: nat) < 32 then jb_append_raw jb (u_escape c)
      else jb_append_char jb c)"

fun append_escaped_loop :: "nsr_json_buf \<Rightarrow> string \<Rightarrow> nsr_json_buf option" where
  "append_escaped_loop jb [] = Some jb"
| "append_escaped_loop jb (c # s) = do { jb \<leftarrow> append_escaped_char jb c; append_escaped_loop jb s }"

definition append_escaped :: "nsr_json_buf \<Rightarrow> string \<Rightarrow> nsr_json_buf option" where
  "append_escaped jb s =
     do { jb \<leftarrow> jb_append_char jb (CHR 0x22); jb \<leftarrow> append_escaped_loop jb s; jb_append_char jb (CHR 0x22) }"

definition nsr_json_key :: "nsr_json_buf \<Rightarrow> string \<Rightarrow> nsr_json_buf option" where
  "nsr_json_key jb key =
     do { jb \<leftarrow> maybe_comma jb; jb \<leftarrow> append_escaped jb key; jb_append_char jb (CHR '':'') }"

text \<open>A null \<open>val\<close> is written as the empty string.\<close>

definition nsr_json_string :: "nsr_json_buf \<Rightarrow> string option \<Rightarrow> nsr_json_buf option" where
  "nsr_json_string jb val =
     do { jb \<leftarrow> maybe_comma jb; append_escaped jb (case val of Some s \<Rightarrow> s | None \<Rightarrow> []) }"

fun nat_str :: "nat \<Rightarrow> string" where
  "nat_str n = (if n < 10 then [char_of (48 + n)] else nat_str (n div 10) @ [char_of (48 + n mod 10)])"

declare nat_str.simps [simp del]

definition print_lld :: "int \<Rightarrow> string" where
  "print_lld n = (if n < 0 then CHR ''-'' # nat_str (nat (- n)) else nat_str (nat n))"

text \<open>\<open>snprintf\<close> into \<open>tmp[32]\<close> keeps at most 31 characters, into \<open>tmp[64]\<close> at most 63.\<close>

definition nsr_json_int :: "nsr_json_buf \<Rightarrow> int \<Rightarrow> nsr_json_buf option" where
  "nsr_json_int jb val = do { jb \<leftarrow> maybe_comma jb; jb_append_raw jb (take 31 (print_lld val)) }"

definition micro_round :: "rat \<Rightarrow> nat" where
  "micro_round x =
     (let y = x * 1000000; f = nat \<lfloor>y\<rfloor>; d = y - of_nat f
      in if d > 1/2 \<or> d = 1/2 \<and> odd f then f + 1 else f)"

definition pad6 :: "string \<Rightarrow> string" where
  "pad6 s = replicate (6 - length s) (CHR ''0'') @ s"

definition print_f6 :: "rat \<Rightarrow> string" where
  "print_f6 x =
     (let m = micro_round \<bar>x\<bar>
      in (if x < 0 then ''-'' else '''') @ nat_str (m div 1000000) @ ''.'' @ pad6 (nat_str (m mod 1000000)))"

definition nsr_json_double :: "nsr_json_buf \<Rightarrow> rat \<Rightarrow> nsr_json_buf option" where
  "nsr_json_double jb val = do { jb \<leftarrow> maybe_comma jb; jb_append_raw jb (take 63 (print_f6 val)) }"

definition nsr_json_bool :: "nsr_json_buf \<Rightarrow> bool \<Rightarrow> nsr_json_buf option" where
  "nsr_json_bool jb val = do { jb \<leftarrow> maybe_comma jb; jb_append_raw jb (if val then ''true'' else ''false'') }"

definition nsr_json_null :: "nsr_json_buf \<Rightarrow> nsr_json_buf option" where
  "nsr_json_null jb = do { jb \<leftarrow> maybe_comma jb; jb_append_raw jb ''null'' }"

definition nsr_json_append_raw :: "nsr_json_buf \<Rightarrow> string \<Rightarrow> nsr_json_buf option" where
  "nsr_json_append_raw jb s = jb_append_raw jb s"

section \<open>The buffer holds its text\<close>

definition jb_text :: "nsr_json_buf \<Rightarrow> string" where
  "jb_text jb = map the (take (jb_len jb) (jb_buf jb))"

definition jb_inv :: "nsr_json_buf \<Rightarrow> bool" where
  "jb_inv jb \<longleftrightarrow> length (jb_buf jb) = jb_cap jb \<and> jb_len jb < jb_cap jb \<and>
     None \<notin> set (take (jb_len jb) (jb_buf jb)) \<and> jb_buf jb ! jb_len jb = Some (CHR 0x00)"

lemma grow_cap_ge: "0 < c \<Longrightarrow> n \<le> grow_cap c n \<and> c \<le> grow_cap c n"
proof (induction c n rule: grow_cap.induct)
  case (1 c n)
  then show ?case by (subst (1 2) grow_cap.simps) auto
qed

text \<open>Growing keeps the text and makes room.\<close>

lemma jb_grow_props:
  assumes "length (jb_buf jb) = jb_cap jb" "jb_len jb \<le> jb_cap jb"
  shows "length (jb_buf (jb_grow jb n)) = jb_cap (jb_grow jb n)" "jb_len (jb_grow jb n) = jb_len jb"
    "take (jb_len jb) (jb_buf (jb_grow jb n)) = take (jb_len jb) (jb_buf jb)"
    "jb_len jb + n \<le> length (jb_buf (jb_grow jb n))"
proof -
  let ?c = "grow_cap (if jb_cap jb \<noteq> 0 then jb_cap jb * 2 else 256) (jb_len jb + n)"
  have c: "jb_len jb + n \<le> ?c" "jb_cap jb \<le> ?c"
    using grow_cap_ge [of "if jb_cap jb \<noteq> 0 then jb_cap jb * 2 else 256" "jb_len jb + n"] by (auto split: if_splits)
  show "length (jb_buf (jb_grow jb n)) = jb_cap (jb_grow jb n)" "jb_len (jb_grow jb n) = jb_len jb"
    "take (jb_len jb) (jb_buf (jb_grow jb n)) = take (jb_len jb) (jb_buf jb)"
    "jb_len jb + n \<le> length (jb_buf (jb_grow jb n))"
    using assms c by (auto simp: jb_grow_def Let_def min_def)
qed

lemma jb_memcpy_eq:
  "i + length s \<le> length (jb_buf jb) \<Longrightarrow>
     jb_memcpy i s jb = Some (jb\<lparr>jb_buf := take i (jb_buf jb) @ map Some s @ drop (i + length s) (jb_buf jb)\<rparr>)"
proof (induction s arbitrary: i jb)
  case (Cons c s)
  then have i: "i < length (jb_buf jb)" by simp
  let ?jb = "jb\<lparr>jb_buf := (jb_buf jb)[i := Some c]\<rparr>"
  have "jb_memcpy i (c # s) jb = jb_memcpy (Suc i) s ?jb" using i by (simp add: jb_store_def)
  also have "\<dots> = Some (?jb\<lparr>jb_buf := take (Suc i) (jb_buf ?jb) @ map Some s @ drop (Suc i + length s) (jb_buf ?jb)\<rparr>)"
    using Cons.prems by (intro Cons.IH) simp
  also have "take (Suc i) (jb_buf ?jb) = take i (jb_buf jb) @ [Some c]"
    using i by (simp add: take_Suc_conv_app_nth)
  finally show ?case using i by simp
qed simp

lemma jb_append_raw_text:
  assumes inv: "jb_inv jb"
  obtains jb' where "jb_append_raw jb s = Some jb'" "jb_inv jb'" "jb_text jb' = jb_text jb @ s"
proof -
  let ?g = "jb_grow jb (length s + 1)" and ?l = "jb_len jb"
  have g: "length (jb_buf ?g) = jb_cap ?g" "jb_len ?g = ?l" "take ?l (jb_buf ?g) = take ?l (jb_buf jb)"
    "?l + (length s + 1) \<le> length (jb_buf ?g)"
    using inv jb_grow_props [of jb "length s + 1"] by (simp_all add: jb_inv_def)
  let ?b = "take ?l (jb_buf jb) @ map Some s @ drop (?l + length s) (jb_buf ?g)"
  let ?jb = "?g\<lparr>jb_len := ?l + length s, jb_buf := ?b[?l + length s := Some (CHR 0x00)]\<rparr>"
  have len: "length (take ?l (jb_buf jb)) = ?l" using inv by (simp add: jb_inv_def)
  have "jb_memcpy ?l s ?g = Some (?g\<lparr>jb_buf := ?b\<rparr>)"
    using g by (simp add: jb_memcpy_eq)
  then have eq: "jb_append_raw jb s = Some ?jb"
    using g len by (simp add: jb_append_raw_def Let_def jb_store_def)
  have pre: "take (?l + length s) (jb_buf ?jb) = take ?l (jb_buf jb) @ map Some s"
    using len by (simp add: take_update_swap list_update_beyond)
  have tx: "jb_text ?jb = jb_text jb @ s"
    unfolding jb_text_def using pre by (simp add: o_def)
  have "jb_inv ?jb"
    unfolding jb_inv_def
  proof (intro conjI)
    show "length (jb_buf ?jb) = jb_cap ?jb" "jb_len ?jb < jb_cap ?jb" using g len by simp_all
    show "None \<notin> set (take (jb_len ?jb) (jb_buf ?jb))" using pre inv by (auto simp: jb_inv_def)
    show "jb_buf ?jb ! jb_len ?jb = Some (CHR 0x00)" using g len by simp
  qed
  then show ?thesis using that [OF eq _ tx] by blast
qed

lemma jb_append_char_raw: "jb_append_char jb c = jb_append_raw jb [c]"
  by (simp add: jb_append_char_def jb_append_raw_def numeral_2_eq_2)

lemma needs_comma_text:
  assumes "jb_inv jb"
  shows "needs_comma jb = Some (jb_text jb \<noteq> [] \<and> last (jb_text jb) \<notin> {CHR 0x7B, CHR ''['', CHR '':'', CHR '',''})"
proof (cases "jb_len jb")
  case 0
  then show ?thesis by (simp add: needs_comma_def jb_text_def)
next
  case (Suc n)
  let ?pre = "take (jb_len jb) (jb_buf jb)"
  have n: "n < length (jb_buf jb)" and none: "None \<notin> set ?pre" using assms Suc by (auto simp: jb_inv_def)
  have pre: "?pre = take n (jb_buf jb) @ [jb_buf jb ! n]" using Suc n by (simp add: take_Suc_conv_app_nth)
  with none obtain c where c: "jb_buf jb ! n = Some c" by (cases "jb_buf jb ! n") auto
  have "jb_text jb = map the (take n (jb_buf jb)) @ [c]" using pre c by (simp add: jb_text_def)
  with Suc c show ?thesis by (simp add: needs_comma_def)
qed

text \<open>
  \<open>appends f g\<close>: on every well-formed buffer \<open>f\<close> succeeds and appends a text that depends only
  on the text so far.
\<close>

definition appends :: "(nsr_json_buf \<Rightarrow> nsr_json_buf option) \<Rightarrow> (string \<Rightarrow> string) \<Rightarrow> bool" where
  "appends f g \<longleftrightarrow> (\<forall>jb. jb_inv jb \<longrightarrow>
     (\<exists>jb'. f jb = Some jb' \<and> jb_inv jb' \<and> jb_text jb' = jb_text jb @ g (jb_text jb)))"

definition comma :: "string \<Rightarrow> string" where
  "comma t = (if t \<noteq> [] \<and> last t \<notin> {CHR 0x7B, CHR ''['', CHR '':'', CHR '',''} then '','' else [])"

lemma appends_raw: "appends (\<lambda>jb. jb_append_raw jb s) (\<lambda>_. s)"
  unfolding appends_def by (meson jb_append_raw_text)

lemma appends_char: "appends (\<lambda>jb. jb_append_char jb c) (\<lambda>_. [c])"
  unfolding jb_append_char_raw by (rule appends_raw)

lemma appends_comma: "appends maybe_comma comma"
  unfolding appends_def
proof (intro allI impI)
  fix jb assume inv: "jb_inv jb"
  show "\<exists>jb'. maybe_comma jb = Some jb' \<and> jb_inv jb' \<and> jb_text jb' = jb_text jb @ comma (jb_text jb)"
    using inv appends_char [of "CHR '',''"] needs_comma_text [OF inv]
    by (auto simp: maybe_comma_def comma_def appends_def)
qed

lemma appends_bind:
  assumes "appends f g" "appends f' g'"
  shows "appends (\<lambda>jb. f jb \<bind> f') (\<lambda>t. g t @ g' (t @ g t))"
  unfolding appends_def
proof (intro allI impI)
  fix jb assume "jb_inv jb"
  with assms(1) obtain jb1 where 1: "f jb = Some jb1" "jb_inv jb1" "jb_text jb1 = jb_text jb @ g (jb_text jb)"
    unfolding appends_def by blast
  with assms(2) obtain jb2 where "f' jb1 = Some jb2" "jb_inv jb2" "jb_text jb2 = jb_text jb1 @ g' (jb_text jb1)"
    unfolding appends_def by blast
  with 1 show "\<exists>jb'. f jb \<bind> f' = Some jb' \<and> jb_inv jb' \<and>
      jb_text jb' = jb_text jb @ g (jb_text jb) @ g' (jb_text jb @ g (jb_text jb))" by simp
qed

lemma appends_eq: "appends f g \<Longrightarrow> (\<And>t. g t = g' t) \<Longrightarrow> appends f g'"
  by (simp add: appends_def)

lemma appends_Some: "appends Some (\<lambda>_. [])"
  by (simp add: appends_def)

lemma appends_after_comma: "appends f (\<lambda>_. s) \<Longrightarrow> appends (\<lambda>jb. maybe_comma jb \<bind> f) (\<lambda>t. comma t @ s)"
  using appends_bind [OF appends_comma, of f "\<lambda>_. s"] by simp

section \<open>What the tokens write\<close>

fun escape_char :: "char \<Rightarrow> string" where
  "escape_char c =
     (if c = CHR 0x22 then [CHR 0x5C, CHR 0x22]
      else if c = CHR 0x5C then [CHR 0x5C, CHR 0x5C]
      else if c = CHR 0x08 then [CHR 0x5C, CHR ''b'']
      else if c = CHR 0x0C then [CHR 0x5C, CHR ''f'']
      else if c = CHR 0x0A then [CHR 0x5C, CHR ''n'']
      else if c = CHR 0x0D then [CHR 0x5C, CHR ''r'']
      else if c = CHR 0x09 then [CHR 0x5C, CHR ''t'']
      else if (of_char c :: nat) < 32 then u_escape c
      else [c])"

definition quote :: "string \<Rightarrow> string" where
  "quote s = [CHR 0x22] @ concat (map escape_char s) @ [CHR 0x22]"

lemma appends_escaped_char: "appends (\<lambda>jb. append_escaped_char jb c) (\<lambda>_. escape_char c)"
  unfolding append_escaped_char_def by (simp add: appends_raw appends_char)

lemma appends_escaped_loop: "appends (\<lambda>jb. append_escaped_loop jb s) (\<lambda>_. concat (map escape_char s))"
proof (induction s)
  case Nil
  then show ?case by (simp add: appends_Some)
next
  case (Cons c s)
  from appends_bind [OF appends_escaped_char [of c] Cons.IH] show ?case by simp
qed

lemma appends_escaped: "appends (\<lambda>jb. append_escaped jb s) (\<lambda>_. quote s)"
  using appends_bind [OF appends_char [of "CHR 0x22"] appends_bind [OF appends_escaped_loop [of s] appends_char [of "CHR 0x22"]]]
  by (simp add: append_escaped_def quote_def)

lemma appends_tokens:
  "appends nsr_json_obj_start (\<lambda>t. comma t @ [CHR 0x7B])"
  "appends nsr_json_obj_end (\<lambda>_. [CHR 0x7D])"
  "appends nsr_json_arr_start (\<lambda>t. comma t @ ''['')"
  "appends nsr_json_arr_end (\<lambda>_. '']'')"
  "appends (\<lambda>jb. nsr_json_key jb k) (\<lambda>t. comma t @ quote k @ '':'')"
  "appends (\<lambda>jb. nsr_json_string jb v) (\<lambda>t. comma t @ quote (case v of Some s \<Rightarrow> s | None \<Rightarrow> []))"
  "appends (\<lambda>jb. nsr_json_int jb n) (\<lambda>t. comma t @ take 31 (print_lld n))"
  "appends (\<lambda>jb. nsr_json_double jb x) (\<lambda>t. comma t @ take 63 (print_f6 x))"
  "appends (\<lambda>jb. nsr_json_bool jb b) (\<lambda>t. comma t @ (if b then ''true'' else ''false''))"
  "appends nsr_json_null (\<lambda>t. comma t @ ''null'')"
  unfolding nsr_json_obj_start_def nsr_json_obj_end_def nsr_json_arr_start_def nsr_json_arr_end_def nsr_json_key_def
    nsr_json_string_def nsr_json_int_def nsr_json_double_def nsr_json_bool_def nsr_json_null_def
  using appends_bind [OF appends_escaped [of k] appends_char [of "CHR '':''"]]
  by (auto intro: appends_after_comma appends_char appends_raw appends_escaped)

section \<open>Whole documents\<close>

text \<open>A JSON value, the calls that encode it, and its text.\<close>

datatype json = JNull | JBool bool | JInt int | JDouble rat | JStr string | JArr "json list" | JObj "(string \<times> json) list"

fun emit_json :: "json \<Rightarrow> nsr_json_buf \<Rightarrow> nsr_json_buf option"
  and emit_elems :: "json list \<Rightarrow> nsr_json_buf \<Rightarrow> nsr_json_buf option"
  and emit_members :: "(string \<times> json) list \<Rightarrow> nsr_json_buf \<Rightarrow> nsr_json_buf option" where
  "emit_json JNull jb = nsr_json_null jb"
| "emit_json (JBool b) jb = nsr_json_bool jb b"
| "emit_json (JInt n) jb = nsr_json_int jb n"
| "emit_json (JDouble x) jb = nsr_json_double jb x"
| "emit_json (JStr s) jb = nsr_json_string jb (Some s)"
| "emit_json (JArr vs) jb = nsr_json_arr_start jb \<bind> emit_elems vs \<bind> nsr_json_arr_end"
| "emit_json (JObj ms) jb = nsr_json_obj_start jb \<bind> emit_members ms \<bind> nsr_json_obj_end"
| "emit_elems [] jb = Some jb"
| "emit_elems (v # vs) jb = emit_json v jb \<bind> emit_elems vs"
| "emit_members [] jb = Some jb"
| "emit_members ((k, v) # ms) jb = nsr_json_key jb k \<bind> emit_json v \<bind> emit_members ms"

fun intersperse_commas :: "string list \<Rightarrow> string" where
  "intersperse_commas [] = []"
| "intersperse_commas [s] = s"
| "intersperse_commas (s # t # ss) = s @ '','' @ intersperse_commas (t # ss)"

fun render :: "json \<Rightarrow> string" where
  "render JNull = ''null''"
| "render (JBool b) = (if b then ''true'' else ''false'')"
| "render (JInt n) = print_lld n"
| "render (JDouble x) = take 63 (print_f6 x)"
| "render (JStr s) = quote s"
| "render (JArr vs) = ''['' @ intersperse_commas (map render vs) @ '']''"
| "render (JObj ms) = [CHR 0x7B] @ intersperse_commas (map (\<lambda>(k, v). quote k @ '':'' @ render v) ms) @ [CHR 0x7D]"

section \<open>The encoder writes the document\<close>

lemma length_nat_str: "0 < k \<Longrightarrow> n < 10 ^ k \<Longrightarrow> length (nat_str n) \<le> k"
proof (induction k arbitrary: n)
  case (Suc k)
  show ?case
  proof (cases "n < 10")
    case True
    then show ?thesis by (simp add: nat_str.simps)
  next
    case False
    then have "0 < k" using Suc.prems by (cases k) auto
    moreover have "n div 10 < 10 ^ k" using Suc.prems by (simp add: less_mult_imp_div_less mult.commute)
    ultimately have "length (nat_str (n div 10)) \<le> k" by (rule Suc.IH)
    with False show ?thesis by (subst nat_str.simps) simp
  qed
qed simp

lemma length_print_lld:
  assumes "- (2 ^ 63) \<le> n" "n < 2 ^ 63"
  shows "length (print_lld n) \<le> 20"
proof -
  have "nat \<bar>n\<bar> < 10 ^ 19" using assms by (simp add: nat_less_iff)
  then have "length (nat_str (nat \<bar>n\<bar>)) \<le> 19" by (rule length_nat_str [rotated]) simp
  then show ?thesis by (auto simp: print_lld_def abs_if split: if_splits)
qed

definition is_digit :: "char \<Rightarrow> bool" where
  "is_digit c \<longleftrightarrow> 48 \<le> (of_char c :: nat) \<and> (of_char c :: nat) \<le> 57"

lemma is_digit_char_of: "d < (10 :: nat) \<Longrightarrow> is_digit (char_of (48 + d))"
  by (simp add: is_digit_def)

lemma nat_str_digits: "nat_str n \<noteq> [] \<and> (\<forall>c \<in> set (nat_str n). is_digit c)"
proof (induction n rule: nat_str.induct)
  case (1 n)
  show ?case
  proof (cases "n < 10")
    case True
    then show ?thesis by (simp add: nat_str.simps [of n] is_digit_char_of)
  next
    case False
    with 1 show ?thesis by (subst (1 2) nat_str.simps) (auto simp: is_digit_char_of)
  qed
qed

lemma is_digit_neq:
  "is_digit c \<Longrightarrow> c \<notin> {CHR 0x7B, CHR ''['', CHR '':'', CHR '','', CHR 0x7D, CHR '']'', CHR 0x22, CHR '' '', CHR 0x09,
     CHR 0x0A, CHR 0x0B, CHR 0x0C, CHR 0x0D}"
  by (auto simp: is_digit_def)

text \<open>The characters of a number.\<close>

definition is_number_char :: "char \<Rightarrow> bool" where
  "is_number_char c \<longleftrightarrow> is_digit c \<or> c = CHR ''-'' \<or> c = CHR ''.''"

lemma number_chars:
  "\<forall>c \<in> set (print_lld n). is_number_char c" "print_lld n \<noteq> []"
  "\<forall>c \<in> set (take 63 (print_f6 x)). is_number_char c" "take 63 (print_f6 x) \<noteq> []"
proof -
  have f6: "\<forall>c \<in> set (print_f6 x). is_number_char c"
    using nat_str_digits is_digit_char_of [of 0]
    by (auto simp: print_f6_def Let_def pad6_def is_number_char_def is_digit_def)
  then show "\<forall>c \<in> set (take 63 (print_f6 x)). is_number_char c" by (meson in_set_takeD)
  show "\<forall>c \<in> set (print_lld n). is_number_char c" "print_lld n \<noteq> []"
    using nat_str_digits by (auto simp: print_lld_def is_number_char_def)
  show "take 63 (print_f6 x) \<noteq> []" by (simp add: print_f6_def Let_def)
qed

lemma is_number_char_neq:
  "is_number_char c \<Longrightarrow> c \<notin> {CHR 0x7B, CHR ''['', CHR '':'', CHR '','', CHR 0x7D, CHR '']'', CHR 0x22, CHR '' '', CHR 0x09,
     CHR 0x0A, CHR 0x0B, CHR 0x0C, CHR 0x0D}"
  unfolding is_number_char_def using is_digit_neq [of c] by (elim disjE) simp_all

lemma render_last: "render v \<noteq> []" "last (render v) \<notin> {CHR 0x7B, CHR ''['', CHR '':'', CHR '',''}"
proof -
  have "render v \<noteq> [] \<and> last (render v) \<notin> {CHR 0x7B, CHR ''['', CHR '':'', CHR '',''}"
  proof (cases v)
    case (JInt n)
    then show ?thesis using number_chars(1,2) [of n] is_number_char_neq [OF bspec [OF number_chars(1) last_in_set], of n] by auto
  next
    case (JDouble x)
    then show ?thesis using number_chars(4) [of x] is_number_char_neq [OF bspec [OF number_chars(3) last_in_set], of x] by auto
  qed (auto simp: quote_def)
  then show "render v \<noteq> []" "last (render v) \<notin> {CHR 0x7B, CHR ''['', CHR '':'', CHR '',''}" by auto
qed

fun ints_ok :: "json \<Rightarrow> bool" where
  "ints_ok (JInt n) \<longleftrightarrow> - (2 ^ 63) \<le> n \<and> n < 2 ^ 63"
| "ints_ok (JArr vs) \<longleftrightarrow> (\<forall>v \<in> set vs. ints_ok v)"
| "ints_ok (JObj ms) \<longleftrightarrow> (\<forall>(k, v) \<in> set ms. ints_ok v)"
| "ints_ok _ \<longleftrightarrow> True"

definition member_text :: "string \<times> json \<Rightarrow> string" where
  "member_text m = quote (fst m) @ '':'' @ render (snd m)"

lemma comma_simps [simp]:
  "comma [] = []" "comma (t @ [CHR 0x7B]) = []" "comma (t @ ''['') = []" "comma (t @ s @ '':'') = []" "comma (t @ '':'') = []"
  by (simp_all add: comma_def)

lemma comma_render [simp]: "comma (t @ render v) = '',''"
  using render_last [of v] by (simp add: comma_def)

definition comma_list :: "string \<Rightarrow> string list \<Rightarrow> string" where
  "comma_list t ss = (if ss = [] then [] else comma t @ intersperse_commas ss)"

lemma intersperse_Cons: "intersperse_commas (s # ss) = s @ (if ss = [] then [] else '','' @ intersperse_commas ss)"
  by (cases ss) simp_all

lemma appends_elems:
  assumes "\<forall>v \<in> set vs. appends (emit_json v) (\<lambda>t. comma t @ render v)"
  shows "appends (emit_elems vs) (\<lambda>t. comma_list t (map render vs))"
  using assms
proof (induction vs)
  case Nil
  have "emit_elems [] = Some" by (rule ext) simp
  then show ?case by (simp add: comma_list_def appends_Some)
next
  case (Cons v vs)
  have e: "emit_elems (v # vs) = (\<lambda>jb. emit_json v jb \<bind> emit_elems vs)" by (rule ext) simp
  have "appends (emit_elems (v # vs)) (\<lambda>t. (comma t @ render v) @ comma_list (t @ comma t @ render v) (map render vs))"
    unfolding e using Cons by (intro appends_bind) simp_all
  then show ?case
    by (rule appends_eq) (simp add: comma_list_def intersperse_Cons comma_render [of "_ @ _", simplified])
qed

lemma appends_members:
  assumes "\<forall>(k, v) \<in> set ms. appends (emit_json v) (\<lambda>t. comma t @ render v)"
  shows "appends (emit_members ms) (\<lambda>t. comma_list t (map member_text ms))"
  using assms
proof (induction ms)
  case Nil
  have "emit_members [] = Some" by (rule ext) simp
  then show ?case by (simp add: comma_list_def appends_Some)
next
  case (Cons m ms)
  obtain k v where m: "m = (k, v)" by (cases m)
  have e: "emit_members (m # ms) = (\<lambda>jb. (nsr_json_key jb k \<bind> emit_json v) \<bind> emit_members ms)" by (rule ext) (simp add: m)
  let ?g = "\<lambda>t. (comma t @ quote k @ '':'') @ comma (t @ comma t @ quote k @ '':'') @ render v"
  have kv: "appends (\<lambda>jb. nsr_json_key jb k \<bind> emit_json v) ?g"
    using Cons.prems by (intro appends_bind appends_tokens) (auto simp: m)
  have "appends (emit_members (m # ms)) (\<lambda>t. ?g t @ comma_list (t @ ?g t) (map member_text ms))"
    unfolding e using Cons by (intro appends_bind [OF kv]) (simp_all add: m)
  then show ?case
  proof (rule appends_eq)
    fix t
    have c: "comma (t @ comma t @ quote k @ '':'') = []" "comma (t @ comma t @ quote k @ '':'' @ render v) = '',''"
      using comma_simps(5) [of "t @ comma t @ quote k"] comma_render [of "t @ comma t @ quote k @ '':''" v] by simp_all
    show "?g t @ comma_list (t @ ?g t) (map member_text ms) = comma_list t (map member_text (m # ms))"
      using c by (simp add: comma_list_def intersperse_Cons member_text_def m)
  qed
qed

lemma appends_json: "ints_ok v \<Longrightarrow> appends (emit_json v) (\<lambda>t. comma t @ render v)"
proof (induction v)
  case (JInt n)
  have e: "emit_json (JInt n) = (\<lambda>jb. nsr_json_int jb n)" by (rule ext) simp
  show ?case unfolding e using JInt length_print_lld [of n] by (intro appends_eq [OF appends_tokens(7)]) simp
next
  case (JArr vs)
  have e: "emit_json (JArr vs) = (\<lambda>jb. (nsr_json_arr_start jb \<bind> emit_elems vs) \<bind> nsr_json_arr_end)" by (rule ext) simp
  have "appends (emit_elems vs) (\<lambda>t. comma_list t (map render vs))" using JArr by (intro appends_elems) simp
  from appends_bind [OF appends_bind [OF appends_tokens(3) this] appends_tokens(4)] show ?case
    unfolding e
  proof (rule appends_eq)
    fix t
    show "((comma t @ ''['') @ comma_list (t @ comma t @ ''['') (map render vs)) @ '']'' = comma t @ render (JArr vs)"
      using comma_simps(3) [of "t @ comma t"] by (simp add: comma_list_def)
  qed
next
  case (JObj ms)
  have e: "emit_json (JObj ms) = (\<lambda>jb. (nsr_json_obj_start jb \<bind> emit_members ms) \<bind> nsr_json_obj_end)" by (rule ext) simp
  have "appends (emit_members ms) (\<lambda>t. comma_list t (map member_text ms))"
    using JObj by (intro appends_members) (auto elim: snds.cases)
  from appends_bind [OF appends_bind [OF appends_tokens(1) this] appends_tokens(2)] show ?case
    unfolding e
  proof (rule appends_eq)
    fix t
    have "member_text = (\<lambda>(k, v). quote k @ '':'' @ render v)" by (auto simp: member_text_def)
    then show "((comma t @ [CHR 0x7B]) @ comma_list (t @ comma t @ [CHR 0x7B]) (map member_text ms)) @ [CHR 0x7D] =
        comma t @ render (JObj ms)"
      using comma_simps(2) [of "t @ comma t"] by (simp add: comma_list_def)
  qed
next
  case JNull
  have e: "emit_json JNull = nsr_json_null" by (rule ext) simp
  show ?case unfolding e using appends_tokens(10) by simp
next
  case (JBool b)
  have e: "emit_json (JBool b) = (\<lambda>jb. nsr_json_bool jb b)" by (rule ext) simp
  show ?case unfolding e using appends_tokens(9) by simp
next
  case (JDouble x)
  have e: "emit_json (JDouble x) = (\<lambda>jb. nsr_json_double jb x)" by (rule ext) simp
  show ?case unfolding e using appends_tokens(8) by simp
next
  case (JStr s)
  have e: "emit_json (JStr s) = (\<lambda>jb. nsr_json_string jb (Some s))" by (rule ext) simp
  show ?case unfolding e using appends_tokens(6) [of "Some s"] by simp
qed

lemma nsr_json_init_ok: "\<exists>jb. nsr_json_init = Some jb \<and> jb_inv jb \<and> jb_text jb = []"
proof -
  have "grow_cap 256 1 = 256" by (simp add: grow_cap.simps)
  then show ?thesis by (simp add: nsr_json_init_def jb_grow_def jb_store_def Let_def jb_inv_def jb_text_def)
qed

lemma read_cstr_text:
  assumes "jb_inv jb" "CHR 0x00 \<notin> set (jb_text jb)"
  shows "nsr_json_cstr jb = Some (jb_text jb)"
proof -
  have read: "read_cstr (bs @ Some (CHR 0x00) # cs) = Some (map the bs)"
    if "None \<notin> set bs" "CHR 0x00 \<notin> the ` set bs" for bs cs
    using that
  proof (induction bs)
    case (Cons b bs)
    then show ?case by (cases b) auto
  qed simp
  have len: "jb_len jb < length (jb_buf jb)" and z: "jb_buf jb ! jb_len jb = Some (CHR 0x00)" using assms(1) by (auto simp: jb_inv_def)
  have split: "jb_buf jb = take (jb_len jb) (jb_buf jb) @ Some (CHR 0x00) # drop (Suc (jb_len jb)) (jb_buf jb)"
    using id_take_nth_drop [OF len] z by simp
  have "read_cstr (jb_buf jb) = Some (jb_text jb)"
    using read [of "take (jb_len jb) (jb_buf jb)" "drop (Suc (jb_len jb)) (jb_buf jb)"] assms
    by (subst split) (simp add: jb_text_def jb_inv_def)
  with len show ?thesis by (auto simp: nsr_json_cstr_def)
qed

section \<open>Properties\<close>

text \<open>
  C15: The encoder is safe and exact: on every well-formed buffer the calls that encode a value
  (with integers in the range of \<open>long long\<close>) never write outside the buffer or read an
  unwritten byte, leave it well formed, and append exactly the value's JSON text, with a comma
  in front when the position needs one.
\<close>

theorem encoder_writes_document:
  assumes "jb_inv jb" "ints_ok v"
  shows "\<exists>jb'. emit_json v jb = Some jb' \<and> jb_inv jb' \<and> jb_text jb' = jb_text jb @ comma (jb_text jb) @ render v"
  using appends_json [OF assms(2)] assms(1) by (simp add: appends_def)

definition ex_doc :: json where
  "ex_doc = JObj [(''method'', JStr ''tick''), (''id'', JInt (- 7)), (''ok'', JArr [JBool True, JNull])]"

theorem encoder_writes_document_witness:
  "\<exists>jb jb'. nsr_json_init = Some jb \<and> emit_json ex_doc jb = Some jb' \<and> jb_inv jb' \<and> jb_text jb' = render ex_doc"
proof -
  obtain jb where jb: "nsr_json_init = Some jb" "jb_inv jb" "jb_text jb = []" using nsr_json_init_ok by blast
  have "ints_ok ex_doc" by (simp add: ex_doc_def)
  from encoder_writes_document [OF jb(2) this] jb show ?thesis by auto
qed

end
