(* ===== verification/Json_Decoder.thy ===== *)
theory Json_Decoder
  imports Nsr_Prelude
begin

text \<open>
  The decoder half of \<open>src/json/json.c\<close>.  A pointer into the NUL-terminated text is the
  suffix it points to; the empty list is the position of the NUL, where \<open>*p\<close> is 0.  A null
  pointer is \<open>None\<close>.  A value is returned as the suffix at its start and its length; the
  functions that take \<open>(val, val_len)\<close> read exactly those bytes, so they take the list of them.
\<close>

section \<open>Skipping\<close>

text \<open>\<open>isspace\<close> in the C locale.\<close>

definition isspace :: "char \<Rightarrow> bool" where
  "isspace c \<longleftrightarrow> c \<in> {CHR '' '', CHR 0x09, CHR 0x0A, CHR 0x0B, CHR 0x0C, CHR 0x0D}"

fun skip_ws :: "string \<Rightarrow> string" where
  "skip_ws [] = []"
| "skip_ws (c # p) = (if isspace c then skip_ws p else c # p)"

text \<open>The loop of \<open>skip_str\<close> behind the opening quote.\<close>

fun skip_str_body :: "string \<Rightarrow> string option" where
  "skip_str_body [] = None"
| "skip_str_body [c] = (if c = CHR 0x22 then Some [] else None)"
| "skip_str_body (c # d # p) =
     (if c = CHR 0x5C then skip_str_body p
      else if c = CHR 0x22 then Some (d # p)
      else skip_str_body (d # p))"

fun skip_str :: "string \<Rightarrow> string option" where
  "skip_str [] = None"
| "skip_str (c # p) = (if c = CHR 0x22 then skip_str_body p else None)"

fun skip_bare :: "string \<Rightarrow> string" where
  "skip_bare [] = []"
| "skip_bare (c # p) = (if c \<in> {CHR '','', CHR 0x7D, CHR '']''} then c # p else skip_bare p)"

fun skip_colon :: "string \<Rightarrow> string" where
  "skip_colon [] = []"
| "skip_colon (c # p) = (if c = CHR '':'' then p else c # p)"

text \<open>
  \<open>skip_value\<close> and its two inner loops, each entered behind the opening bracket.
\<close>

function skip_value :: "string \<Rightarrow> string option"
  and skip_members :: "string \<Rightarrow> string option"
  and skip_elems :: "string \<Rightarrow> string option" where
  "skip_value p =
     (case skip_ws p of
        [] \<Rightarrow> Some []
      | c # q \<Rightarrow>
          if c = CHR 0x22 then skip_str (c # q)
          else if c = CHR 0x7B then skip_members q
          else if c = CHR ''['' then skip_elems q
          else Some (skip_bare (c # q)))"
| "skip_members p =
     (case skip_ws p of
        [] \<Rightarrow> None
      | c # q \<Rightarrow>
          if c = CHR 0x7D then Some q
          else if c = CHR 0x22 then
            (case skip_str (c # q) of
               None \<Rightarrow> None
             | Some r \<Rightarrow>
                 (case skip_value (skip_colon (skip_ws r)) of
                    None \<Rightarrow> None
                  | Some s \<Rightarrow>
                      (case skip_ws s of
                         [] \<Rightarrow> None
                       | d # s' \<Rightarrow> if d = CHR '','' then skip_members s'
                                  else if d = CHR 0x7D then Some s' else None)))
          else None)"
| "skip_elems p =
     (if skip_ws p \<noteq> [] \<and> hd (skip_ws p) = CHR '']'' then Some (tl (skip_ws p))
      else case skip_value (skip_ws p) of
             None \<Rightarrow> None
           | Some s \<Rightarrow>
               (case skip_ws s of
                  [] \<Rightarrow> None
                | d # s' \<Rightarrow> if d = CHR '','' then skip_elems s'
                           else if d = CHR '']'' then Some s' else None))"
  by pat_completeness auto

lemma length_skip_ws: "length (skip_ws p) \<le> length p"
  by (induction p) auto

lemma length_skip_ws_Cons: "skip_ws p = c # q \<Longrightarrow> length q < length p"
  using length_skip_ws [of p] by simp

lemma length_skip_str_body: "skip_str_body p = Some r \<Longrightarrow> length r < length p"
  by (induction p rule: skip_str_body.induct) (auto split: if_splits)

lemma length_skip_str: "skip_str p = Some r \<Longrightarrow> Suc (length r) < length p"
  by (cases p) (auto dest: length_skip_str_body split: if_splits)

lemma length_skip_bare: "length (skip_bare p) \<le> length p"
  by (induction p) auto

lemma length_skip_colon: "length (skip_colon p) \<le> length p"
  by (cases p) auto

lemma skip_value_length:
  "skip_value_skip_members_skip_elems_dom (Inl p) \<Longrightarrow> skip_value p = Some r \<Longrightarrow> length r \<le> length p"
  "skip_value_skip_members_skip_elems_dom (Inr (Inl p)) \<Longrightarrow> skip_members p = Some r \<Longrightarrow> length r < length p"
  "skip_value_skip_members_skip_elems_dom (Inr (Inr p)) \<Longrightarrow> skip_elems p = Some r \<Longrightarrow> length r < length p"
proof (induction p and p and p arbitrary: r and r and r rule: skip_value_skip_members_skip_elems.pinduct)
  case (1 p)
  show ?case
  proof (cases "skip_ws p")
    case Nil
    with 1 show ?thesis by (simp add: skip_value.psimps)
  next
    case (Cons c q)
    then have "length q < length p" by (rule length_skip_ws_Cons)
    note q = this
    have r: "(if c = CHR 0x22 then skip_str (c # q) else if c = CHR 0x7B then skip_members q
        else if c = CHR ''['' then skip_elems q else Some (skip_bare (c # q))) = Some r"
      using 1(1,4) Cons by (simp add: skip_value.psimps)
    consider "c = CHR 0x22" | "c = CHR 0x7B" | "c = CHR ''[''" | "c \<noteq> CHR 0x22" "c \<noteq> CHR 0x7B" "c \<noteq> CHR ''[''" by blast
    then show ?thesis
    proof cases
      case 1
      then show ?thesis using r q length_skip_str [of "c # q" r] by simp
    next
      case 2
      then show ?thesis using r q "1.IH"(1) [OF Cons, of r] by simp
    next
      case 3
      then show ?thesis using r q "1.IH"(2) [OF Cons, of r] by simp
    next
      case 4
      then show ?thesis using r q length_skip_bare [of "c # q"] by auto
    qed
  qed
next
  case (2 p)
  show ?case
  proof (cases "skip_ws p")
    case Nil
    with 2 show ?thesis by (simp add: skip_members.psimps)
  next
    case (Cons c q)
    then have q: "length q < length p" by (rule length_skip_ws_Cons)
    show ?thesis
    proof (cases "c = CHR 0x22")
      case True
      with 2 Cons obtain u s where u: "skip_str (c # q) = Some u" and s: "skip_value (skip_colon (skip_ws u)) = Some s"
        by (auto simp: skip_members.psimps split: option.splits)
      have "length s \<le> length (skip_colon (skip_ws u))"
        using 2(2) [OF Cons _ True u s] True by simp
      also have "\<dots> \<le> length u" using length_skip_colon length_skip_ws le_trans by blast
      finally have "length s < length p" using length_skip_str [OF u] q by simp
      moreover obtain d s' where "skip_ws s = d # s'" using 2 Cons True u s by (cases "skip_ws s") (auto simp: skip_members.psimps)
      ultimately show ?thesis
        using 2 Cons True u s length_skip_ws_Cons [of s d s'] by (fastforce simp: skip_members.psimps split: if_splits)
    next
      case False
      with 2 Cons q show ?thesis by (auto simp: skip_members.psimps split: if_splits)
    qed
  qed
next
  case (3 p)
  show ?case
  proof (cases "skip_ws p \<noteq> [] \<and> hd (skip_ws p) = CHR '']''")
    case True
    then obtain q where q: "skip_ws p = CHR '']'' # q" by (cases "skip_ws p") auto
    from 3 q length_skip_ws_Cons [OF q] show ?thesis by (auto simp: skip_elems.psimps)
  next
    case False
    with 3 obtain s where s: "skip_value (skip_ws p) = Some s" by (auto simp: skip_elems.psimps split: option.splits)
    have "length s \<le> length p" using 3(2) [OF False s] length_skip_ws [of p] by simp
    moreover obtain d s' where "skip_ws s = d # s'" using 3 False s by (cases "skip_ws s") (auto simp: skip_elems.psimps)
    ultimately show ?thesis
      using 3 False s length_skip_ws_Cons [of s d s'] by (fastforce simp: skip_elems.psimps split: if_splits)
  qed
qed

lemma skip_value_dom: "All skip_value_skip_members_skip_elems_dom"
proof (relation "measure (\<lambda>x. case x of Inl p \<Rightarrow> 2 * length p | Inr (Inl p) \<Rightarrow> 2 * length p | Inr (Inr p) \<Rightarrow> 2 * length p + 1)", goal_cases)
  case 1
  show ?case by simp
next
  case (2 p c q)
  then show ?case using length_skip_ws_Cons [of p c q] by simp
next
  case (3 p c q)
  then show ?case using length_skip_ws_Cons [of p c q] by simp
next
  case (4 p c q r)
  then show ?case
    using length_skip_ws_Cons [of p c q] length_skip_str [of "c # q" r] length_skip_colon [of "skip_ws r"] length_skip_ws [of r]
    by simp
next
  case (5 p c q r s d s')
  then show ?case
    using length_skip_ws_Cons [of p c q] length_skip_str [of "c # q" r] length_skip_colon [of "skip_ws r"] length_skip_ws [of r]
      skip_value_length(1) [of "skip_colon (skip_ws r)" s] length_skip_ws_Cons [of s d s']
    by simp
next
  case (6 p)
  then show ?case using length_skip_ws [of p] by simp
next
  case (7 p s d s')
  then show ?case
    using length_skip_ws [of p] skip_value_length(1) [of "skip_ws p" s] length_skip_ws_Cons [of s d s'] by simp
qed

termination skip_value
  by (rule skip_value_dom)

lemmas length_skip_value = skip_value_length(1) [OF skip_value_dom [rule_format]]
lemmas length_skip_members = skip_value_length(2) [OF skip_value_dom [rule_format]]
lemmas length_skip_elems = skip_value_length(3) [OF skip_value_dom [rule_format]]

declare skip_value.simps [simp del] skip_members.simps [simp del] skip_elems.simps [simp del]

section \<open>Objects and arrays\<close>

text \<open>
  The loop of \<open>nsr_json_obj_get\<close> behind the opening brace.  The key is compared with the raw
  text between the quotes.
\<close>

function obj_get_loop :: "string \<Rightarrow> string \<Rightarrow> (string \<times> nat) option" where
  "obj_get_loop key p =
     (case skip_ws p of
        [] \<Rightarrow> None
      | c # key_start \<Rightarrow>
          if c = CHR 0x7D then None
          else if c \<noteq> CHR 0x22 then None
          else (case skip_str (c # key_start) of
                  None \<Rightarrow> None
                | Some key_end \<Rightarrow>
                    let key_len = length key_start - length key_end - 1;
                        match = (length key = key_len \<and> take key_len key_start = key)
                    in (case skip_ws key_end of
                          [] \<Rightarrow> None
                        | d # q \<Rightarrow>
                            if d \<noteq> CHR '':'' then None
                            else let val_start = skip_ws q
                                 in (case skip_value val_start of
                                       None \<Rightarrow> None
                                     | Some val_end \<Rightarrow>
                                         if match then Some (val_start, length val_start - length val_end)
                                         else (case skip_ws val_end of
                                                 [] \<Rightarrow> None
                                               | e # r \<Rightarrow> if e = CHR '','' then obj_get_loop key r else None)))))"
  by pat_completeness auto
termination obj_get_loop
proof (relation "measure (\<lambda>(key, p). length p)", goal_cases)
  case 1
  show ?case by simp
next
  case (2 key p c key_start key_end key_len match d q val_start val_end e r)
  then show ?case
    using length_skip_ws_Cons [of p c key_start] length_skip_str [of "c # key_start" key_end]
      length_skip_ws_Cons [of key_end d q] length_skip_ws [of q] length_skip_value [of val_start val_end]
      length_skip_ws_Cons [of val_end e r]
    by simp
qed

declare obj_get_loop.simps [simp del]

definition nsr_json_obj_get :: "string \<Rightarrow> string \<Rightarrow> (string \<times> nat) option" where
  "nsr_json_obj_get json key =
     (case skip_ws json of
        [] \<Rightarrow> None
      | c # p \<Rightarrow> if c = CHR 0x7B then obj_get_loop key p else None)"

text \<open>
  The element and the value of \<open>*next\<close> afterwards, which is \<open>None\<close> when the call leaves it
  unset.
\<close>

definition nsr_json_arr_first :: "string \<Rightarrow> string option \<times> string option" where
  "nsr_json_arr_first json =
     (case skip_ws json of
        [] \<Rightarrow> (None, None)
      | c # p \<Rightarrow>
          if c \<noteq> CHR ''['' then (None, None)
          else let elem = skip_ws p
               in if elem \<noteq> [] \<and> hd elem = CHR '']'' then (None, Some (tl elem))
                  else (case skip_value elem of None \<Rightarrow> (None, None) | Some q \<Rightarrow> (Some elem, Some q)))"

definition nsr_json_arr_next :: "string \<Rightarrow> string option \<times> string option" where
  "nsr_json_arr_next nxt =
     (case skip_ws nxt of
        [] \<Rightarrow> (None, None)
      | c # p \<Rightarrow>
          if c = CHR '','' then
            let elem = skip_ws p
            in (case skip_value elem of None \<Rightarrow> (None, None) | Some q \<Rightarrow> (Some elem, Some q))
          else if c = CHR '']'' then (None, Some p) else (None, None))"

section \<open>Scalars\<close>

fun unescape :: "char \<Rightarrow> char" where
  "unescape c =
     (if c = CHR ''b'' then CHR 0x08 else if c = CHR ''f'' then CHR 0x0C else if c = CHR ''n'' then CHR 0x0A
      else if c = CHR ''r'' then CHR 0x0D else if c = CHR ''t'' then CHR 0x09 else c)"

text \<open>
  The copy loop over the bytes between the quotes.  \<open>lim\<close> is \<open>out_len - 1\<close> in \<open>size_t\<close>: a
  character is stored only while fewer than \<open>lim\<close> have been.
\<close>

definition put_char :: "nat \<Rightarrow> char \<Rightarrow> string \<Rightarrow> string" where
  "put_char lim c out = (if length out < lim then out @ [c] else out)"

fun parse_str_loop :: "nat \<Rightarrow> string \<Rightarrow> string \<Rightarrow> string" where
  "parse_str_loop lim [] out = out"
| "parse_str_loop lim [c] out = put_char lim c out"
| "parse_str_loop lim (c # d # p) out =
     (if c = CHR 0x5C then parse_str_loop lim p (put_char lim (unescape d) out)
      else parse_str_loop lim (d # p) (put_char lim c out))"

definition size_dec :: "nat \<Rightarrow> nat" where
  "size_dec n = (if n = 0 then 2 ^ 64 - 1 else n - 1)"

definition nsr_json_parse_str :: "string \<Rightarrow> nat \<Rightarrow> string option" where
  "nsr_json_parse_str val out_len =
     (if length val < 2 \<or> hd val \<noteq> CHR 0x22 \<or> last val \<noteq> CHR 0x22 then None
      else Some (parse_str_loop (size_dec out_len) (butlast (tl val)) []))"

text \<open>\<open>strtoll (s, &end, 10)\<close>: the clamped value and the rest at \<open>end\<close>.\<close>

definition isdigit :: "char \<Rightarrow> bool" where
  "isdigit c \<longleftrightarrow> 48 \<le> (of_char c :: nat) \<and> (of_char c :: nat) \<le> 57"

definition digit_val :: "char \<Rightarrow> int" where
  "digit_val c = int (of_char c) - 48"

definition digits_val :: "string \<Rightarrow> int" where
  "digits_val ds = foldl (\<lambda>n c. n * 10 + digit_val c) 0 ds"

definition clamp_ll :: "int \<Rightarrow> int" where
  "clamp_ll n = max (- (2 ^ 63)) (min (2 ^ 63 - 1) n)"

definition strtoll :: "string \<Rightarrow> int \<times> string" where
  "strtoll s =
     (let p = skip_ws s;
          neg = (p \<noteq> [] \<and> hd p = CHR ''-'');
          q = (if p \<noteq> [] \<and> hd p \<in> {CHR ''-'', CHR ''+''} then tl p else p);
          ds = takeWhile isdigit q
      in if ds = [] then (0, s)
         else (clamp_ll (if neg then - digits_val ds else digits_val ds), dropWhile isdigit q))"

text \<open>The result and, when it is written, the value of \<open>*out\<close>.\<close>

definition nsr_json_parse_int :: "string \<Rightarrow> bool \<times> int option" where
  "nsr_json_parse_int val =
     (if length val \<ge> 32 then (False, None)
      else case strtoll val of (v, rest) \<Rightarrow> (rest = [], Some v))"

definition nsr_json_parse_bool :: "string \<Rightarrow> bool option" where
  "nsr_json_parse_bool val =
     (if val = ''true'' then Some True else if val = ''false'' then Some False else None)"

end
