(* ===== verification/Json_Roundtrip.thy ===== *)
theory Json_Roundtrip
  imports Json_Encoder Json_Decoder
begin

text \<open>
  What the decoder of \<open>src/json/json.c\<close> makes of the encoder's text: every encoded value is
  skipped as a whole, members are found under their keys, array elements are visited in order,
  and strings and integers are read back, except strings with control characters that the
  encoder writes as \<open>\u00xx\<close>.
\<close>

section \<open>Skipping encoded values\<close>

definition delim :: "string \<Rightarrow> bool" where
  "delim p \<longleftrightarrow> p = [] \<or> hd p \<in> {CHR '','', CHR 0x7D, CHR '']''}"

lemma delim_simps [simp]: "delim []" "delim (CHR '','' # p)" "delim (CHR 0x7D # p)" "delim (CHR '']'' # p)"
  by (simp_all add: delim_def)

lemma skip_ws_other [simp]: "\<not> isspace c \<Longrightarrow> skip_ws (c # p) = c # p"
  by simp

lemma isspace_simps [simp]:
  "\<not> isspace (CHR '','')" "\<not> isspace (CHR '':'')" "\<not> isspace (CHR 0x22)" "\<not> isspace (CHR 0x7B)"
  "\<not> isspace (CHR 0x7D)" "\<not> isspace (CHR ''['')" "\<not> isspace (CHR '']'')"
  by (simp_all add: isspace_def)

lemma skip_bare_append:
  "\<forall>c \<in> set s. c \<notin> {CHR '','', CHR 0x7D, CHR '']''} \<Longrightarrow> delim rest \<Longrightarrow> skip_bare (s @ rest) = rest"
proof (induction s)
  case Nil
  then show ?case by (cases rest) (auto simp: delim_def)
qed auto

lemma skip_str_body_plain:
  "c \<noteq> CHR 0x5C \<Longrightarrow> c \<noteq> CHR 0x22 \<Longrightarrow> skip_str_body (c # p) = skip_str_body p"
  by (cases p) auto

lemma hex_digit_plain:
  assumes "n < 16"
  shows "hex_digit n \<noteq> CHR 0x5C" "hex_digit n \<noteq> CHR 0x22"
proof -
  have "of_char (hex_digit n) = (if n < 10 then 48 + n else 87 + n)" using assms by (simp add: hex_digit_def)
  then have "of_char (hex_digit n) \<noteq> (92 :: nat)" "of_char (hex_digit n) \<noteq> (34 :: nat)" using assms by auto
  then show "hex_digit n \<noteq> CHR 0x5C" "hex_digit n \<noteq> CHR 0x22" by auto
qed

lemma skip_escape: "skip_str_body (escape_char c @ p) = skip_str_body p"
proof -
  have "hex_digit (of_char c mod 16) \<noteq> CHR 0x5C" "hex_digit (of_char c mod 16) \<noteq> CHR 0x22"
    using hex_digit_plain [of "of_char c mod 16"] by simp_all
  moreover have "hex_digit (of_char c div 16) \<noteq> CHR 0x5C \<and> hex_digit (of_char c div 16) \<noteq> CHR 0x22" if "(of_char c :: nat) < 32"
    using hex_digit_plain [of "of_char c div 16"] that by (simp add: div_less_iff_less_mult)
  ultimately show ?thesis
    by (simp add: u_escape_def skip_str_body_plain)
qed

lemma skip_quote: "skip_str (quote s @ p) = Some p"
proof -
  have "skip_str_body (concat (map escape_char s) @ CHR 0x22 # p) = Some p"
  proof (induction s)
    case Nil
    then show ?case by (cases p) simp_all
  next
    case (Cons c s)
    then show ?case by (simp only: list.map concat.simps append_assoc skip_escape)
  qed
  then show ?thesis by (simp add: quote_def)
qed

text \<open>The first character of a value.\<close>

lemma render_hd:
  obtains c q where "render v = c # q" "\<not> isspace c" "c \<noteq> CHR '']''"
proof (cases v)
  case (JInt n)
  obtain c q where cq: "print_lld n = c # q" using number_chars(2) by (cases "print_lld n") auto
  then have "is_number_char c" using number_chars(1) [of n] by simp
  with cq JInt is_number_char_neq [of c] show ?thesis by (intro that [of c q]) (auto simp: isspace_def)
next
  case (JDouble x)
  obtain c q where cq: "take 63 (print_f6 x) = c # q" using number_chars(4) by (cases "take 63 (print_f6 x)") auto
  then have "is_number_char c" using number_chars(3) [of x] by (metis list.set_intros(1))
  with cq JDouble is_number_char_neq [of c] show ?thesis by (intro that [of c q]) (auto simp: isspace_def)
next
  case (JBool b)
  then show ?thesis by (cases b) (auto intro: that simp: isspace_def)
qed (auto intro: that simp: isspace_def quote_def)

lemma skip_ws_render [simp]: "skip_ws (render v @ p) = render v @ p"
proof -
  obtain c q where "render v = c # q" "\<not> isspace c" using render_hd by blast
  then show ?thesis by simp
qed

lemma skip_ws_quote [simp]: "skip_ws (quote s @ p) = quote s @ p"
  by (simp add: quote_def)

lemma skip_value_bare:
  assumes "s \<noteq> []" "\<forall>c \<in> set s. c \<notin> {CHR '','', CHR 0x7D, CHR '']''}"
    and "hd s \<notin> {CHR 0x22, CHR 0x7B, CHR ''[''}" "\<not> isspace (hd s)" "delim rest"
  shows "skip_value (s @ rest) = Some rest"
proof -
  obtain c q where s: "s = c # q" using assms(1) by (cases s) auto
  have "skip_bare (s @ rest) = rest" using assms(2,5) by (rule skip_bare_append)
  then show ?thesis using assms s by (simp add: skip_value.simps)
qed

lemma skip_elems_render:
  assumes "\<And>v rest. v \<in> set vs \<Longrightarrow> delim rest \<Longrightarrow> skip_value (render v @ rest) = Some rest"
  shows "skip_elems (intersperse_commas (map render vs) @ '']'' @ rest) = Some rest"
  using assms
proof (induction vs)
  case Nil
  then show ?case by (subst skip_elems.simps) simp
next
  case (Cons v vs)
  define X where "X = (if vs = [] then [] else '','' @ intersperse_commas (map render vs)) @ '']'' @ rest"
  obtain c q where r: "render v = c # q" "\<not> isspace c" "c \<noteq> CHR '']''" using render_hd by blast
  have t: "intersperse_commas (map render (v # vs)) @ '']'' @ rest = render v @ X" by (simp add: intersperse_Cons X_def)
  have v: "skip_value (render v @ X) = Some X" by (intro Cons.prems) (auto simp: X_def)
  have IH: "skip_elems (intersperse_commas (map render vs) @ '']'' @ rest) = Some rest"
    using Cons by simp
  have "hd (render v @ X) \<noteq> CHR '']''" using r by simp
  then have "skip_elems (render v @ X) =
      (case skip_ws X of [] \<Rightarrow> None
       | d # s' \<Rightarrow> if d = CHR '','' then skip_elems s' else if d = CHR '']'' then Some s' else None)"
    by (subst skip_elems.simps) (simp add: v)
  also have "\<dots> = Some rest" using IH by (cases "vs = []") (simp_all add: X_def)
  finally show ?case unfolding t .
qed

lemma skip_members_render:
  assumes "\<And>k v rest. (k, v) \<in> set ms \<Longrightarrow> delim rest \<Longrightarrow> skip_value (render v @ rest) = Some rest"
  shows "skip_members (intersperse_commas (map member_text ms) @ [CHR 0x7D] @ rest) = Some rest"
  using assms
proof (induction ms)
  case Nil
  then show ?case by (subst skip_members.simps) simp
next
  case (Cons m ms)
  obtain k v where m: "m = (k, v)" by (cases m)
  define X where "X = (if ms = [] then [] else '','' @ intersperse_commas (map member_text ms)) @ [CHR 0x7D] @ rest"
  have t: "intersperse_commas (map member_text (m # ms)) @ [CHR 0x7D] @ rest = quote k @ '':'' @ render v @ X"
    by (simp add: intersperse_Cons m member_text_def X_def)
  have v: "skip_value (render v @ X) = Some X" by (rule Cons.prems [of k]) (auto simp: m X_def)
  have IH: "skip_members (intersperse_commas (map member_text ms) @ [CHR 0x7D] @ rest) = Some rest"
  proof (rule Cons.IH)
    fix k v rest assume "(k, v) \<in> set ms" "delim rest"
    then show "skip_value (render v @ rest) = Some rest" using Cons.prems [of k v rest] by simp
  qed
  have q: "quote k @ '':'' @ render v @ X = CHR 0x22 # (concat (map escape_char k) @ CHR 0x22 # '':'' @ render v @ X)"
    by (simp add: quote_def)
  have "skip_members (quote k @ '':'' @ render v @ X) =
      (case skip_ws X of [] \<Rightarrow> None
       | d # s' \<Rightarrow> if d = CHR '','' then skip_members s' else if d = CHR 0x7D then Some s' else None)"
    using skip_quote [of k "'':'' @ render v @ X"] v unfolding q by (subst skip_members.simps) simp
  also have "\<dots> = Some rest" using IH by (cases "ms = []") (simp_all add: X_def)
  finally show ?case unfolding t .
qed

lemma skip_value_render: "delim rest \<Longrightarrow> skip_value (render v @ rest) = Some rest"
proof (induction v arbitrary: rest)
  case (JInt n)
  have "is_number_char (hd (print_lld n))" using number_chars(1,2) [of n] by simp
  then show ?case
    using number_chars(1,2) [of n] is_number_char_neq JInt is_number_char_neq [of "hd (print_lld n)"]
    by (simp only: render.simps) (intro skip_value_bare, auto simp: isspace_def dest!: bspec)
next
  case (JDouble x)
  have "is_number_char (hd (take 63 (print_f6 x)))" using number_chars(3,4) [of x] by (metis hd_in_set)
  then show ?case
    using number_chars(3,4) [of x] is_number_char_neq JDouble is_number_char_neq [of "hd (take 63 (print_f6 x))"]
    by (simp only: render.simps) (intro skip_value_bare, auto simp: isspace_def dest!: bspec)
next
  case (JStr s)
  have "quote s @ rest = CHR 0x22 # (concat (map escape_char s) @ CHR 0x22 # rest)" by (simp add: quote_def)
  with skip_quote [of s rest] show ?case by (simp add: skip_value.simps)
next
  case (JArr vs)
  have "skip_elems (intersperse_commas (map render vs) @ '']'' @ rest) = Some rest"
    using JArr.IH by (intro skip_elems_render)
  then show ?case by (simp add: skip_value.simps)
next
  case (JObj ms)
  have "skip_members (intersperse_commas (map member_text ms) @ [CHR 0x7D] @ rest) = Some rest"
    using JObj.IH by (intro skip_members_render) (force intro: snds.intros)
  moreover have "member_text = (\<lambda>(k, v). quote k @ '':'' @ render v)" by (auto simp: member_text_def)
  ultimately show ?case by (simp add: skip_value.simps)
next
  case JNull
  then show ?case by (simp only: render.simps) (intro skip_value_bare, auto simp: isspace_def)
next
  case (JBool b)
  then show ?case by (simp only: render.simps) (intro skip_value_bare, auto simp: isspace_def)
qed

section \<open>Strings\<close>

text \<open>The characters that survive: everything but the control characters written as \<open>\u00xx\<close>.\<close>

definition survives :: "char \<Rightarrow> bool" where
  "survives c \<longleftrightarrow> 32 \<le> (of_char c :: nat) \<or> c \<in> {CHR 0x08, CHR 0x0C, CHR 0x0A, CHR 0x0D, CHR 0x09}"

lemma parse_str_loop_plain: "c \<noteq> CHR 0x5C \<Longrightarrow> parse_str_loop cap (c # p) out = parse_str_loop cap p (put_char cap c out)"
  by (cases p) simp_all

lemma parse_escape:
  assumes "survives c"
  shows "parse_str_loop cap (escape_char c @ p) out = parse_str_loop cap p (put_char cap c out)"
proof (cases "c \<in> {CHR 0x22, CHR 0x5C, CHR 0x08, CHR 0x0C, CHR 0x0A, CHR 0x0D, CHR 0x09}")
  case True
  then show ?thesis by (elim insertE emptyE) simp_all
next
  case False
  with assms have "escape_char c = [c]" "c \<noteq> CHR 0x5C" by (auto simp: survives_def)
  then show ?thesis by (simp add: parse_str_loop_plain)
qed

lemma put_char_take: "length out \<le> cap \<Longrightarrow> put_char cap c out = take cap (out @ [c])"
  by (cases "length out = cap") (auto simp: put_char_def)

lemma parse_escapes:
  "\<forall>c \<in> set s. survives c \<Longrightarrow> length out \<le> cap \<Longrightarrow>
     parse_str_loop cap (concat (map escape_char s)) out = take cap (out @ s)"
proof (induction s arbitrary: out)
  case (Cons c s)
  have "parse_str_loop cap (concat (map escape_char (c # s))) out =
      parse_str_loop cap (concat (map escape_char s)) (put_char cap c out)"
    using Cons.prems by (simp only: list.map concat.simps) (simp only: parse_escape list.set_intros)
  also have "\<dots> = take cap (put_char cap c out @ s)"
    using Cons.prems by (intro Cons.IH) (simp_all add: put_char_def)
  also have "\<dots> = take cap (out @ c # s)"
    using Cons.prems(2) by (cases "length out = cap") (simp_all add: put_char_def)
  finally show ?case .
qed simp

lemma parse_quote:
  assumes "\<forall>c \<in> set s. survives c" "0 < out_len"
  shows "nsr_json_parse_str (quote s) out_len = Some (take (out_len - 1) s)"
proof -
  have "butlast (tl (quote s)) = concat (map escape_char s)" by (simp add: quote_def butlast_append)
  then show ?thesis
    using assms parse_escapes [of s "[]" "out_len - 1"]
    by (simp add: nsr_json_parse_str_def size_dec_def) (simp add: quote_def)
qed

section \<open>Integers\<close>

lemma isdigit_char_of: "d < (10 :: nat) \<Longrightarrow> isdigit (char_of (48 + d)) \<and> digit_val (char_of (48 + d)) = int d"
  by (simp add: isdigit_def digit_val_def)

lemma digits_val_snoc: "digits_val (xs @ [c]) = digits_val xs * 10 + digit_val c"
  by (simp add: digits_val_def)

lemma digits_nat_str: "(\<forall>c \<in> set (nat_str n). isdigit c) \<and> digits_val (nat_str n) = int n"
proof (induction n rule: nat_str.induct)
  case (1 n)
  show ?case
  proof (cases "n < 10")
    case True
    then have "nat_str n = [char_of (48 + n)]" by (simp add: nat_str.simps)
    with isdigit_char_of [OF True] show ?thesis by (simp add: digits_val_def)
  next
    case False
    then have eq: "nat_str n = nat_str (n div 10) @ [char_of (48 + n mod 10)]" by (subst nat_str.simps) simp
    have "int (n div 10) * 10 + int (n mod 10) = int n"
      using div_mult_mod_eq [of n 10] by (metis of_nat_add of_nat_mult of_nat_numeral)
    with 1 [OF False] isdigit_char_of [of "n mod 10"] show ?thesis unfolding eq digits_val_snoc by simp
  qed
qed

lemma isdigit_not: "isdigit c \<Longrightarrow> \<not> isspace c \<and> c \<noteq> CHR ''-'' \<and> c \<noteq> CHR ''+''"
  by (auto simp: isdigit_def isspace_def)

lemma strtoll_print:
  assumes "- (2 ^ 63) \<le> n" "n < 2 ^ 63"
  shows "strtoll (print_lld n) = (n, [])"
proof -
  have clamp: "clamp_ll n = n" using assms by (simp add: clamp_ll_def)
  have tw: "takeWhile isdigit (nat_str k) = nat_str k" "dropWhile isdigit (nat_str k) = []" for k
    using digits_nat_str [of k] by (simp_all add: takeWhile_eq_all_conv dropWhile_eq_Nil_conv)
  show ?thesis
  proof (cases "n < 0")
    case True
    have "skip_ws (print_lld n) = print_lld n" using True by (simp add: print_lld_def isspace_def)
    with True clamp show ?thesis
      using digits_nat_str [of "nat (- n)"] nat_str_digits [of "nat (- n)"]
      by (simp add: strtoll_def Let_def) (simp add: print_lld_def tw)
  next
    case False
    obtain c q where cq: "nat_str (nat n) = c # q" using nat_str_digits [of "nat n"] by (cases "nat_str (nat n)") auto
    then have c: "isdigit c" and q: "\<forall>x \<in> set q. isdigit x" using digits_nat_str [of "nat n"] by simp_all
    from q have "takeWhile isdigit q = q" "dropWhile isdigit q = []"
      by (simp_all add: takeWhile_eq_all_conv dropWhile_eq_Nil_conv)
    note q = this
    have "skip_ws (print_lld n) = print_lld n" "print_lld n = c # q"
      using False cq isdigit_not [OF c] by (simp_all add: print_lld_def)
    with False clamp cq isdigit_not [OF c] show ?thesis
      using digits_nat_str [of "nat n"] by (simp add: strtoll_def Let_def q)
  qed
qed

section \<open>What is read comes from the text\<close>

text \<open>The decoder only moves forward in the text, so that a text without raw control characters yields none.\<close>

lemma set_skip_ws: "set (skip_ws p) \<subseteq> set p"
  by (induction p) auto

lemma set_skip_ws_Cons: "skip_ws p = c # q \<Longrightarrow> c \<in> set p \<and> set q \<subseteq> set p"
  using set_skip_ws [of p] by auto

lemma set_skip_str_body: "skip_str_body p = Some r \<Longrightarrow> set r \<subseteq> set p"
  by (induction p rule: skip_str_body.induct) (auto split: if_splits)

lemma set_skip_str: "skip_str p = Some r \<Longrightarrow> set r \<subseteq> set p"
  by (cases p) (auto dest: set_skip_str_body split: if_splits)

lemma set_skip_bare: "set (skip_bare p) \<subseteq> set p"
  by (induction p) auto

lemma set_skip_colon: "set (skip_colon p) \<subseteq> set p"
  by (cases p) auto

lemma set_skip_value:
  "skip_value p = Some r \<Longrightarrow> set r \<subseteq> set p"
  "skip_members p = Some r \<Longrightarrow> set r \<subseteq> set p"
  "skip_elems p = Some r \<Longrightarrow> set r \<subseteq> set p"
proof (induction p and p and p arbitrary: r and r and r rule: skip_value_skip_members_skip_elems.induct)
  case (1 p)
  show ?case
  proof (cases "skip_ws p")
    case (Cons c q)
    then have q: "set (c # q) \<subseteq> set p" using set_skip_ws [of p] by simp
    have r: "(if c = CHR 0x22 then skip_str (c # q) else if c = CHR 0x7B then skip_members q
        else if c = CHR ''['' then skip_elems q else Some (skip_bare (c # q))) = Some r"
      using 1(3) Cons by (simp add: skip_value.simps)
    consider "c = CHR 0x22" | "c = CHR 0x7B" | "c = CHR ''[''" | "c \<noteq> CHR 0x22" "c \<noteq> CHR 0x7B" "c \<noteq> CHR ''[''" by blast
    then have "set r \<subseteq> set (c # q)"
    proof cases
      case 1
      then show ?thesis using r set_skip_str [of "c # q" r] by simp
    next
      case 2
      then have "set r \<subseteq> set q" using r "1.IH"(1) [OF Cons, of r] by simp
      then show ?thesis by auto
    next
      case 3
      then have "set r \<subseteq> set q" using r "1.IH"(2) [OF Cons, of r] by simp
      then show ?thesis by auto
    next
      case 4
      then have "r = skip_bare (c # q)" using r by simp
      then show ?thesis using set_skip_bare [of "c # q"] by simp
    qed
    with q show ?thesis by (rule subset_trans [rotated])
  qed (use 1 in \<open>simp add: skip_value.simps\<close>)
next
  case (2 p)
  obtain c q where c: "skip_ws p = c # q" using 2(3) by (subst (asm) skip_members.simps) (auto split: list.splits)
  have q: "set q \<subseteq> set p" using set_skip_ws_Cons [OF c] by simp
  show ?case
  proof (cases "c = CHR 0x22")
    case False
    then show ?thesis using 2(3) c q by (subst (asm) skip_members.simps) (auto split: if_splits)
  next
    case True
    obtain u s d s' where u: "skip_str (c # q) = Some u" and s: "skip_value (skip_colon (skip_ws u)) = Some s" and d: "skip_ws s = d # s'"
      using 2(3) c True by (subst (asm) skip_members.simps) (auto split: option.splits list.splits)
    have "set u \<subseteq> set p" using set_skip_str [OF u] set_skip_ws_Cons [OF c] by auto
    moreover have "set s \<subseteq> set (skip_colon (skip_ws u))" using 2(1) [OF c _ True u s] True by simp
    ultimately have "set s' \<subseteq> set p" using set_skip_ws_Cons [OF d] set_skip_colon [of "skip_ws u"] set_skip_ws [of u] by blast
    moreover have "r = s' \<or> d = CHR '','' \<and> skip_members s' = Some r"
      using 2(3) c True u s d by (subst (asm) skip_members.simps) (auto split: if_splits)
    ultimately show ?thesis using 2(2) [OF c _ True u s d, of r] True by auto
  qed
next
  case (3 p)
  show ?case
  proof (cases "skip_ws p \<noteq> [] \<and> hd (skip_ws p) = CHR '']''")
    case True
    then have "r = tl (skip_ws p)" using 3(3) by (subst (asm) skip_elems.simps) simp
    then show ?thesis using set_skip_ws [of p] True by (cases "skip_ws p") auto
  next
    case False
    obtain s d s' where s: "skip_value (skip_ws p) = Some s" and d: "skip_ws s = d # s'"
      using 3(3) False by (subst (asm) skip_elems.simps) (auto split: option.splits list.splits)
    have "set s' \<subseteq> set p" using 3(1) [OF False s] set_skip_ws_Cons [OF d] set_skip_ws [of p] by blast
    moreover have "r = s' \<or> d = CHR '','' \<and> skip_elems s' = Some r"
      using 3(3) False s d by (subst (asm) skip_elems.simps) (auto split: if_splits)
    ultimately show ?thesis using 3(2) [OF False s d, of r] by auto
  qed
qed

lemma set_obj_get_loop: "obj_get_loop key p = Some (v, n) \<Longrightarrow> set v \<subseteq> set p"
proof (induction key p rule: obj_get_loop.induct)
  case (1 key p)
  obtain c ks ke where c: "skip_ws p = c # ks" "c = CHR 0x22" "skip_str (c # ks) = Some ke"
    using "1.prems" by (subst (asm) obj_get_loop.simps) (auto split: list.splits if_splits option.splits)
  obtain q ve where q: "skip_ws ke = CHR '':'' # q" "skip_value (skip_ws q) = Some ve"
    using "1.prems" c by (subst (asm) obj_get_loop.simps) (auto simp: Let_def split: list.splits if_splits option.splits)
  have "set ke \<subseteq> set p" using set_skip_str [OF c(3)] set_skip_ws_Cons [OF c(1)] by auto
  then have q': "set (skip_ws q) \<subseteq> set p" using set_skip_ws_Cons [OF q(1)] set_skip_ws [of q] by blast
  consider "v = skip_ws q" | r where "skip_ws ve = CHR '','' # r" "obj_get_loop key r = Some (v, n)"
    "\<not> (length key = length ks - length ke - 1 \<and> take (length ks - length ke - 1) ks = key)"
    using "1.prems" c q by (subst (asm) obj_get_loop.simps) (auto simp: Let_def split: list.splits if_splits)
  then show ?case
  proof cases
    case 1
    then show ?thesis using q' by simp
  next
    case (2 r)
    have "set r \<subseteq> set p" using set_skip_ws_Cons [OF 2(1)] set_skip_value(1) [OF q(2)] q' by blast
    moreover have "set v \<subseteq> set r" using "1.IH" [OF c(1) _ _ c(3) refl refl q(1) _ refl q(2) _ 2(1)] c(2) 2 by simp
    ultimately show ?thesis by blast
  qed
qed

lemma set_parse_str_loop:
  "\<forall>c \<in> set p \<union> set out. survives c \<Longrightarrow> \<forall>c \<in> set (parse_str_loop cap p out). survives c"
proof (induction cap p out rule: parse_str_loop.induct)
  case (3 cap c d p out)
  have "survives (unescape d)" using 3(3) by (auto simp: survives_def)
  then have new: "\<forall>x \<in> set (put_char cap (unescape d) out) \<union> set (put_char cap c out). survives x"
    using 3(3) by (auto simp: put_char_def simp del: unescape.simps)
  show ?case
  proof (cases "c = CHR 0x5C")
    case True
    then show ?thesis using 3(1) [OF True] 3(3) new by (simp add: ball_Un del: unescape.simps)
  next
    case False
    then show ?thesis using 3(2) [OF False] 3(3) new by (simp add: ball_Un del: unescape.simps)
  qed
qed (auto simp: put_char_def)

section \<open>Members and elements\<close>

definition plain :: "string \<Rightarrow> bool" where
  "plain k \<longleftrightarrow> (\<forall>c \<in> set k. escape_char c = [c])"

definition raw_key :: "string \<Rightarrow> string" where
  "raw_key k = concat (map escape_char k)"

lemma raw_key_plain: "plain k \<Longrightarrow> raw_key k = k"
  unfolding plain_def raw_key_def by (induction k) (simp_all del: escape_char.simps)

lemma escape_special: "escape_char c \<noteq> [c] \<Longrightarrow> CHR 0x5C \<in> set (escape_char c)"
  by (auto simp: u_escape_def split: if_splits)

lemma raw_key_inj:
  assumes "plain key" "raw_key k = key"
  shows "k = key"
proof -
  have "CHR 0x5C \<notin> set key" using assms(1) unfolding plain_def by (metis escape_special escape_char.simps list.inject not_Cons_self2)
  moreover have "set (escape_char c) \<subseteq> set key" if "c \<in> set k" for c
    using that assms(2) by (auto simp: raw_key_def simp del: escape_char.simps)
  ultimately have "escape_char c = [c]" if "c \<in> set k" for c
    using that escape_special [of c] by blast
  then have "plain k" by (simp add: plain_def del: escape_char.simps)
  with raw_key_plain assms(2) show ?thesis by simp
qed

lemma obj_get_loop_step:
  assumes v: "skip_value (render v @ X) = Some X"
  shows "obj_get_loop key (quote k @ '':'' @ render v @ X) =
    (if raw_key k = key then Some (render v @ X, length (render v))
     else case skip_ws X of [] \<Rightarrow> None | e # r \<Rightarrow> if e = CHR '','' then obj_get_loop key r else None)"
proof -
  let ?Y = "'':'' @ render v @ X"
  have q: "quote k @ ?Y = CHR 0x22 # (raw_key k @ CHR 0x22 # ?Y)" by (simp add: quote_def raw_key_def)
  have s: "skip_str (CHR 0x22 # (raw_key k @ CHR 0x22 # ?Y)) = Some ?Y" using skip_quote [of k ?Y] unfolding q .
  have match: "(length key = length (raw_key k) \<and> take (length (raw_key k)) (raw_key k @ CHR 0x22 # ?Y) = key) \<longleftrightarrow> raw_key k = key"
    by auto
  show ?thesis
    unfolding q using s match v
    by (subst obj_get_loop.simps) (auto simp: Let_def simp del: skip_str.simps)
qed

text \<open>The members of an object under the spelling their keys have in its text.\<close>

definition spelled :: "(string \<times> json) list \<Rightarrow> (string \<times> json) list" where
  "spelled ms = map (\<lambda>(k, v). (raw_key k, v)) ms"

lemma spelled_simps [simp]: "spelled [] = []" "spelled ((k, v) # ms) = (raw_key k, v) # spelled ms"
  by (simp_all add: spelled_def)

lemma map_of_spelled: "plain key \<Longrightarrow> map_of (spelled ms) key = map_of ms key"
proof (induction ms)
  case (Cons m ms)
  have "raw_key (fst m) = key \<longleftrightarrow> fst m = key" using Cons.prems raw_key_plain raw_key_inj by blast
  with Cons show ?case by (cases m) auto
qed simp

lemma obj_get_loop_spelled:
  "case map_of (spelled ms) key of
       None \<Rightarrow> obj_get_loop key (intersperse_commas (map member_text ms) @ [CHR 0x7D] @ rest) = None
     | Some v \<Rightarrow> \<exists>p. obj_get_loop key (intersperse_commas (map member_text ms) @ [CHR 0x7D] @ rest) = Some (p, length (render v)) \<and>
                 take (length (render v)) p = render v"
proof (induction ms)
  case Nil
  show ?case by (subst obj_get_loop.simps) simp
next
  case (Cons m ms)
  obtain k v where m: "m = (k, v)" by (cases m)
  define X where "X = (if ms = [] then [] else '','' @ intersperse_commas (map member_text ms)) @ [CHR 0x7D] @ rest"
  have t: "intersperse_commas (map member_text (m # ms)) @ [CHR 0x7D] @ rest = quote k @ '':'' @ render v @ X"
    by (simp add: intersperse_Cons m member_text_def X_def)
  have v: "skip_value (render v @ X) = Some X" by (intro skip_value_render) (auto simp: X_def)
  note step = obj_get_loop_step [OF v, of key k]
  show ?case
  proof (cases "raw_key k = key")
    case True
    then show ?thesis unfolding t step by (simp add: m)
  next
    case False
    then have loop: "obj_get_loop key (quote k @ '':'' @ render v @ X) =
        (if ms = [] then None else obj_get_loop key (intersperse_commas (map member_text ms) @ [CHR 0x7D] @ rest))"
      unfolding step by (simp add: X_def)
    have "map_of (spelled (m # ms)) key = map_of (spelled ms) key" using False by (simp add: m)
    with Cons.IH show ?thesis unfolding t loop by (cases "ms = []") simp_all
  qed
qed

lemma obj_get_loop_members:
  assumes "plain key"
  shows "case map_of ms key of
       None \<Rightarrow> obj_get_loop key (intersperse_commas (map member_text ms) @ [CHR 0x7D] @ rest) = None
     | Some v \<Rightarrow> \<exists>p. obj_get_loop key (intersperse_commas (map member_text ms) @ [CHR 0x7D] @ rest) = Some (p, length (render v)) \<and>
                 take (length (render v)) p = render v"
  using obj_get_loop_spelled [of key ms rest] by (simp only: map_of_spelled [OF assms])

lemma render_JObj: "render (JObj ms) = [CHR 0x7B] @ intersperse_commas (map member_text ms) @ [CHR 0x7D]"
proof -
  have "member_text = (\<lambda>(k, v). quote k @ '':'' @ render v)" by (auto simp: member_text_def)
  then show ?thesis by simp
qed

text \<open>The loop of a client over an array, at most \<open>n\<close> elements.\<close>

fun arr_walk :: "nat \<Rightarrow> string option \<times> string option \<Rightarrow> string list" where
  "arr_walk 0 r = []"
| "arr_walk (Suc n) (Some e, Some q) = take (length e - length q) e # arr_walk n (nsr_json_arr_next q)"
| "arr_walk (Suc n) _ = []"

lemma arr_next_walk:
  "length vs \<le> n \<Longrightarrow>
     arr_walk n (nsr_json_arr_next ((if vs = [] then [] else '','' @ intersperse_commas (map render vs)) @ '']'' @ rest)) = map render vs"
proof (induction vs arbitrary: n)
  case Nil
  then show ?case by (cases n) (simp_all add: nsr_json_arr_next_def)
next
  case (Cons v vs)
  then obtain k where n: "n = Suc k" "length vs \<le> k" by (cases n) auto
  define X where "X = (if vs = [] then [] else '','' @ intersperse_commas (map render vs)) @ '']'' @ rest"
  have t: "'','' @ intersperse_commas (map render (v # vs)) @ '']'' @ rest = '','' @ render v @ X"
    by (simp add: intersperse_Cons X_def)
  have v: "skip_value (render v @ X) = Some X" by (intro skip_value_render) (auto simp: X_def)
  have "nsr_json_arr_next ('','' @ render v @ X) = (Some (render v @ X), Some X)"
    by (simp add: nsr_json_arr_next_def v Let_def)
  then have "arr_walk n (nsr_json_arr_next ('','' @ render v @ X)) = render v # arr_walk k (nsr_json_arr_next X)"
    by (simp add: n)
  then show ?case using Cons.IH [OF n(2)] t by (simp add: X_def)
qed

lemma arr_first_walk:
  assumes "length vs \<le> n"
  shows "arr_walk n (nsr_json_arr_first (render (JArr vs) @ rest)) = map render vs"
proof (cases vs)
  case Nil
  then show ?thesis by (cases n) (simp_all add: nsr_json_arr_first_def Let_def)
next
  case (Cons v ws)
  then obtain k where n: "n = Suc k" "length ws \<le> k" using assms by (cases n) auto
  define X where "X = (if ws = [] then [] else '','' @ intersperse_commas (map render ws)) @ '']'' @ rest"
  have t: "render (JArr vs) @ rest = ''['' @ render v @ X" by (simp add: Cons intersperse_Cons X_def)
  have v: "skip_value (render v @ X) = Some X" by (intro skip_value_render) (auto simp: X_def)
  obtain c q where r: "render v = c # q" "c \<noteq> CHR '']''" using render_hd by blast
  then have "hd (render v @ X) \<noteq> CHR '']''" by simp
  then have "nsr_json_arr_first (''['' @ render v @ X) = (Some (render v @ X), Some X)"
    by (simp add: nsr_json_arr_first_def v Let_def)
  then have walk: "arr_walk n (nsr_json_arr_first (''['' @ render v @ X)) = render v # arr_walk k (nsr_json_arr_next X)"
    by (simp add: n)
  show ?thesis unfolding t walk using arr_next_walk [OF n(2), of rest, folded X_def] by (simp add: Cons)
qed

section \<open>Properties\<close>

text \<open>
  C16: Looking up any key in an encoded object finds the text of the first member whose key is
  spelled like it in the text, escapes included, and nothing when there is none.  For a key that
  needs no escaping this is the first member with that key.  (A key that does need escaping, such as
  one with a quotation mark, is thus never found under its own name.)
\<close>

theorem obj_get_finds_member:
  "(case map_of (spelled ms) key of
       None \<Rightarrow> nsr_json_obj_get (render (JObj ms) @ rest) key = None
     | Some v \<Rightarrow> \<exists>p. nsr_json_obj_get (render (JObj ms) @ rest) key = Some (p, length (render v)) \<and>
                 take (length (render v)) p = render v) \<and>
   (plain key \<longrightarrow> map_of (spelled ms) key = map_of ms key)"
proof -
  have "nsr_json_obj_get (render (JObj ms) @ rest) key =
      obj_get_loop key (intersperse_commas (map member_text ms) @ [CHR 0x7D] @ rest)"
    unfolding render_JObj nsr_json_obj_get_def by simp
  with obj_get_loop_spelled [of key ms rest] map_of_spelled [of key ms] show ?thesis by (intro conjI impI) (simp_all only:)
qed

theorem obj_get_finds_member_witness:
  "(\<exists>p. nsr_json_obj_get (render ex_doc @ []) ''id'' = Some (p, length (render (JInt (- 7)))) \<and>
     take (length (render (JInt (- 7)))) p = render (JInt (- 7))) \<and>
   nsr_json_obj_get (render (JObj [([CHR 0x22], JNull)]) @ []) [CHR 0x22] = None"
proof -
  have "plain ''id''" by (simp add: plain_def)
  then have "map_of (spelled [(''method'', JStr ''tick''), (''id'', JInt (- 7)), (''ok'', JArr [JBool True, JNull])]) ''id'' = Some (JInt (- 7))"
    by (simp only: map_of_spelled) simp
  moreover have "map_of (spelled [([CHR 0x22], JNull)]) [CHR 0x22] = None" by (simp add: raw_key_def)
  ultimately show ?thesis
    using obj_get_finds_member [of "[(''method'', JStr ''tick''), (''id'', JInt (- 7)), (''ok'', JArr [JBool True, JNull])]" "[]" "''id''"]
      obj_get_finds_member [of "[([CHR 0x22], JNull)]" "[]" "[CHR 0x22]"]
    unfolding ex_doc_def by (simp del: render.simps spelled_simps)
qed

text \<open>
  C17: Scalars read back: a string without the control characters that need a \<open>\u00xx\<close> escape
  is decoded to itself, cut to the output array, and every 64-bit integer and boolean is decoded to itself.
\<close>

theorem scalar_roundtrip:
  assumes "\<forall>c \<in> set s. survives c" "0 < out_len" "- (2 ^ 63) \<le> n" "n < 2 ^ 63"
  shows "nsr_json_parse_str (render (JStr s)) out_len = Some (take (out_len - 1) s) \<and>
     nsr_json_parse_int (render (JInt n)) = (True, Some n) \<and>
     nsr_json_parse_bool (render (JBool b)) = Some b"
  using parse_quote [OF assms(1,2)] strtoll_print [OF assms(3,4)] length_print_lld [OF assms(3,4)]
  by (simp add: nsr_json_parse_int_def nsr_json_parse_bool_def)

theorem scalar_roundtrip_witness:
  "nsr_json_parse_str (render (JStr [CHR ''a'', CHR 0x22, CHR 0x0A])) 48 = Some (take (48 - 1) [CHR ''a'', CHR 0x22, CHR 0x0A]) \<and>
   nsr_json_parse_int (render (JInt (- 9223372036854775808))) = (True, Some (- 9223372036854775808)) \<and>
   nsr_json_parse_bool (render (JBool False)) = Some False"
  by (rule scalar_roundtrip) (simp_all add: survives_def)

text \<open>
  A string with any other control character does not read back: the encoder writes it as
  \<open>\u00xx\<close>, and the decoder, which has no case for that escape, returns the characters
  \<open>u00xx\<close> instead.
\<close>

lemma control_char_roundtrip_fails:
  assumes "\<not> survives c" "5 < out_len"
  shows "nsr_json_parse_str (render (JStr [c])) out_len =
     Some [CHR ''u'', CHR ''0'', CHR ''0'', hex_digit (of_char c div 16), hex_digit (of_char c mod 16)]"
proof -
  have lt: "(of_char c :: nat) < 32" and nc: "c \<notin> {CHR 0x08, CHR 0x0C, CHR 0x0A, CHR 0x0D, CHR 0x09}"
    using assms(1) by (auto simp: survives_def)
  have "c \<noteq> CHR 0x22" "c \<noteq> CHR 0x5C" using lt by auto
  with nc lt have esc: "escape_char c = u_escape c" by simp
  have h: "hex_digit (of_char c div 16) \<noteq> CHR 0x5C" "hex_digit (of_char c mod 16) \<noteq> CHR 0x5C"
    using hex_digit_plain [of "of_char c div 16"] hex_digit_plain [of "of_char c mod 16"] lt
    by (simp_all add: div_less_iff_less_mult)
  have q: "quote [c] = [CHR 0x22] @ u_escape c @ [CHR 0x22]" by (simp add: quote_def esc del: escape_char.simps)
  obtain m where m: "out_len = Suc m" "5 \<le> m" using assms(2) by (cases out_len) auto
  have "Suc 0 < m" "Suc (Suc 0) < m" "Suc (Suc (Suc 0)) < m" "Suc (Suc (Suc (Suc 0))) < m" "0 < m" using m(2) by auto
  with h show ?thesis
    unfolding render.simps q
    by (simp add: nsr_json_parse_str_def u_escape_def parse_str_loop_plain put_char_def size_dec_def m(1))
qed

end
