(* ===== verification/Json_Rpc.thy ===== *)
theory Json_Rpc
  imports Json_Roundtrip "HOL-Library.Signed_Division"
begin

text \<open>
  The JSON-RPC channel to a plugin process, \<open>src/json/json_rpc.c\<close>: framing and sending of
  requests and notifications, the line reader with its deadline, and the receive functions
  built on it.

  The kernel's side of the channel is part of the state: for every system call the list of the
  results its next calls return, and the bytes that went each way so far.  Past the end of a
  list the call fails (\<open>clock_gettime\<close> and \<open>write\<close> with an error, \<open>poll\<close> and \<open>read\<close> with an error
  other than \<open>EINTR\<close>, \<open>waitpid\<close> reports that the child is gone), so that every finite run of the
  program is covered by lists that are long enough.

  A received buffer is represented by its text; requests are built with the encoder's
  operations.  \<open>next_id\<close> is a C \<open>int\<close> that is incremented once per request.  The member
  \<open>rpc_overflowed\<close> has no counterpart in the source: it records that an increment since the channel
  was opened has left the range of \<open>int\<close>, after which C promises nothing.
\<close>

section \<open>The kernel's side\<close>

record timespec =
  tv_sec :: int
  tv_nsec :: int

datatype write_res = Wrote nat | Write_EINTR | Write_err

datatype poll_res = Poll_ready | Poll_timeout | Poll_EINTR | Poll_err

text \<open>\<open>Read_data []\<close> is the end of file.\<close>

datatype read_res = Read_data string | Read_EINTR | Read_err

record os =
  os_clock :: "timespec option list"
  os_write :: "write_res list"
  os_poll :: "poll_res list"
  os_read :: "read_res list"
  os_wait :: "bool list"
  os_sent :: string
  os_got :: string

record nsr_json_rpc =
  rpc_pid :: int
  rpc_in :: int
  rpc_out :: int
  rpc_next_id :: int
  rpc_overflowed :: bool
  rpc_pending_id :: int
  rpc_dead :: bool
  rpc_rx_buf :: string
  rpc_os :: os

definition sys_clock :: "nsr_json_rpc \<Rightarrow> timespec option \<times> nsr_json_rpc" where
  "sys_clock r =
     (case os_clock (rpc_os r) of [] \<Rightarrow> None | t # _ \<Rightarrow> t,
      r\<lparr>rpc_os := (rpc_os r)\<lparr>os_clock := tl (os_clock (rpc_os r))\<rparr>\<rparr>)"

definition sys_poll :: "nsr_json_rpc \<Rightarrow> poll_res \<times> nsr_json_rpc" where
  "sys_poll r =
     (case os_poll (rpc_os r) of [] \<Rightarrow> Poll_err | p # _ \<Rightarrow> p,
      r\<lparr>rpc_os := (rpc_os r)\<lparr>os_poll := tl (os_poll (rpc_os r))\<rparr>\<rparr>)"

text \<open>At most 4096 bytes are read at a time; the bytes are noted in \<open>os_got\<close>.\<close>

definition read_bytes :: "read_res \<Rightarrow> string" where
  "read_bytes x = (case x of Read_data s \<Rightarrow> s | _ \<Rightarrow> [])"

definition sys_read :: "nsr_json_rpc \<Rightarrow> read_res \<times> nsr_json_rpc" where
  "sys_read r =
     (let x = (case os_read (rpc_os r) of [] \<Rightarrow> Read_err | Read_data s # _ \<Rightarrow> Read_data (take 4096 s) | x # _ \<Rightarrow> x)
      in (x, r\<lparr>rpc_os := (rpc_os r)\<lparr>os_read := tl (os_read (rpc_os r)), os_got := os_got (rpc_os r) @ read_bytes x\<rparr>\<rparr>))"

definition sys_waitpid :: "nsr_json_rpc \<Rightarrow> bool \<times> nsr_json_rpc" where
  "sys_waitpid r =
     (case os_wait (rpc_os r) of [] \<Rightarrow> True | b # _ \<Rightarrow> b,
      r\<lparr>rpc_os := (rpc_os r)\<lparr>os_wait := tl (os_wait (rpc_os r))\<rparr>\<rparr>)"

section \<open>Opening and closing\<close>

text \<open>
  What \<open>pipe\<close>, \<open>fork\<close> and the child bring: nothing, or a process id, the two descriptors the
  parent keeps and the kernel's side of the new channel.
\<close>

datatype spawn_res = Spawn_failed | Spawned int int int os

definition nsr_json_rpc_spawn :: "spawn_res \<Rightarrow> os \<Rightarrow> bool \<times> nsr_json_rpc" where
  "nsr_json_rpc_spawn sp old =
     (let rpc = \<lparr>rpc_pid = 0, rpc_in = 0, rpc_out = 0, rpc_next_id = 1, rpc_overflowed = False, rpc_pending_id = -1, rpc_dead = False,
                 rpc_rx_buf = [], rpc_os = old\<rparr>
      in case sp of
           Spawn_failed \<Rightarrow> (False, rpc)
         | Spawned pid fd_in fd_out ch \<Rightarrow>
             (True, rpc\<lparr>rpc_pid := pid, rpc_in := fd_in, rpc_out := fd_out, rpc_os := ch\<rparr>))"

definition nsr_json_rpc_close :: "nsr_json_rpc \<Rightarrow> nsr_json_rpc" where
  "nsr_json_rpc_close r =
     r\<lparr>rpc_in := (if rpc_in r \<ge> 0 then -1 else rpc_in r),
       rpc_out := (if rpc_out r \<ge> 0 then -1 else rpc_out r),
       rpc_pid := (if rpc_pid r > 0 then 0 else rpc_pid r),
       rpc_rx_buf := [], rpc_dead := True, rpc_pending_id := -1\<rparr>"

section \<open>Sending\<close>

fun write_loop :: "string \<Rightarrow> write_res list \<Rightarrow> string \<Rightarrow> bool \<times> write_res list \<times> string" where
  "write_loop [] ws sent = (True, ws, sent)"
| "write_loop (c # s) [] sent = (False, [], sent)"
| "write_loop (c # s) (Write_EINTR # ws) sent = write_loop (c # s) ws sent"
| "write_loop (c # s) (Write_err # ws) sent = (False, ws, sent)"
| "write_loop (c # s) (Wrote n # ws) sent =
     (if n = 0 then (False, ws, sent)
      else write_loop (drop n (c # s)) ws (sent @ take n (c # s)))"

text \<open>The final \<open>write\<close> of the newline is not retried.\<close>

definition write_newline :: "write_res list \<Rightarrow> string \<Rightarrow> bool \<times> write_res list \<times> string" where
  "write_newline ws sent =
     (case ws of
        [] \<Rightarrow> (False, [], sent)
      | Wrote n # ws' \<Rightarrow> if n = 0 then (False, ws', sent) else (True, ws', sent @ [CHR 0x0A])
      | _ # ws' \<Rightarrow> (False, ws', sent))"

definition rpc_send :: "nsr_json_rpc \<Rightarrow> string \<Rightarrow> bool \<times> nsr_json_rpc" where
  "rpc_send r s =
     (if rpc_dead r \<or> rpc_in r < 0 then (False, r)
      else case write_loop s (os_write (rpc_os r)) (os_sent (rpc_os r)) of
        (False, ws, sent) \<Rightarrow> (False, r\<lparr>rpc_dead := True, rpc_os := (rpc_os r)\<lparr>os_write := ws, os_sent := sent\<rparr>\<rparr>)
      | (True, ws, sent) \<Rightarrow>
          (case write_newline ws sent of
             (ok, ws, sent) \<Rightarrow>
               (ok, r\<lparr>rpc_dead := \<not> ok, rpc_os := (rpc_os r)\<lparr>os_write := ws, os_sent := sent\<rparr>\<rparr>)))"

text \<open>The members up to \<open>params\<close> come from the caller of this part of both builders.\<close>

definition build_params :: "nsr_json_buf option \<Rightarrow> nsr_json_buf \<Rightarrow> nsr_json_buf option" where
  "build_params params req =
     do { req \<leftarrow> nsr_json_key req ''params'';
          req \<leftarrow> (case params of
                    Some p \<Rightarrow> if jb_len p > 0 then nsr_json_append_raw req (jb_text p)
                              else do { req \<leftarrow> nsr_json_obj_start req; nsr_json_obj_end req }
                  | None \<Rightarrow> do { req \<leftarrow> nsr_json_obj_start req; nsr_json_obj_end req });
          nsr_json_obj_end req }"

definition build_request :: "string \<Rightarrow> nsr_json_buf option \<Rightarrow> int \<Rightarrow> nsr_json_buf option" where
  "build_request method params ident =
     do { req \<leftarrow> nsr_json_init;
          req \<leftarrow> nsr_json_obj_start req;
          req \<leftarrow> nsr_json_key req ''jsonrpc'';
          req \<leftarrow> nsr_json_string req (Some ''2.0'');
          req \<leftarrow> nsr_json_key req ''id'';
          req \<leftarrow> nsr_json_int req ident;
          req \<leftarrow> nsr_json_key req ''method'';
          req \<leftarrow> nsr_json_string req (Some method);
          build_params params req }"

definition build_notification :: "string \<Rightarrow> nsr_json_buf option \<Rightarrow> nsr_json_buf option" where
  "build_notification method params =
     do { req \<leftarrow> nsr_json_init;
          req \<leftarrow> nsr_json_obj_start req;
          req \<leftarrow> nsr_json_key req ''jsonrpc'';
          req \<leftarrow> nsr_json_string req (Some ''2.0'');
          req \<leftarrow> nsr_json_key req ''method'';
          req \<leftarrow> nsr_json_string req (Some method);
          build_params params req }"

text \<open>
  The C string of a finished document.  The encoder never fails on these documents (see
  below), so the other cases do not occur.
\<close>

definition doc_cstr :: "nsr_json_buf option \<Rightarrow> string" where
  "doc_cstr b = (case b of None \<Rightarrow> [] | Some jb \<Rightarrow> (case nsr_json_cstr jb of None \<Rightarrow> [] | Some s \<Rightarrow> s))"

text \<open>The second component is what is stored through \<open>id_out\<close>.\<close>

definition nsr_json_rpc_send_request ::
    "nsr_json_rpc \<Rightarrow> string \<Rightarrow> nsr_json_buf option \<Rightarrow> bool \<times> int option \<times> nsr_json_rpc" where
  "nsr_json_rpc_send_request r method params =
     (if rpc_dead r \<or> rpc_in r < 0 then (False, None, r)
      else let ident = rpc_next_id r;
               r = r\<lparr>rpc_next_id := c_int (ident + 1), rpc_overflowed := rpc_overflowed r \<or> c_int (ident + 1) \<noteq> ident + 1,
                     rpc_pending_id := ident\<rparr>
           in case rpc_send r (doc_cstr (build_request method params ident)) of
                (True, r) \<Rightarrow> (True, Some ident, r)
              | (False, r) \<Rightarrow> (False, Some ident, r\<lparr>rpc_pending_id := -1\<rparr>))"

definition nsr_json_rpc_notify :: "nsr_json_rpc \<Rightarrow> string \<Rightarrow> nsr_json_buf option \<Rightarrow> bool \<times> nsr_json_rpc" where
  "nsr_json_rpc_notify r method params = rpc_send r (doc_cstr (build_notification method params))"

section \<open>Receiving\<close>

definition add_ms :: "timespec \<Rightarrow> int \<Rightarrow> timespec" where
  "add_ms t ms =
     (let sec = tv_sec t + ms div 1000; nsec = tv_nsec t + (ms mod 1000) * 1000000
      in if nsec \<ge> 1000000000 then \<lparr>tv_sec = sec + 1, tv_nsec = nsec - 1000000000\<rparr>
         else \<lparr>tv_sec = sec, tv_nsec = nsec\<rparr>)"

definition ms_left :: "timespec \<Rightarrow> timespec \<Rightarrow> int" where
  "ms_left deadline now =
     (tv_sec deadline - tv_sec now) * 1000 + (tv_nsec deadline - tv_nsec now) sdiv 1000000"

text \<open>The check before \<open>poll\<close> and the one after a \<open>poll\<close> that timed out: \<open>True\<close> to go on.\<close>

definition before_poll :: "timespec option \<Rightarrow> nsr_json_rpc \<Rightarrow> bool \<times> nsr_json_rpc" where
  "before_poll deadline r =
     (case deadline of
        None \<Rightarrow> (True, r)
      | Some d \<Rightarrow>
          (case sys_clock r of
             (None, r) \<Rightarrow> (False, r)
           | (Some now, r) \<Rightarrow> (ms_left d now > 0, r)))"

definition after_timeout :: "timespec option \<Rightarrow> nsr_json_rpc \<Rightarrow> bool \<times> nsr_json_rpc" where
  "after_timeout deadline r =
     (case deadline of
        None \<Rightarrow> (True, r)
      | Some d \<Rightarrow>
          (case sys_clock r of
             (None, r) \<Rightarrow> (False, r)
           | (Some now, r) \<Rightarrow>
               (\<not> (tv_sec now > tv_sec d \<or> tv_sec now = tv_sec d \<and> tv_nsec now \<ge> tv_nsec d), r)))"

definition split_line :: "string \<Rightarrow> (string \<times> string) option" where
  "split_line s =
     (if CHR 0x0A \<in> set s then Some (takeWhile (\<lambda>c. c \<noteq> CHR 0x0A) s, tl (dropWhile (\<lambda>c. c \<noteq> CHR 0x0A) s))
      else None)"

text \<open>What one turn of the loop does after \<open>poll\<close>: return \<open>false\<close>, or go round again.\<close>

definition after_poll :: "timespec option \<Rightarrow> poll_res \<Rightarrow> nsr_json_rpc \<Rightarrow> bool \<times> nsr_json_rpc" where
  "after_poll deadline p r =
     (case p of
        Poll_EINTR \<Rightarrow> (True, r)
      | Poll_err \<Rightarrow> (False, r\<lparr>rpc_dead := True\<rparr>)
      | Poll_timeout \<Rightarrow>
          (case after_timeout deadline r of
             (False, r) \<Rightarrow> (False, r)
           | (True, r) \<Rightarrow>
               (case sys_waitpid r of
                  (True, r) \<Rightarrow> (False, r\<lparr>rpc_dead := True\<rparr>)
                | (False, r) \<Rightarrow> (True, r)))
      | Poll_ready \<Rightarrow>
          (case sys_read r of
             (Read_EINTR, r) \<Rightarrow> (True, r)
           | (Read_err, r) \<Rightarrow> (False, r\<lparr>rpc_dead := True\<rparr>)
           | (Read_data s, r) \<Rightarrow>
               if s = [] then (False, r\<lparr>rpc_dead := True\<rparr>)
               else (True, r\<lparr>rpc_rx_buf := rpc_rx_buf r @ s\<rparr>)))"

text \<open>What each call leaves unchanged.\<close>

lemma sys_clockD: "sys_clock r = (t, r') \<Longrightarrow> r' = r\<lparr>rpc_os := (rpc_os r)\<lparr>os_clock := tl (os_clock (rpc_os r))\<rparr>\<rparr>"
  by (simp add: sys_clock_def)

lemma sys_waitpidD: "sys_waitpid r = (b, r') \<Longrightarrow> r' = r\<lparr>rpc_os := (rpc_os r)\<lparr>os_wait := tl (os_wait (rpc_os r))\<rparr>\<rparr>"
  by (simp add: sys_waitpid_def)

lemma sys_pollD:
  "sys_poll r = (p, r') \<Longrightarrow> r' = r\<lparr>rpc_os := (rpc_os r)\<lparr>os_poll := tl (os_poll (rpc_os r))\<rparr>\<rparr> \<and>
     (os_poll (rpc_os r) = [] \<longrightarrow> p = Poll_err)"
  by (auto simp: sys_poll_def)

lemma sys_readD:
  "sys_read r = (x, r') \<Longrightarrow> r' = r\<lparr>rpc_os := (rpc_os r)\<lparr>os_read := tl (os_read (rpc_os r)),
     os_got := os_got (rpc_os r) @ read_bytes x\<rparr>\<rparr>"
  by (auto simp: sys_read_def Let_def)

lemma before_pollD: "before_poll d r = (b, r') \<Longrightarrow> r' = r \<or> r' = r\<lparr>rpc_os := (rpc_os r)\<lparr>os_clock := tl (os_clock (rpc_os r))\<rparr>\<rparr>"
  by (auto simp: before_poll_def split: option.splits prod.splits dest: sys_clockD)

lemma after_timeoutD: "after_timeout d r = (b, r') \<Longrightarrow> r' = r \<or> r' = r\<lparr>rpc_os := (rpc_os r)\<lparr>os_clock := tl (os_clock (rpc_os r))\<rparr>\<rparr>"
  by (auto simp: after_timeout_def split: option.splits prod.splits dest: sys_clockD)

text \<open>A turn of the loop adds what it read to the buffer, and ends with the channel dead unless time ran out.\<close>

definition turn :: "nsr_json_rpc \<Rightarrow> nsr_json_rpc \<Rightarrow> bool" where
  "turn r r' \<longleftrightarrow>
     (\<exists>s. rpc_rx_buf r' = rpc_rx_buf r @ s \<and> os_got (rpc_os r') = os_got (rpc_os r) @ s) \<and>
     os_sent (rpc_os r') = os_sent (rpc_os r) \<and> os_write (rpc_os r') = os_write (rpc_os r) \<and>
     rpc_pid r' = rpc_pid r \<and> rpc_in r' = rpc_in r \<and> rpc_out r' = rpc_out r \<and>
     rpc_next_id r' = rpc_next_id r \<and> rpc_overflowed r' = rpc_overflowed r \<and> rpc_pending_id r' = rpc_pending_id r"

lemma after_pollD:
  assumes "after_poll d p r = (b, r')"
  shows "turn r r' \<and> os_poll (rpc_os r') = os_poll (rpc_os r) \<and> (b \<longrightarrow> p \<noteq> Poll_err \<and> rpc_dead r' = rpc_dead r)"
proof (cases p)
  case Poll_ready
  obtain x r1 where x: "sys_read r = (x, r1)" by force
  from sys_readD [OF x] assms x Poll_ready show ?thesis
    by (cases x) (auto simp: after_poll_def turn_def read_bytes_def split: if_splits)
next
  case Poll_timeout
  obtain c r1 where c: "after_timeout d r = (c, r1)" by force
  obtain g r2 where g: "sys_waitpid r1 = (g, r2)" by force
  from after_timeoutD [OF c] sys_waitpidD [OF g] assms c g Poll_timeout show ?thesis
    by (cases c; cases g) (auto simp: after_poll_def turn_def)
qed (use assms in \<open>auto simp: after_poll_def turn_def\<close>)

lemma after_poll_stop: "after_poll d p r = (False, r') \<Longrightarrow> rpc_rx_buf r' = rpc_rx_buf r"
  by (auto simp: after_poll_def split: poll_res.splits prod.splits bool.splits read_res.splits if_splits
      dest!: after_timeoutD sys_waitpidD sys_readD)

lemma length_tl_less: "xs \<noteq> [] \<Longrightarrow> length (tl xs) < length xs"
  by (cases xs) auto

function recv_loop :: "timespec option \<Rightarrow> nsr_json_rpc \<Rightarrow> string option \<times> nsr_json_rpc" where
  "recv_loop deadline r =
     (case split_line (rpc_rx_buf r) of
        Some (line, rest) \<Rightarrow> (Some line, r\<lparr>rpc_rx_buf := rest\<rparr>)
      | None \<Rightarrow>
          (case before_poll deadline r of
             (False, r1) \<Rightarrow> (None, r1)
           | (True, r1) \<Rightarrow>
               (case sys_poll r1 of
                  (p, r2) \<Rightarrow>
                    (case after_poll deadline p r2 of
                       (False, r3) \<Rightarrow> (None, r3)
                     | (True, r3) \<Rightarrow> recv_loop deadline r3))))"
  by pat_completeness auto
termination recv_loop
proof (relation "measure (\<lambda>(d, r). length (os_poll (rpc_os r)))", goal_cases)
  case 1
  show ?case by simp
next
  case 2
  then show ?case
    by (auto dest!: before_pollD [OF sym] sys_pollD [OF sym] after_pollD [OF sym] simp: length_tl_less)
qed

declare recv_loop.simps [simp del]

definition recv_line :: "nsr_json_rpc \<Rightarrow> int \<Rightarrow> string option \<times> nsr_json_rpc" where
  "recv_line r timeout_ms =
     (if timeout_ms \<ge> 0 then
        (case sys_clock r of
           (None, r) \<Rightarrow> (None, r)
         | (Some t, r) \<Rightarrow> recv_loop (Some (add_ms t timeout_ms)) r)
      else recv_loop None r)"

text \<open>A received line as a C string, and the identifier it carries, or \<open>-1\<close>.\<close>

definition c_text :: "string \<Rightarrow> string" where
  "c_text s = takeWhile (\<lambda>c. c \<noteq> CHR 0x00) s"

definition response_id :: "string \<Rightarrow> int" where
  "response_id line =
     (case nsr_json_obj_get (c_text line) ''id'' of
        None \<Rightarrow> -1
      | Some (idv, len) \<Rightarrow> (case snd (nsr_json_parse_int (take len idv)) of None \<Rightarrow> -1 | Some n \<Rightarrow> n))"

text \<open>
  The loop of \<open>nsr_json_rpc_try_recv_response\<close>.  Its callers pass a non-negative timeout, so
  that the budget left is never negative and the case of an unlimited wait does not arise.
\<close>

function try_recv_loop :: "nat \<Rightarrow> nsr_json_rpc \<Rightarrow> string option \<times> nsr_json_rpc" where
  "try_recv_loop deadline r =
     (let slice = min deadline 50
      in case recv_line r (int slice) of
           (None, r) \<Rightarrow>
             if deadline - slice = 0 then (None, r)
             else if rpc_dead r then (None, r)
             else try_recv_loop (deadline - slice) r
         | (Some line, r) \<Rightarrow>
             if response_id line = rpc_pending_id r then (Some line, r\<lparr>rpc_pending_id := -1\<rparr>)
             else if deadline - slice = 0 then (None, r)
             else try_recv_loop (deadline - slice) r)"
  by pat_completeness auto
termination try_recv_loop
  by (relation "measure fst") auto

declare try_recv_loop.simps [simp del]

definition nsr_json_rpc_try_recv_response :: "nsr_json_rpc \<Rightarrow> nat \<Rightarrow> string option \<times> nsr_json_rpc" where
  "nsr_json_rpc_try_recv_response r timeout_ms =
     (if rpc_dead r \<or> rpc_out r < 0 \<or> rpc_pending_id r < 0 then (None, r) else try_recv_loop timeout_ms r)"

definition nsr_json_rpc_try_recv_any :: "nsr_json_rpc \<Rightarrow> int \<Rightarrow> (string \<times> int) option \<times> nsr_json_rpc" where
  "nsr_json_rpc_try_recv_any r timeout_ms =
     (if rpc_dead r \<or> rpc_out r < 0 then (None, r)
      else case recv_line r timeout_ms of
        (None, r) \<Rightarrow> (None, r)
      | (Some line, r) \<Rightarrow> (Some (line, response_id line), r))"

fun discard_loop :: "nat \<Rightarrow> nsr_json_rpc \<Rightarrow> nsr_json_rpc" where
  "discard_loop 0 r = r"
| "discard_loop (Suc n) r =
     (case sys_poll r of
        (Poll_EINTR, r) \<Rightarrow> discard_loop n r
      | (Poll_err, r) \<Rightarrow> r\<lparr>rpc_dead := True\<rparr>
      | (Poll_timeout, r) \<Rightarrow> r
      | (Poll_ready, r) \<Rightarrow>
          (case sys_read r of
             (Read_EINTR, r) \<Rightarrow> discard_loop n r
           | (Read_err, r) \<Rightarrow> r\<lparr>rpc_dead := True\<rparr>
           | (Read_data s, r) \<Rightarrow> if s = [] then r\<lparr>rpc_dead := True\<rparr> else discard_loop n r))"

definition nsr_json_rpc_discard_queued :: "nsr_json_rpc \<Rightarrow> nsr_json_rpc" where
  "nsr_json_rpc_discard_queued r =
     (let r = r\<lparr>rpc_rx_buf := []\<rparr>
      in if rpc_dead r \<or> rpc_out r < 0 then r else discard_loop 64 r)"

definition nsr_json_rpc_call :: "nsr_json_rpc \<Rightarrow> string \<Rightarrow> nsr_json_buf option \<Rightarrow> nat \<Rightarrow> string option \<times> nsr_json_rpc" where
  "nsr_json_rpc_call r method params timeout_ms =
     (case nsr_json_rpc_send_request r method params of
        (False, _, r) \<Rightarrow> (None, r)
      | (True, _, r) \<Rightarrow> nsr_json_rpc_try_recv_response r timeout_ms)"

section \<open>Documents sent\<close>

text \<open>The text of a value has neither a newline nor a NUL: one line is one document.\<close>

definition clean :: "string \<Rightarrow> bool" where
  "clean s \<longleftrightarrow> (\<forall>c \<in> set s. 32 \<le> (of_char c :: nat))"

lemma clean_simps [simp]:
  "clean []" "clean (c # s) \<longleftrightarrow> 32 \<le> (of_char c :: nat) \<and> clean s" "clean (s @ t) \<longleftrightarrow> clean s \<and> clean t"
  by (auto simp: clean_def)

lemma cleanD: "clean s \<Longrightarrow> CHR 0x0A \<notin> set s \<and> CHR 0x00 \<notin> set s"
  by (auto simp: clean_def)

lemma clean_hex_digit: "h < 16 \<Longrightarrow> 32 \<le> (of_char (hex_digit h) :: nat)"
  by (simp add: hex_digit_def)

lemma clean_escape_char: "clean (escape_char c)"
proof (cases "(of_char c :: nat) < 32")
  case True
  then have "clean (u_escape c)"
    using clean_hex_digit [of "of_char c div 16"] clean_hex_digit [of "of_char c mod 16"] by (simp add: u_escape_def)
  then show ?thesis by simp
qed auto

lemma clean_quote [simp]: "clean (quote s)"
  using clean_escape_char by (induction s) (auto simp: quote_def)

lemma clean_number: "\<forall>c \<in> set s. is_number_char c \<Longrightarrow> clean s"
  by (auto simp: clean_def is_number_char_def is_digit_def)

lemma clean_commas: "(\<And>s. s \<in> set ss \<Longrightarrow> clean s) \<Longrightarrow> clean (intersperse_commas ss)"
  by (induction ss rule: intersperse_commas.induct) auto

lemma clean_render [simp]: "clean (render v)"
proof (induction v)
  case (JArr vs)
  then have "clean (intersperse_commas (map render vs))" by (intro clean_commas) auto
  then show ?case by simp
next
  case (JObj ms)
  then have "clean (quote k @ '':'' @ render v)" if "(k, v) \<in> set ms" for k v
    using that by (fastforce intro: snds.intros)
  then have "clean (intersperse_commas (map (\<lambda>(k, v). quote k @ '':'' @ render v) ms))" by (intro clean_commas) auto
  then show ?case by simp
qed (use clean_number number_chars in \<open>auto split: if_splits\<close>)

text \<open>The documents of requests and notifications.\<close>

definition request_doc :: "string \<Rightarrow> json \<Rightarrow> int \<Rightarrow> json" where
  "request_doc method v ident =
     JObj [(''jsonrpc'', JStr ''2.0''), (''id'', JInt ident), (''method'', JStr method), (''params'', v)]"

definition notification_doc :: "string \<Rightarrow> json \<Rightarrow> json" where
  "notification_doc method v = JObj [(''jsonrpc'', JStr ''2.0''), (''method'', JStr method), (''params'', v)]"

text \<open>A params argument that stands for the value \<open>v\<close>.\<close>

definition params_ok :: "nsr_json_buf option \<Rightarrow> json \<Rightarrow> bool" where
  "params_ok params v \<longleftrightarrow>
     (case params of Some p \<Rightarrow> jb_inv p \<and> (jb_text p = render v \<or> jb_text p = [] \<and> v = JObj []) | None \<Rightarrow> v = JObj [])"

lemma jb_len_text: "jb_inv jb \<Longrightarrow> jb_len jb = length (jb_text jb)"
  by (simp add: jb_inv_def jb_text_def)

lemma appends_params:
  assumes "params_ok params v"
  shows "appends (build_params params) (\<lambda>t. comma t @ quote ''params'' @ '':'' @ render v @ [CHR 0x7D])"
proof -
  let ?W = "\<lambda>req. case params of
      Some p \<Rightarrow> if jb_len p > 0 then nsr_json_append_raw req (jb_text p)
                else nsr_json_obj_start req \<bind> nsr_json_obj_end
    | None \<Rightarrow> nsr_json_obj_start req \<bind> nsr_json_obj_end"
  have empty: "appends (\<lambda>req. nsr_json_obj_start req \<bind> nsr_json_obj_end) (\<lambda>t. comma t @ render (JObj []))"
    by (rule appends_eq [OF appends_bind [OF appends_tokens(1,2)]]) simp
  obtain c where W: "appends ?W (\<lambda>t. (if c then comma t else []) @ render v)"
  proof (cases "\<exists>p. params = Some p \<and> jb_len p > 0")
    case True
    then obtain p where p: "params = Some p" "jb_len p > 0" by blast
    then have "jb_text p = render v" using assms jb_len_text [of p] by (auto simp: params_ok_def)
    with p that [of False] appends_raw [of "render v"] show thesis by (simp add: nsr_json_append_raw_def)
  next
    case False
    then have "?W = (\<lambda>req. nsr_json_obj_start req \<bind> nsr_json_obj_end)" by (auto split: option.splits)
    moreover have "v = JObj []" using False assms jb_len_text render_last(1) [of v] by (auto simp: params_ok_def split: option.splits)
    ultimately show thesis using empty that [of True] by simp
  qed
  have "build_params params = (\<lambda>req. nsr_json_key req ''params'' \<bind> (\<lambda>req. ?W req \<bind> nsr_json_obj_end))"
    by (rule ext) (simp add: build_params_def)
  moreover have "comma (t @ comma t @ quote ''params'' @ '':'') = []" for t
    using comma_simps(5) [of "t @ comma t @ quote ''params''"] by simp
  ultimately show ?thesis
    using appends_bind [OF appends_tokens(5) appends_bind [OF W appends_tokens(2)], of "''params''"]
    by (cases c) simp_all
qed

lemma doc_cstr_eq: "jb_inv jb \<Longrightarrow> jb_text jb = render v \<Longrightarrow> doc_cstr (Some jb) = render v"
  using read_cstr_text [of jb] cleanD [OF clean_render, of v] by (simp add: doc_cstr_def)

text \<open>A document whose last member comes from \<open>build_params\<close>, after the members \<open>ms\<close>.\<close>

lemma build_doc:
  assumes "params_ok params v" "\<forall>(k, w) \<in> set ms. ints_ok w" "ms \<noteq> []"
  shows "\<exists>jb. do { req \<leftarrow> nsr_json_init; req \<leftarrow> nsr_json_obj_start req; req \<leftarrow> emit_members ms req; build_params params req }
      = Some jb \<and> jb_inv jb \<and> jb_text jb = render (JObj (ms @ [(''params'', v)]))"
proof -
  obtain jb where jb: "nsr_json_init = Some jb" "jb_inv jb" "jb_text jb = []" using nsr_json_init_ok by blast
  have mem: "appends (emit_members ms) (\<lambda>t. comma_list t (map member_text ms))"
    using assms(2) by (intro appends_members) (auto intro: appends_json)
  let ?I = "intersperse_commas (map member_text ms)"
  have snoc: "intersperse_commas (ss @ [s]) = intersperse_commas ss @ '','' @ s" if "ss \<noteq> []" for ss s
    using that by (induction ss rule: intersperse_commas.induct) auto
  have ends: "comma (CHR 0x7B # ?I) = '',''"
  proof -
    have "intersperse_commas ss \<noteq> [] \<and> last (intersperse_commas ss) = last (last ss)"
      if "ss \<noteq> []" "\<forall>s \<in> set ss. s \<noteq> []" for ss
      using that by (induction ss rule: intersperse_commas.induct) auto
    from this [of "map member_text ms"] assms(3)
    have "?I \<noteq> []" "last ?I = last (member_text (last ms))" by (auto simp: member_text_def last_map)
    then show ?thesis using render_last [of "snd (last ms)"] by (simp add: comma_def member_text_def)
  qed
  have "appends (\<lambda>req. nsr_json_obj_start req \<bind> (\<lambda>req. emit_members ms req \<bind> build_params params))
      (\<lambda>t. (comma t @ [CHR 0x7B]) @ comma_list (t @ comma t @ [CHR 0x7B]) (map member_text ms) @
        (comma ((t @ comma t @ [CHR 0x7B]) @ comma_list (t @ comma t @ [CHR 0x7B]) (map member_text ms)) @
         quote ''params'' @ '':'' @ render v @ [CHR 0x7D]))"
    by (rule appends_bind [OF appends_tokens(1) appends_bind [OF mem appends_params [OF assms(1)]]])
  with jb(2) obtain jb' where jb': "nsr_json_obj_start jb \<bind> (\<lambda>req. emit_members ms req \<bind> build_params params) = Some jb'"
    "jb_inv jb'" "jb_text jb' = CHR 0x7B # ?I @ '','' @ quote ''params'' @ '':'' @ render v @ [CHR 0x7D]"
    using ends assms(3) unfolding appends_def by (fastforce simp: jb(3) comma_list_def comma_def)
  have "jb_text jb' = render (JObj (ms @ [(''params'', v)]))"
    using snoc [of "map member_text ms" "member_text (''params'', v)"] assms(3)
    unfolding jb'(3) render_JObj by (simp add: member_text_def)
  moreover have "nsr_json_init \<bind> (\<lambda>req. nsr_json_obj_start req \<bind> (\<lambda>req. emit_members ms req \<bind> build_params params)) = Some jb'"
    using jb'(1) by (simp add: jb(1))
  ultimately show ?thesis using jb'(2) by blast
qed

lemma build_request_doc:
  assumes "params_ok params v" "- (2 ^ 63) \<le> ident" "ident < 2 ^ 63"
  shows "doc_cstr (build_request method params ident) = render (request_doc method v ident)"
  using build_doc [OF assms(1), of "[(''jsonrpc'', JStr ''2.0''), (''id'', JInt ident), (''method'', JStr method)]"] assms(2,3)
  by (auto simp: build_request_def request_doc_def bind_assoc simp del: render.simps intro: doc_cstr_eq)

lemma build_notification_doc:
  assumes "params_ok params v"
  shows "doc_cstr (build_notification method params) = render (notification_doc method v)"
  using build_doc [OF assms(1), of "[(''jsonrpc'', JStr ''2.0''), (''method'', JStr method)]"]
  by (auto simp: build_notification_def notification_doc_def bind_assoc simp del: render.simps intro: doc_cstr_eq)

section \<open>Bytes sent\<close>

text \<open>Whatever the kernel takes at a time, what was sent is a prefix, and all of it on success.\<close>

lemma write_loop_sent:
  "write_loop s ws sent = (ok, ws', sent') \<Longrightarrow> \<exists>k. sent' = sent @ take k s \<and> (ok \<longrightarrow> length s \<le> k)"
proof (induction s ws sent rule: write_loop.induct)
  case (1 ws sent)
  then show ?case by auto
next
  case (5 c s n ws sent)
  show ?case
  proof (cases "n = 0")
    case True
    with 5 show ?thesis by (auto intro: exI [of _ 0])
  next
    case False
    with 5 obtain k where k: "sent' = (sent @ take n (c # s)) @ take k (drop n (c # s))" "ok \<longrightarrow> length (drop n (c # s)) \<le> k"
      by auto
    then have "sent' = sent @ take (n + k) (c # s)" by (simp add: take_add)
    with k(2) show ?thesis by (intro exI [of _ "n + k"]) auto
  qed
qed (auto intro: exI [of _ 0])

lemma rpc_send_sent:
  assumes "rpc_send r s = (ok, r')"
  shows "\<exists>k. os_sent (rpc_os r') = os_sent (rpc_os r) @ take k (s @ [CHR 0x0A]) \<and> (ok \<longrightarrow> length s < k)"
    and "ok \<Longrightarrow> \<not> rpc_dead r'" "\<not> ok \<Longrightarrow> rpc_dead r' \<or> rpc_in r' < 0"
proof -
  obtain o1 ws1 s1 where w: "write_loop s (os_write (rpc_os r)) (os_sent (rpc_os r)) = (o1, ws1, s1)" by (metis prod_cases3)
  from write_loop_sent [OF this] obtain k where k: "s1 = os_sent (rpc_os r) @ take k s" "o1 \<longrightarrow> length s \<le> k" by blast
  obtain o2 ws2 s2 where n: "write_newline ws1 s1 = (o2, ws2, s2)" by (metis prod_cases3)
  then have n': "s2 = (if o2 then s1 @ [CHR 0x0A] else s1)" by (auto simp: write_newline_def split: list.splits write_res.splits if_splits)
  have cut: "take k s = take (min k (length s)) (s @ [CHR 0x0A])" by (simp add: min_def)
  show "\<exists>k. os_sent (rpc_os r') = os_sent (rpc_os r) @ take k (s @ [CHR 0x0A]) \<and> (ok \<longrightarrow> length s < k)"
  proof (cases "ok")
    case True
    then have "o1" "o2" and r': "os_sent (rpc_os r') = s1 @ [CHR 0x0A]"
      using assms w n n' by (auto simp: rpc_send_def split: if_splits bool.splits)
    with k show ?thesis by (intro exI [of _ "Suc (length s)"]) simp
  next
    case False
    then have "os_sent (rpc_os r') = os_sent (rpc_os r) \<or> os_sent (rpc_os r') = s1"
      using assms w n n' by (auto simp: rpc_send_def split: if_splits bool.splits)
    then show ?thesis using k(1) cut False by (metis append_Nil2 take0)
  qed
  show "ok \<Longrightarrow> \<not> rpc_dead r'" "\<not> ok \<Longrightarrow> rpc_dead r' \<or> rpc_in r' < 0"
    using assms w n by (auto simp: rpc_send_def split: if_splits bool.splits)
qed

section \<open>Lines received\<close>

lemma split_line_Some:
  "split_line s = Some (line, rest) \<longleftrightarrow> s = line @ CHR 0x0A # rest \<and> CHR 0x0A \<notin> set line"
proof
  let ?P = "\<lambda>c. c \<noteq> CHR 0x0A"
  assume a: "split_line s = Some (line, rest)"
  then have nl: "CHR 0x0A \<in> set s" and l: "line = takeWhile ?P s" "rest = tl (dropWhile ?P s)"
    by (simp_all add: split_line_def split: if_splits)
  obtain xs ys where "s = xs @ CHR 0x0A # ys" "CHR 0x0A \<notin> set xs" using split_list_first [OF nl] by blast
  then show "s = line @ CHR 0x0A # rest \<and> CHR 0x0A \<notin> set line"
    unfolding l by (simp add: takeWhile_append dropWhile_append)
qed (simp add: split_line_def takeWhile_append dropWhile_append)

text \<open>
  What a receive leaves: the bytes buffered before and the bytes read are the line it returned,
  if any, and the bytes still buffered; nothing is sent and no field but \<open>dead\<close> changes.
\<close>

definition line_text :: "string option \<Rightarrow> string" where
  "line_text l = (case l of None \<Rightarrow> [] | Some line \<Rightarrow> line @ [CHR 0x0A])"

definition received :: "nsr_json_rpc \<Rightarrow> string option \<Rightarrow> nsr_json_rpc \<Rightarrow> bool" where
  "received r l r' \<longleftrightarrow>
     (\<exists>s. os_got (rpc_os r') = os_got (rpc_os r) @ s \<and> rpc_rx_buf r @ s = line_text l @ rpc_rx_buf r') \<and>
     os_sent (rpc_os r') = os_sent (rpc_os r) \<and> os_write (rpc_os r') = os_write (rpc_os r) \<and>
     rpc_pid r' = rpc_pid r \<and> rpc_in r' = rpc_in r \<and> rpc_out r' = rpc_out r \<and>
     rpc_next_id r' = rpc_next_id r \<and> rpc_overflowed r' = rpc_overflowed r \<and> rpc_pending_id r' = rpc_pending_id r \<and>
     (\<forall>line. l = Some line \<longrightarrow> CHR 0x0A \<notin> set line)"

lemma turn_received: "turn r r' \<Longrightarrow> received r' l r'' \<Longrightarrow> received r l r''"
  unfolding turn_def received_def by (metis append.assoc)

lemma turn_refl: "turn r r" by (simp add: turn_def)

lemma turn_none: "turn r r' \<Longrightarrow> received r None r'"
  by (auto simp: turn_def received_def line_text_def)

lemma turn_clock [simp]: "turn r (r\<lparr>rpc_os := (rpc_os r)\<lparr>os_clock := cs\<rparr>\<rparr>)" by (simp add: turn_def)

lemma turn_poll [simp]: "turn r (r\<lparr>rpc_os := (rpc_os r)\<lparr>os_poll := cs\<rparr>\<rparr>)" by (simp add: turn_def)

lemma turn_trans: "turn r r' \<Longrightarrow> turn r' r'' \<Longrightarrow> turn r r''"
  by (auto simp: turn_def)

lemma recv_loop_received: "recv_loop d r = (l, r') \<Longrightarrow> received r l r' \<and> (rpc_dead r' \<longrightarrow> l = None \<or> rpc_dead r)"
proof (induction d r arbitrary: l r' rule: recv_loop.induct)
  case (1 d r)
  show ?case
  proof (cases "split_line (rpc_rx_buf r)")
    case (Some p)
    obtain line rest where "p = (line, rest)" by force
    with 1(2) Some split_line_Some [of "rpc_rx_buf r" line rest] show ?thesis
      by (subst (asm) recv_loop.simps) (auto simp: received_def line_text_def)
  next
    case None
    obtain b1 r1 where b1: "before_poll d r = (b1, r1)" by force
    obtain p r2 where p: "sys_poll r1 = (p, r2)" by force
    obtain b3 r3 where b3: "after_poll d p r2 = (b3, r3)" by force
    have t1: "turn r r1" using before_pollD [OF b1] turn_refl by auto
    have t3: "turn r r3" using sys_pollD [OF p] after_pollD [OF b3] t1 by (metis turn_trans turn_poll)
    show ?thesis
    proof (cases "b1 \<and> b3")
      case False
      then have "l = None" "r' = r1 \<or> r' = r3" using 1(2) None b1 p b3
        by (auto simp: recv_loop.simps [of d r] split: bool.splits)
      then show ?thesis using t1 t3 turn_none by auto
    next
      case True
      then have "recv_loop d r3 = (l, r')" using 1(2) None b1 p b3 by (simp add: recv_loop.simps [of d r])
      moreover have "rpc_dead r3 = rpc_dead r"
        using True before_pollD [OF b1] sys_pollD [OF p] after_pollD [OF b3] by auto
      ultimately show ?thesis
        using 1(1) [OF None b1 [symmetric] _ p [symmetric] b3 [symmetric]] True turn_received [OF t3] by auto
    qed
  qed
qed

lemma recv_line_received:
  assumes "recv_line r t = (l, r')"
  shows "received r l r' \<and> (rpc_dead r' \<longrightarrow> l = None \<or> rpc_dead r)"
proof (cases "t \<ge> 0")
  case True
  obtain c r1 where c: "sys_clock r = (c, r1)" by force
  then have r1: "turn r r1" "rpc_dead r1 = rpc_dead r" using sys_clockD [OF c] by simp_all
  show ?thesis
  proof (cases c)
    case None
    with True c assms r1 turn_none show ?thesis by (auto simp: recv_line_def)
  next
    case (Some t0)
    with True c assms have "recv_loop (Some (add_ms t0 t)) r1 = (l, r')" by (simp add: recv_line_def)
    from recv_loop_received [OF this] r1 turn_received show ?thesis by auto
  qed
qed (use assms recv_loop_received in \<open>auto simp: recv_line_def\<close>)

text \<open>The channel's line contract: reading never loses, duplicates or reorders bytes.\<close>

fun recv_many :: "int list \<Rightarrow> nsr_json_rpc \<Rightarrow> string list \<times> nsr_json_rpc" where
  "recv_many [] r = ([], r)"
| "recv_many (t # ts) r =
     (case nsr_json_rpc_try_recv_any r t of
        (m, r) \<Rightarrow> (case recv_many ts r of (lines, r) \<Rightarrow> (case m of None \<Rightarrow> lines | Some (line, _) \<Rightarrow> line # lines, r)))"

lemma received_refl: "received r None r"
  by (simp add: received_def line_text_def)

lemma try_recv_any_received:
  assumes "nsr_json_rpc_try_recv_any r t = (m, r')"
  shows "received r (map_option fst m) r'"
proof (cases "rpc_dead r \<or> rpc_out r < 0")
  case True
  with assms show ?thesis using received_refl by (auto simp: nsr_json_rpc_try_recv_any_def)
next
  case False
  obtain l r1 where l: "recv_line r t = (l, r1)" by force
  with recv_line_received [OF l] assms False show ?thesis
    by (cases l) (auto simp: nsr_json_rpc_try_recv_any_def)
qed

lemma try_recv_loop_matches:
  assumes "try_recv_loop n r = (l, r')"
  shows "os_sent (rpc_os r') = os_sent (rpc_os r) \<and> rpc_next_id r' = rpc_next_id r \<and>
    (\<forall>line. l = Some line \<longrightarrow> response_id line = rpc_pending_id r)"
  using assms
proof (induction n r arbitrary: l r' rule: try_recv_loop.induct)
  case (1 n r)
  obtain m r1 where m: "recv_line r (int (min n 50)) = (m, r1)" by force
  have k: "os_sent (rpc_os r1) = os_sent (rpc_os r)" "rpc_next_id r1 = rpc_next_id r" "rpc_pending_id r1 = rpc_pending_id r"
    using recv_line_received [OF m] by (auto simp: received_def)
  have rec: "try_recv_loop n r = (case m of
      None \<Rightarrow> if n - min n 50 = 0 \<or> rpc_dead r1 then (None, r1) else try_recv_loop (n - min n 50) r1
    | Some line \<Rightarrow> if response_id line = rpc_pending_id r1 then (Some line, r1\<lparr>rpc_pending_id := -1\<rparr>)
        else if n - min n 50 = 0 then (None, r1) else try_recv_loop (n - min n 50) r1)"
    by (subst try_recv_loop.simps) (simp add: m Let_def split: option.split)
  show ?case
  proof (cases m)
    case None
    then show ?thesis
      using 1(3) k 1(1) [OF refl m [symmetric] None, of l r'] unfolding rec by (simp split: if_splits)
  next
    case (Some line)
    then show ?thesis
      using 1(3) k 1(2) [OF refl m [symmetric] Some, of l r'] unfolding rec by (auto split: if_splits)
  qed
qed

text \<open>The completed lines of a byte stream.\<close>

function lines_of :: "string \<Rightarrow> string list" where
  "lines_of s = (case split_line s of None \<Rightarrow> [] | Some (line, rest) \<Rightarrow> line # lines_of rest)"
  by pat_completeness auto
termination lines_of
  by (relation "measure length") (auto simp: split_line_Some)

declare lines_of.simps [simp del]

lemma lines_of_append: "CHR 0x0A \<notin> set line \<Longrightarrow> lines_of (line @ CHR 0x0A # rest) = line # lines_of rest"
proof -
  assume "CHR 0x0A \<notin> set line"
  then have "split_line (line @ CHR 0x0A # rest) = Some (line, rest)" by (simp add: split_line_Some)
  then show ?thesis by (subst lines_of.simps) simp
qed

lemma lines_of_stream:
  "CHR 0x0A \<notin> \<Union> (set ` set lines) \<Longrightarrow> lines_of (concat (map (\<lambda>line. line @ [CHR 0x0A]) lines) @ rest) = lines @ lines_of rest"
  by (induction lines) (simp_all add: lines_of_append)

lemma lines_of_eq_Nil: "lines_of s = [] \<longleftrightarrow> split_line s = None"
  by (subst lines_of.simps) (simp split: option.split)

lemma lines_of_eq_Cons: "lines_of s = line # rest \<longleftrightarrow> (\<exists>s'. split_line s = Some (line, s') \<and> lines_of s' = rest)"
  by (subst lines_of.simps) (auto split: option.split)

lemma recv_many_stream:
  "recv_many ts r = (lines, r') \<Longrightarrow>
     \<exists>s. os_got (rpc_os r') = os_got (rpc_os r) @ s \<and>
         rpc_rx_buf r @ s = concat (map (\<lambda>line. line @ [CHR 0x0A]) lines) @ rpc_rx_buf r' \<and>
         CHR 0x0A \<notin> \<Union> (set ` set lines)"
proof (induction ts arbitrary: r lines)
  case Nil
  then show ?case by simp
next
  case (Cons t ts)
  obtain m r1 where m: "nsr_json_rpc_try_recv_any r t = (m, r1)" by force
  obtain ls r2 where l: "recv_many ts r1 = (ls, r2)" by force
  have all: "lines = (case m of None \<Rightarrow> ls | Some (line, _) \<Rightarrow> line # ls)" "r' = r2" using Cons.prems m l by auto
  from try_recv_any_received [OF m] obtain s1 where
    s1: "os_got (rpc_os r1) = os_got (rpc_os r) @ s1" "rpc_rx_buf r @ s1 = line_text (map_option fst m) @ rpc_rx_buf r1"
    "\<And>line. map_option fst m = Some line \<Longrightarrow> CHR 0x0A \<notin> set line"
    by (auto simp: received_def)
  from Cons.IH [of r1 ls] l all(2) obtain s2 where
    s2: "os_got (rpc_os r2) = os_got (rpc_os r1) @ s2"
    "rpc_rx_buf r1 @ s2 = concat (map (\<lambda>line. line @ [CHR 0x0A]) ls) @ rpc_rx_buf r2" "CHR 0x0A \<notin> \<Union> (set ` set ls)"
    by auto
  have "rpc_rx_buf r @ s1 @ s2 = line_text (map_option fst m) @ rpc_rx_buf r1 @ s2" using s1(2) by (metis append.assoc)
  also have "\<dots> = concat (map (\<lambda>line. line @ [CHR 0x0A]) lines) @ rpc_rx_buf r2"
    using s2(2) by (cases m) (auto simp: line_text_def all)
  finally have "rpc_rx_buf r @ s1 @ s2 = concat (map (\<lambda>line. line @ [CHR 0x0A]) lines) @ rpc_rx_buf r2" .
  moreover have "CHR 0x0A \<notin> \<Union> (set ` set lines)" using s1(3) s2(3) by (cases m) (auto simp: all)
  ultimately show ?case using s1(1) s2(1) by (auto simp: all(2))
qed

text \<open>A completed line that is buffered is returned at once; a loop that gives up has left none.\<close>

lemma recv_loop_prompt:
  "recv_loop d r = (l, r') \<Longrightarrow>
     (\<forall>line rest. split_line (rpc_rx_buf r) = Some (line, rest) \<longrightarrow> l = Some line \<and> rpc_rx_buf r' = rest) \<and>
     (l = None \<longrightarrow> split_line (rpc_rx_buf r') = None)"
proof (induction d r arbitrary: l r' rule: recv_loop.induct)
  case (1 d r)
  show ?case
  proof (cases "split_line (rpc_rx_buf r)")
    case (Some p)
    with 1(2) show ?thesis by (subst (asm) recv_loop.simps) (auto split: prod.splits)
  next
    case None
    obtain b1 r1 where b1: "before_poll d r = (b1, r1)" by force
    obtain p r2 where p: "sys_poll r1 = (p, r2)" by force
    obtain b3 r3 where b3: "after_poll d p r2 = (b3, r3)" by force
    have buf: "rpc_rx_buf r1 = rpc_rx_buf r" "rpc_rx_buf r2 = rpc_rx_buf r" "\<not> b3 \<Longrightarrow> rpc_rx_buf r3 = rpc_rx_buf r"
      using before_pollD [OF b1] sys_pollD [OF p] after_poll_stop [of d p r2 r3] b3 by auto
    show ?thesis
    proof (cases "b1 \<and> b3")
      case False
      then have "l = None" "r' = r1 \<or> \<not> b3 \<and> r' = r3" using 1(2) None b1 p b3
        by (auto simp: recv_loop.simps [of d r] split: bool.splits)
      then show ?thesis using None buf by auto
    next
      case True
      then have "recv_loop d r3 = (l, r')" using 1(2) None b1 p b3 by (simp add: recv_loop.simps [of d r])
      then show ?thesis using 1(1) [OF None b1 [symmetric] _ p [symmetric] b3 [symmetric]] True None by auto
    qed
  qed
qed

lemma try_recv_any_prompt:
  assumes "\<not> rpc_dead r" "0 \<le> rpc_out r" "t < 0 \<or> fst (sys_clock r) \<noteq> None"
  shows "case nsr_json_rpc_try_recv_any r t of (m, r') \<Rightarrow>
     (\<forall>line rest. lines_of (rpc_rx_buf r) = line # rest \<longrightarrow> m = Some (line, response_id line) \<and> lines_of (rpc_rx_buf r') = rest) \<and>
     (m = None \<longrightarrow> lines_of (rpc_rx_buf r') = [])"
proof -
  obtain d r1 where rl: "recv_line r t = recv_loop d r1" "rpc_rx_buf r1 = rpc_rx_buf r"
  proof (cases "t < 0")
    case True
    then show thesis using that [of None r] by (simp add: recv_line_def)
  next
    case False
    then obtain c r1 where c: "sys_clock r = (Some c, r1)" using assms(3) by (cases "sys_clock r") auto
    then show thesis using that [of "Some (add_ms c t)" r1] False sys_clockD [OF c] by (simp add: recv_line_def)
  qed
  obtain l r' where l: "recv_loop d r1 = (l, r')" by force
  from recv_loop_prompt [OF l] assms(1,2) rl show ?thesis
    by (cases l) (auto simp: nsr_json_rpc_try_recv_any_def l lines_of_eq_Nil lines_of_eq_Cons)
qed

text \<open>A channel whose child has answered, in two pieces, once the request is out.\<close>

definition ex_rpc :: "string \<Rightarrow> string \<Rightarrow> nsr_json_rpc" where
  "ex_rpc buffered answer =
     \<lparr>rpc_pid = 7, rpc_in = 5, rpc_out = 6, rpc_next_id = 1, rpc_overflowed = False, rpc_pending_id = -1, rpc_dead = False,
      rpc_rx_buf = buffered,
      rpc_os = \<lparr>os_clock = replicate 4 (Some \<lparr>tv_sec = 3, tv_nsec = 999999999\<rparr>), os_write = [Write_EINTR, Wrote 5, Wrote 4096, Wrote 1],
                os_poll = [Poll_ready, Poll_ready], os_read = [Read_data (take 3 answer), Read_data (drop 3 answer)],
                os_wait = [], os_sent = [], os_got = []\<rparr>\<rparr>"

definition ex_answer :: string where
  "ex_answer = render (JObj [(''id'', JInt 1)])"

section \<open>A zero timeout\<close>

definition clock_le :: "timespec \<Rightarrow> timespec \<Rightarrow> bool" where
  "clock_le s t \<longleftrightarrow> tv_sec s < tv_sec t \<or> tv_sec s = tv_sec t \<and> tv_nsec s \<le> tv_nsec t"

definition nsec_ok :: "timespec \<Rightarrow> bool" where
  "nsec_ok t \<longleftrightarrow> 0 \<le> tv_nsec t \<and> tv_nsec t < 1000000000"

lemma sdiv_million:
  fixes x :: int
  shows "x \<le> 0 \<Longrightarrow> x sdiv 1000000 \<le> 0" "x < 1000000000 \<Longrightarrow> x sdiv 1000000 < 1000"
  by (auto simp: signed_divide_int_def sgn_if)

lemma ms_left_past:
  assumes "nsec_ok d" "nsec_ok now" "clock_le d now"
  shows "ms_left d now \<le> 0"
proof (cases "tv_sec d = tv_sec now")
  case True
  with assms sdiv_million(1) [of "tv_nsec d - tv_nsec now"] show ?thesis by (auto simp: ms_left_def clock_le_def)
next
  case False
  with assms(3) have "(tv_sec d - tv_sec now) * 1000 \<le> -1000" by (simp add: clock_le_def)
  moreover have "(tv_nsec d - tv_nsec now) sdiv 1000000 < 1000"
    using assms(1,2) by (intro sdiv_million(2)) (simp add: nsec_ok_def)
  ultimately show ?thesis by (simp add: ms_left_def)
qed

lemma add_ms_0: "nsec_ok t \<Longrightarrow> add_ms t 0 = t"
  by (simp add: add_ms_def nsec_ok_def Let_def)

section \<open>Properties\<close>

text \<open>
  C27: A call sends one request and returns only the answer to it.  However the kernel splits
  the writes, what goes out is a prefix of the request's JSON text and a newline, which has no
  other newline in it; when the call returns a line, all of the text went out, the line carries
  the identifier of this request, and the next request gets the next identifier (with the
  wrap-around of a C \<open>int\<close>).
\<close>

theorem rpc_call_exchange:
  assumes "nsr_json_rpc_call r method params timeout_ms = (l, r')" "params_ok params v"
    and "\<not> rpc_dead r" "0 \<le> rpc_in r" "- (2 ^ 63) \<le> rpc_next_id r" "rpc_next_id r < 2 ^ 63"
  shows "(\<exists>k. os_sent (rpc_os r') =
            os_sent (rpc_os r) @ take k (render (request_doc method v (rpc_next_id r)) @ [CHR 0x0A])) \<and>
     CHR 0x0A \<notin> set (render (request_doc method v (rpc_next_id r))) \<and>
     (case l of None \<Rightarrow> True
      | Some line \<Rightarrow> response_id line = rpc_next_id r \<and> rpc_next_id r' = c_int (rpc_next_id r + 1) \<and>
          os_sent (rpc_os r') = os_sent (rpc_os r) @ render (request_doc method v (rpc_next_id r)) @ [CHR 0x0A])"
proof -
  let ?n = "rpc_next_id r" let ?t = "render (request_doc method v ?n)"
  let ?r0 = "r\<lparr>rpc_next_id := c_int (?n + 1), rpc_overflowed := rpc_overflowed r \<or> c_int (?n + 1) \<noteq> ?n + 1, rpc_pending_id := ?n\<rparr>"
  have doc: "doc_cstr (build_request method params ?n) = ?t" by (rule build_request_doc [OF assms(2,5,6)])
  obtain ok r1 where s: "rpc_send ?r0 ?t = (ok, r1)" by force
  from rpc_send_sent(1) [OF s] obtain k where
    k: "os_sent (rpc_os r1) = os_sent (rpc_os r) @ take k (?t @ [CHR 0x0A])" "ok \<longrightarrow> length ?t < k" by auto
  have r1: "rpc_next_id r1 = c_int (?n + 1)" "rpc_pending_id r1 = ?n"
    using s by (auto simp: rpc_send_def split: if_splits prod.splits bool.splits)
  have nl: "CHR 0x0A \<notin> set ?t" using cleanD [OF clean_render] by blast
  show ?thesis
  proof (cases ok)
    case False
    then have "l = None" "rpc_os r' = rpc_os r1"
      using assms(1,3,4) s by (auto simp: nsr_json_rpc_call_def nsr_json_rpc_send_request_def doc Let_def)
    then show ?thesis using k(1) nl by auto
  next
    case True
    then have c: "nsr_json_rpc_try_recv_response r1 timeout_ms = (l, r')"
      using assms(1,3,4) s by (auto simp: nsr_json_rpc_call_def nsr_json_rpc_send_request_def doc Let_def)
    have "os_sent (rpc_os r') = os_sent (rpc_os r1) \<and> rpc_next_id r' = rpc_next_id r1 \<and>
        (\<forall>line. l = Some line \<longrightarrow> response_id line = rpc_pending_id r1)"
      using c try_recv_loop_matches [of timeout_ms r1] by (auto simp: nsr_json_rpc_try_recv_response_def split: if_splits)
    moreover have "os_sent (rpc_os r1) = os_sent (rpc_os r) @ ?t @ [CHR 0x0A]" using k True by simp
    ultimately show ?thesis using nl r1 by (auto split: option.split intro: exI [of _ "Suc (length ?t)"])
  qed
qed

text \<open>
  C28: Receiving is lossless and prompt.  Over any sequence of receives with any timeouts, and
  however the child's output arrives in pieces, the bytes buffered before followed by the bytes read
  are the returned lines, each with its newline, followed by the bytes still buffered; so the
  returned lines followed by the completed lines still buffered are exactly the completed lines of
  the stream, in order.  On an open channel whose clock can be read, the next receive returns the
  first completed line that is buffered, if there is one, and a receive that returns nothing leaves none
  behind.
\<close>

theorem recv_lossless:
  "case recv_many ts r of (lines, r') \<Rightarrow>
     (\<exists>s. os_got (rpc_os r') = os_got (rpc_os r) @ s \<and>
          rpc_rx_buf r @ s = concat (map (\<lambda>line. line @ [CHR 0x0A]) lines) @ rpc_rx_buf r' \<and>
          CHR 0x0A \<notin> \<Union> (set ` set lines) \<and>
          lines @ lines_of (rpc_rx_buf r') = lines_of (rpc_rx_buf r @ s)) \<and>
     (\<not> rpc_dead r' \<longrightarrow> 0 \<le> rpc_out r' \<longrightarrow> t < 0 \<or> fst (sys_clock r') \<noteq> None \<longrightarrow>
        (case nsr_json_rpc_try_recv_any r' t of (m, r'') \<Rightarrow>
           (\<forall>line rest. lines_of (rpc_rx_buf r') = line # rest \<longrightarrow> m = Some (line, response_id line) \<and> lines_of (rpc_rx_buf r'') = rest) \<and>
           (m = None \<longrightarrow> lines_of (rpc_rx_buf r'') = [])))"
proof -
  obtain lines r' where l: "recv_many ts r = (lines, r')" by force
  show ?thesis using recv_many_stream [OF l] lines_of_stream try_recv_any_prompt [of r' t] by (fastforce simp: l)
qed

theorem recv_lossless_witness:
  "fst (nsr_json_rpc_try_recv_any (ex_rpc (ex_answer @ [CHR 0x0A] @ ex_answer) []) 0) = Some (ex_answer, response_id ex_answer)"
proof -
  let ?r = "ex_rpc (ex_answer @ [CHR 0x0A] @ ex_answer) []"
  have "lines_of (rpc_rx_buf ?r) = [ex_answer]" by code_simp
  moreover have "\<not> rpc_dead ?r" "0 \<le> rpc_out ?r" "fst (sys_clock ?r) \<noteq> None"
    by (simp_all add: ex_rpc_def sys_clock_def numeral_eq_Suc)
  ultimately show ?thesis using recv_lossless [where ts = "[]" and r = ?r and t = 0] by (auto split: prod.splits)
qed

text \<open>
  With a timeout of 0 the pipe is never read.  The deadline has passed by the first check,
  so such a receive returns the next line only when it is already buffered, and makes no \<open>poll\<close>
  or \<open>read\<close> call: output the child has written since is not seen.
\<close>

lemma zero_timeout_never_reads:
  assumes "os_clock (rpc_os r) = Some t # Some now # cs" "nsec_ok t" "nsec_ok now" "clock_le t now"
    and "\<not> rpc_dead r" "0 \<le> rpc_out r"
  shows "fst (nsr_json_rpc_try_recv_any r 0) =
       map_option (\<lambda>(line, _). (line, response_id line)) (split_line (rpc_rx_buf r)) \<and>
     os_poll (rpc_os (snd (nsr_json_rpc_try_recv_any r 0))) = os_poll (rpc_os r) \<and>
     os_read (rpc_os (snd (nsr_json_rpc_try_recv_any r 0))) = os_read (rpc_os r)"
  using assms ms_left_past [OF assms(2,3,4)]
  by (cases "split_line (rpc_rx_buf r)")
     (auto simp: nsr_json_rpc_try_recv_any_def recv_line_def sys_clock_def add_ms_0 recv_loop.simps before_poll_def)

lemma ex_call: "fst (nsr_json_rpc_call (ex_rpc [] (ex_answer @ [CHR 0x0A])) ''ping'' None 2000) = Some ex_answer"
  by code_simp

theorem rpc_call_exchange_witness:
  "response_id ex_answer = 1 \<and>
   os_sent (rpc_os (snd (nsr_json_rpc_call (ex_rpc [] (ex_answer @ [CHR 0x0A])) ''ping'' None 2000))) =
     render (request_doc ''ping'' (JObj []) 1) @ [CHR 0x0A]"
proof -
  let ?r = "ex_rpc [] (ex_answer @ [CHR 0x0A])"
  have call: "nsr_json_rpc_call ?r ''ping'' None 2000 = (Some ex_answer, snd (nsr_json_rpc_call ?r ''ping'' None 2000))"
    using ex_call by (simp add: prod_eq_iff)
  have "params_ok None (JObj [])" "\<not> rpc_dead ?r" "0 \<le> rpc_in ?r" "- (2 ^ 63) \<le> rpc_next_id ?r" "rpc_next_id ?r < 2 ^ 63"
    by (simp_all add: params_ok_def ex_rpc_def)
  from rpc_call_exchange [OF call this] show ?thesis by (simp add: ex_rpc_def del: render.simps)
qed

end
