(* ===== verification/Plugin_Entry.thy ===== *)
theory Plugin_Entry
  imports Json_Rpc Shm_Ring "HOL-Library.Char_ord"
begin

text \<open>
  One loaded plugin, \<open>nsr_plugin_entry_t\<close> of \<open>src/plugin/plugin.c\<close>: its key queue, the keys it
  reserved, and the handling of its responses.

  Cached responses are represented by their text.  The reserved keys are the first
  \<open>reserved_count\<close> bytes of \<open>reserved_keys\<close>.  The members \<open>input_grabbed\<close>, \<open>crash_countdown_active\<close>
  and \<open>crash_start_time\<close> are never used by the code and are left out.
\<close>

section \<open>State\<close>

definition NSR_PLUGIN_KEY_QUEUE :: nat where
  "NSR_PLUGIN_KEY_QUEUE = 8"

definition NSR_KEY_USER_LEN :: nat where
  "NSR_KEY_USER_LEN = 32"

type_synonym nsr_key_event = "int \<times> bool"

record nsr_plugin_entry =
  pe_name :: string
  pe_path :: string
  pe_description :: string
  pe_enabled :: bool
  pe_initialized :: bool
  pe_dead :: bool
  pe_rpc :: nsr_json_rpc
  pe_last_render_resp :: string
  pe_last_render_hops_resp :: string
  pe_render_pending :: bool
  pe_render_hops_pending :: bool
  pe_on_key_pending :: bool
  pe_is_modal :: bool
  pe_pending_render_id :: int
  pe_pending_render_hops_id :: int
  pe_pending_on_key_id :: int
  pe_last_on_key_ms :: int
  pe_reserved_keys :: "char list"
  pe_key_queue :: "nsr_key_event list"
  pe_key_queue_head :: nat
  pe_key_queue_count :: nat
  pe_last_key_ch :: int
  pe_last_key_ms :: int
  pe_pending_open_editor :: bool
  pe_pending_open_editor_file :: string

text \<open>\<open>now_ms\<close>: the next reading of the clock in milliseconds, 0 when it fails.\<close>

definition now_ms :: "nsr_plugin_entry \<Rightarrow> int \<times> nsr_plugin_entry" where
  "now_ms e =
     (case sys_clock (pe_rpc e) of
        (t, r) \<Rightarrow> (case t of None \<Rightarrow> 0 | Some t \<Rightarrow> tv_sec t * 1000 + tv_nsec t div 1000000, e\<lparr>pe_rpc := r\<rparr>))"

section \<open>The key queue\<close>

definition plugin_key_queue_reset :: "nsr_plugin_entry \<Rightarrow> nsr_plugin_entry" where
  "plugin_key_queue_reset e =
     e\<lparr>pe_key_queue_head := 0, pe_key_queue_count := 0, pe_last_key_ch := -1, pe_last_key_ms := 0\<rparr>"

definition plugin_key_queue_enqueue :: "nsr_plugin_entry \<Rightarrow> nsr_key_event \<Rightarrow> bool \<times> nsr_plugin_entry" where
  "plugin_key_queue_enqueue e ev =
     (if pe_key_queue_count e \<ge> NSR_PLUGIN_KEY_QUEUE then (False, e)
      else let idx = (pe_key_queue_head e + pe_key_queue_count e) mod NSR_PLUGIN_KEY_QUEUE
           in (True, e\<lparr>pe_key_queue := (pe_key_queue e)[idx := ev], pe_key_queue_count := pe_key_queue_count e + 1\<rparr>))"

definition plugin_key_queue_dequeue :: "nsr_plugin_entry \<Rightarrow> nsr_key_event option \<times> nsr_plugin_entry" where
  "plugin_key_queue_dequeue e =
     (if pe_key_queue_count e = 0 then (None, e)
      else (Some (pe_key_queue e ! pe_key_queue_head e),
            e\<lparr>pe_key_queue_head := (pe_key_queue_head e + 1) mod NSR_PLUGIN_KEY_QUEUE,
              pe_key_queue_count := pe_key_queue_count e - 1\<rparr>))"

definition queued_keys :: "nsr_plugin_entry \<Rightarrow> nsr_key_event list" where
  "queued_keys e =
     map (\<lambda>i. pe_key_queue e ! ((pe_key_queue_head e + i) mod NSR_PLUGIN_KEY_QUEUE)) [0..<pe_key_queue_count e]"

definition key_queue_ok :: "nsr_plugin_entry \<Rightarrow> bool" where
  "key_queue_ok e \<longleftrightarrow> length (pe_key_queue e) = NSR_PLUGIN_KEY_QUEUE \<and>
     pe_key_queue_head e < NSR_PLUGIN_KEY_QUEUE \<and> pe_key_queue_count e \<le> NSR_PLUGIN_KEY_QUEUE"

lemma length_queued_keys [simp]: "length (queued_keys e) = pe_key_queue_count e"
  by (simp add: queued_keys_def)

lemma enqueue_room:
  assumes "key_queue_ok e" "pe_key_queue_count e < NSR_PLUGIN_KEY_QUEUE"
  shows "plugin_key_queue_enqueue e ev = (True, snd (plugin_key_queue_enqueue e ev)) \<and>
     queued_keys (snd (plugin_key_queue_enqueue e ev)) = queued_keys e @ [ev] \<and>
     key_queue_ok (snd (plugin_key_queue_enqueue e ev))"
proof -
  let ?h = "pe_key_queue_head e" and ?n = "pe_key_queue_count e"
  have other: "(?h + ?n) mod 8 \<noteq> (?h + i) mod 8" if "i < ?n" for i
    using mod_window_neq [of "?h + ?n" "?h + i" ?h 8] that assms(2) by (simp add: NSR_PLUGIN_KEY_QUEUE_def)
  show ?thesis
    using assms other
    by (auto simp: plugin_key_queue_enqueue_def queued_keys_def key_queue_ok_def NSR_PLUGIN_KEY_QUEUE_def Let_def)
qed

lemma dequeue_head:
  assumes "key_queue_ok e" "queued_keys e = ev # evs"
  shows "fst (plugin_key_queue_dequeue e) = Some ev \<and> queued_keys (snd (plugin_key_queue_dequeue e)) = evs \<and>
     key_queue_ok (snd (plugin_key_queue_dequeue e))"
proof -
  let ?h = "pe_key_queue_head e" and ?q = "pe_key_queue e"
  obtain m where m: "pe_key_queue_count e = Suc m" using assms(2) by (cases "pe_key_queue_count e") (auto simp: queued_keys_def)
  have "queued_keys e = ?q ! (?h mod 8) # map (\<lambda>i. ?q ! ((?h + Suc i) mod 8)) [0..<m]"
    unfolding queued_keys_def m NSR_PLUGIN_KEY_QUEUE_def by (subst upt_conv_Cons) (auto simp: map_Suc_upt [symmetric] simp del: upt_Suc)
  then have "ev = ?q ! (?h mod 8)" "evs = map (\<lambda>i. ?q ! ((?h + Suc i) mod 8)) [0..<m]" using assms(2) by simp_all
  then show ?thesis using assms(1)
    by (auto simp: plugin_key_queue_dequeue_def queued_keys_def key_queue_ok_def NSR_PLUGIN_KEY_QUEUE_def m mod_simps add.commute)
qed

text \<open>The queue keeps the contract of a bounded FIFO of eight events.\<close>

interpretation keyq: fifo plugin_key_queue_enqueue plugin_key_queue_dequeue queued_keys key_queue_ok NSR_PLUGIN_KEY_QUEUE
proof unfold_locales
  fix e ev
  assume inv: "key_queue_ok e"
  show "length (queued_keys e) \<le> NSR_PLUGIN_KEY_QUEUE" using inv by (simp add: key_queue_ok_def)
  show "length (queued_keys e) = NSR_PLUGIN_KEY_QUEUE \<Longrightarrow> plugin_key_queue_enqueue e ev = (False, e)"
    by (simp add: plugin_key_queue_enqueue_def)
  show "length (queued_keys e) < NSR_PLUGIN_KEY_QUEUE \<Longrightarrow>
      fst (plugin_key_queue_enqueue e ev) \<and> queued_keys (snd (plugin_key_queue_enqueue e ev)) = queued_keys e @ [ev] \<and>
      key_queue_ok (snd (plugin_key_queue_enqueue e ev))"
    using enqueue_room [OF inv] by (metis fst_conv length_queued_keys)
  show "queued_keys e = [] \<Longrightarrow> plugin_key_queue_dequeue e = (None, e)"
    by (simp add: plugin_key_queue_dequeue_def queued_keys_def)
qed (use dequeue_head in blast)

section \<open>Reserved keys\<close>

definition is_separator :: "char \<Rightarrow> bool" where
  "is_separator c \<longleftrightarrow> c \<in> {CHR 0x22, CHR 0x27, CHR '','', CHR '' '', CHR 0x09}"

definition to_lower :: "char \<Rightarrow> char" where
  "to_lower c = (if CHR ''A'' \<le> c \<and> c \<le> CHR ''Z'' then char_of (of_char c + 32 :: nat) else c)"

definition is_key_char :: "char \<Rightarrow> bool" where
  "is_key_char c \<longleftrightarrow> CHR ''a'' \<le> c \<and> c \<le> CHR ''z'' \<or> CHR ''0'' \<le> c \<and> c \<le> CHR ''9''"

text \<open>The collecting loop: at most 32 characters are kept.\<close>

fun collect_keys :: "string \<Rightarrow> string \<Rightarrow> string" where
  "collect_keys [] tmp = tmp"
| "collect_keys (c # val) tmp =
     (if length tmp < NSR_KEY_USER_LEN then
        if is_separator c then collect_keys val tmp
        else let c = to_lower c in collect_keys val (if is_key_char c then tmp @ [c] else tmp)
      else tmp)"

text \<open>\<open>qsort\<close> by character, then every character that differs from the one before it.\<close>

definition parse_reserved_keys :: "nsr_plugin_entry \<Rightarrow> string \<Rightarrow> nsr_plugin_entry" where
  "parse_reserved_keys e val =
     (if val = [] then e\<lparr>pe_reserved_keys := []\<rparr>
      else e\<lparr>pe_reserved_keys := remdups_adj (sort (collect_keys val []))\<rparr>)"

definition plugin_reserves_key :: "nsr_plugin_entry \<Rightarrow> int \<Rightarrow> bool" where
  "plugin_reserves_key e ch =
     (if ch < 0 \<or> ch > 127 then False
      else to_lower (char_of (nat ch)) \<in> set (pe_reserved_keys e))"

section \<open>Talking to the plugin\<close>

definition build_key_params :: "int \<Rightarrow> bool \<Rightarrow> nsr_json_buf option" where
  "build_key_params ch modal_input =
     do { params \<leftarrow> nsr_json_init;
          params \<leftarrow> nsr_json_obj_start params;
          params \<leftarrow> nsr_json_key params ''key'';
          params \<leftarrow> nsr_json_int params ch;
          params \<leftarrow> (if modal_input then do { params \<leftarrow> nsr_json_key params ''modal_input''; nsr_json_bool params True }
                      else Some params);
          nsr_json_obj_end params }"

definition plugin_send_next_key :: "nsr_plugin_entry \<Rightarrow> nsr_plugin_entry" where
  "plugin_send_next_key e =
     (if pe_on_key_pending e \<or> rpc_dead (pe_rpc e) \<or> rpc_in (pe_rpc e) < 0 then e
      else case plugin_key_queue_dequeue e of
        (None, e) \<Rightarrow> e
      | (Some (ch, modal_input), e) \<Rightarrow>
          (case nsr_json_rpc_send_request (pe_rpc e) ''on_key'' (build_key_params ch modal_input) of
             (ok, id_out, r) \<Rightarrow>
               let e = e\<lparr>pe_rpc := r\<rparr>
               in if ok then e\<lparr>pe_on_key_pending := True, pe_pending_on_key_id := (case id_out of Some i \<Rightarrow> i | None \<Rightarrow> -1)\<rparr>
                  else if rpc_dead r then e\<lparr>pe_dead := True\<rparr> else e))"

definition plugin_force_sync :: "nsr_plugin_entry \<Rightarrow> nsr_plugin_entry" where
  "plugin_force_sync e =
     (let e = e\<lparr>pe_rpc := (nsr_json_rpc_discard_queued (pe_rpc e))\<lparr>rpc_pending_id := -1\<rparr>,
                pe_render_pending := False, pe_render_hops_pending := False, pe_on_key_pending := False,
                pe_pending_render_id := -1, pe_pending_render_hops_id := -1, pe_pending_on_key_id := -1,
                pe_last_on_key_ms := 0\<rparr>;
          e = plugin_key_queue_reset e
      in e\<lparr>pe_pending_open_editor := False, pe_pending_open_editor_file := [],
           pe_last_render_resp := [], pe_last_render_hops_resp := []\<rparr>)"

text \<open>
  Members of a received object: the position of the value, its text, and its reading as a
  string (cut to the array it is copied to, empty when absent or not a string) or a boolean.
\<close>

definition get_sub :: "string \<Rightarrow> string \<Rightarrow> string option" where
  "get_sub json key = map_option fst (nsr_json_obj_get json key)"

definition get_text :: "string \<Rightarrow> string \<Rightarrow> string option" where
  "get_text json key = map_option (\<lambda>(p, len). take len p) (nsr_json_obj_get json key)"

definition get_string :: "string \<Rightarrow> string \<Rightarrow> nat \<Rightarrow> string" where
  "get_string json key out_len =
     (case get_text json key of
        None \<Rightarrow> []
      | Some v \<Rightarrow> (case nsr_json_parse_str v out_len of None \<Rightarrow> [] | Some s \<Rightarrow> s))"

definition get_bool :: "string \<Rightarrow> string \<Rightarrow> bool option" where
  "get_bool json key = (case get_text json key of None \<Rightarrow> None | Some v \<Rightarrow> nsr_json_parse_bool v)"

text \<open>\<open>e->is_modal\<close> is set when the member is present and a boolean.\<close>

definition set_modal :: "bool option \<Rightarrow> nsr_plugin_entry \<Rightarrow> nsr_plugin_entry" where
  "set_modal m e = (case m of None \<Rightarrow> e | Some b \<Rightarrow> e\<lparr>pe_is_modal := b\<rparr>)"

definition plugin_handle_force_sync :: "nsr_plugin_entry \<Rightarrow> string \<Rightarrow> bool \<times> nsr_plugin_entry" where
  "plugin_handle_force_sync e msg =
     (if get_string (c_text msg) ''method'' 64 \<noteq> ''force_sync'' then (False, e)
      else let modal = (case get_sub (c_text msg) ''params'' of None \<Rightarrow> None | Some p \<Rightarrow> get_bool p ''is_modal'')
           in (True, set_modal modal (plugin_force_sync e)))"

definition plugin_result_requests_force_sync :: "nsr_plugin_entry \<Rightarrow> string \<Rightarrow> bool \<times> nsr_plugin_entry" where
  "plugin_result_requests_force_sync e result =
     (if get_bool result ''force_sync'' \<noteq> Some True then (False, e)
      else (True, set_modal (get_bool result ''is_modal'') (plugin_force_sync e)))"

definition plugin_handle_on_key_result :: "nsr_plugin_entry \<Rightarrow> string \<Rightarrow> bool \<times> nsr_plugin_entry" where
  "plugin_handle_on_key_result e result =
     (case plugin_result_requests_force_sync e result of
        (True, e) \<Rightarrow> (True, e)
      | (False, e) \<Rightarrow>
          let e = set_modal (get_bool result ''is_modal'') e
          in if get_string result ''action'' 64 = ''open_editor'' then
               let file = get_string result ''file'' 256
               in (True, if file \<noteq> [] then e\<lparr>pe_pending_open_editor_file := c_strncpy 255 file, pe_pending_open_editor := True\<rparr> else e)
             else let e' = e\<lparr>pe_last_key_ch := -1, pe_last_key_ms := 0\<rparr>
                  in if get_bool result ''handled'' = Some True then (True, e'\<lparr>pe_last_render_resp := []\<rparr>) else (False, e'))"

definition plugin_drain_response :: "nsr_plugin_entry \<Rightarrow> int \<Rightarrow> bool \<times> nsr_plugin_entry" where
  "plugin_drain_response e timeout_ms =
     (if rpc_dead (pe_rpc e) \<or> rpc_out (pe_rpc e) < 0 then (False, e)
      else case nsr_json_rpc_try_recv_any (pe_rpc e) timeout_ms of
        (None, r) \<Rightarrow> (False, e\<lparr>pe_rpc := r\<rparr>)
      | (Some (resp, ident), r) \<Rightarrow>
          (case plugin_handle_force_sync (e\<lparr>pe_rpc := r\<rparr>) resp of
             (True, e) \<Rightarrow> (True, plugin_send_next_key e)
           | (False, e) \<Rightarrow>
               if pe_render_pending e \<and> ident = pe_pending_render_id e then
                 (True, plugin_send_next_key (e\<lparr>pe_last_render_resp := resp, pe_render_pending := False\<rparr>))
               else if pe_render_hops_pending e \<and> ident = pe_pending_render_hops_id e then
                 (True, plugin_send_next_key (e\<lparr>pe_last_render_hops_resp := resp, pe_render_hops_pending := False\<rparr>))
               else if pe_on_key_pending e \<and> ident = pe_pending_on_key_id e then
                 let e = e\<lparr>pe_on_key_pending := False\<rparr>;
                     e = (case get_sub (c_text resp) ''result'' of None \<Rightarrow> e | Some result \<Rightarrow> snd (plugin_handle_on_key_result e result))
                 in (True, plugin_send_next_key e)
               else (True, plugin_send_next_key e)))"

section \<open>Draining ends\<close>

text \<open>
  Every response that is handled uses up buffered bytes or a \<open>poll\<close> result; sending a key and
  discarding bring neither.
\<close>

definition rpc_less :: "nsr_json_rpc \<Rightarrow> nsr_json_rpc \<Rightarrow> bool" where
  "rpc_less r' r \<longleftrightarrow> length (os_poll (rpc_os r')) < length (os_poll (rpc_os r)) \<or>
     length (os_poll (rpc_os r')) = length (os_poll (rpc_os r)) \<and> length (rpc_rx_buf r') < length (rpc_rx_buf r)"

definition rpc_le :: "nsr_json_rpc \<Rightarrow> nsr_json_rpc \<Rightarrow> bool" where
  "rpc_le r' r \<longleftrightarrow> length (os_poll (rpc_os r')) < length (os_poll (rpc_os r)) \<or>
     length (os_poll (rpc_os r')) = length (os_poll (rpc_os r)) \<and> length (rpc_rx_buf r') \<le> length (rpc_rx_buf r)"

lemma rpc_le_less_trans: "rpc_le r'' r' \<Longrightarrow> rpc_less r' r \<Longrightarrow> rpc_less r'' r"
  by (auto simp: rpc_le_def rpc_less_def)

lemma rpc_le_refl [simp]: "rpc_le r r" by (simp add: rpc_le_def)

lemma rpc_le_trans: "rpc_le r'' r' \<Longrightarrow> rpc_le r' r \<Longrightarrow> rpc_le r'' r"
  by (auto simp: rpc_le_def)

lemma recv_loop_less: "recv_loop d r = (Some line, r') \<Longrightarrow> rpc_less r' r"
proof (induction d r rule: recv_loop.induct)
  case (1 d r)
  show ?case
  proof (cases "split_line (rpc_rx_buf r)")
    case (Some p)
    obtain l rest where "p = (l, rest)" by force
    with 1(2) Some split_line_Some [of "rpc_rx_buf r" l rest] show ?thesis
      by (subst (asm) recv_loop.simps) (auto simp: rpc_less_def)
  next
    case None
    obtain b1 r1 where b1: "before_poll d r = (b1, r1)" by force
    obtain p r2 where p: "sys_poll r1 = (p, r2)" by force
    obtain b3 r3 where b3: "after_poll d p r2 = (b3, r3)" by force
    have b: "b1" "b3" and rec: "recv_loop d r3 = (Some line, r')"
      using 1(2) None b1 p b3 by (auto simp: recv_loop.simps [of d r] split: bool.splits)
    have "length (os_poll (rpc_os r3)) < length (os_poll (rpc_os r))"
      using before_pollD [OF b1] sys_pollD [OF p] after_pollD [OF b3] b by (auto simp: length_tl_less)
    moreover have "rpc_less r' r3" using 1(1) [OF None b1 [symmetric] _ p [symmetric] b3 [symmetric]] b rec by simp
    ultimately show ?thesis by (auto simp: rpc_less_def)
  qed
qed

lemma try_recv_any_less: "nsr_json_rpc_try_recv_any r t = (Some m, r') \<Longrightarrow> rpc_less r' r"
proof -
  assume a: "nsr_json_rpc_try_recv_any r t = (Some m, r')"
  then have l: "recv_line r t = (Some (fst m), r')"
    by (auto simp: nsr_json_rpc_try_recv_any_def split: if_splits prod.splits option.splits)
  show ?thesis
  proof (cases "t \<ge> 0")
    case True
    with l obtain c r1 where c: "sys_clock r = (Some c, r1)" "recv_loop (Some (add_ms c t)) r1 = (Some (fst m), r')"
      by (auto simp: recv_line_def split: prod.splits option.splits)
    with recv_loop_less [OF c(2)] sys_clockD [OF c(1)] show ?thesis by (simp add: rpc_less_def)
  qed (use l recv_loop_less in \<open>auto simp: recv_line_def\<close>)
qed

lemma rpc_send_frame:
  "rpc_send r s = (ok, r') \<Longrightarrow> \<exists>d ws sent. r' = r\<lparr>rpc_dead := d, rpc_os := (rpc_os r)\<lparr>os_write := ws, os_sent := sent\<rparr>\<rparr>"
proof -
  assume a: "rpc_send r s = (ok, r')"
  obtain o1 ws1 s1 where w: "write_loop s (os_write (rpc_os r)) (os_sent (rpc_os r)) = (o1, ws1, s1)" by (metis prod_cases3)
  obtain o2 ws2 s2 where n: "write_newline ws1 s1 = (o2, ws2, s2)" by (metis prod_cases3)
  show ?thesis
  proof (cases "rpc_dead r \<or> rpc_in r < 0")
    case True
    with a have "r' = r\<lparr>rpc_dead := rpc_dead r, rpc_os := (rpc_os r)\<lparr>os_write := os_write (rpc_os r), os_sent := os_sent (rpc_os r)\<rparr>\<rparr>"
      by (auto simp: rpc_send_def)
    then show ?thesis by blast
  next
    case False
    with a w n show ?thesis by (cases o1) (auto simp: rpc_send_def)
  qed
qed

text \<open>How the identifiers of a channel move on, up to an overflow of their counter.\<close>

definition id_le :: "nsr_json_rpc \<Rightarrow> nsr_json_rpc \<Rightarrow> bool" where
  "id_le r r' \<longleftrightarrow> rpc_overflowed r' \<or> \<not> rpc_overflowed r \<and> rpc_next_id r \<le> rpc_next_id r'"

definition id_less :: "nsr_json_rpc \<Rightarrow> nsr_json_rpc \<Rightarrow> bool" where
  "id_less r r' \<longleftrightarrow> rpc_overflowed r' \<or> \<not> rpc_overflowed r \<and> rpc_next_id r < rpc_next_id r'"

lemma id_le_same: "rpc_next_id r' = rpc_next_id r \<Longrightarrow> rpc_overflowed r' = rpc_overflowed r \<Longrightarrow> id_le r r'"
  by (auto simp: id_le_def)

lemma send_request_frame:
  assumes "nsr_json_rpc_send_request r m p = (ok, i, r')"
  shows "rpc_rx_buf r' = rpc_rx_buf r \<and> os_poll (rpc_os r') = os_poll (rpc_os r) \<and> os_read (rpc_os r') = os_read (rpc_os r) \<and>
    os_got (rpc_os r') = os_got (rpc_os r) \<and> rpc_pid r' = rpc_pid r \<and> rpc_in r' = rpc_in r \<and> rpc_out r' = rpc_out r \<and>
    (ok \<longrightarrow> i = Some (rpc_next_id r) \<and> id_less r r') \<and> id_le r r'"
proof (cases "rpc_dead r \<or> rpc_in r < 0")
  case True
  with assms show ?thesis by (auto simp: nsr_json_rpc_send_request_def id_le_def)
next
  case False
  obtain ok1 r1 where s: "rpc_send (r\<lparr>rpc_next_id := c_int (rpc_next_id r + 1),
        rpc_overflowed := rpc_overflowed r \<or> c_int (rpc_next_id r + 1) \<noteq> rpc_next_id r + 1, rpc_pending_id := rpc_next_id r\<rparr>)
      (doc_cstr (build_request m p (rpc_next_id r))) = (ok1, r1)" by force
  from rpc_send_frame [OF s] assms False s show ?thesis
    by (cases ok1) (auto simp: nsr_json_rpc_send_request_def Let_def id_le_def id_less_def)
qed

lemma dequeue_rpc: "plugin_key_queue_dequeue e = (x, e') \<Longrightarrow> pe_rpc e' = pe_rpc e"
  by (auto simp: plugin_key_queue_dequeue_def split: if_splits)

lemma send_next_key_le: "rpc_le (pe_rpc (plugin_send_next_key e)) (pe_rpc e)"
proof -
  obtain k e1 where k: "plugin_key_queue_dequeue e = (k, e1)" by force
  then have r1: "pe_rpc e1 = pe_rpc e" by (rule dequeue_rpc)
  show ?thesis
  proof (cases k)
    case None
    with k r1 show ?thesis by (simp add: plugin_send_next_key_def)
  next
    case (Some ev)
    obtain ch m where ev: "ev = (ch, m)" by force
    obtain ok i r where s: "nsr_json_rpc_send_request (pe_rpc e1) ''on_key'' (build_key_params ch m) = (ok, i, r)" by (metis prod_cases3)
    from send_request_frame [OF s] r1 have "rpc_le r (pe_rpc e)" by (simp add: rpc_le_def)
    with k Some ev s show ?thesis by (auto simp: plugin_send_next_key_def Let_def)
  qed
qed

lemma discard_loop_le:
  "length (os_poll (rpc_os (discard_loop n r))) \<le> length (os_poll (rpc_os r)) \<and> rpc_rx_buf (discard_loop n r) = rpc_rx_buf r"
proof (induction n arbitrary: r)
  case (Suc n)
  obtain p r1 where p: "sys_poll r = (p, r1)" by force
  obtain x r2 where x: "sys_read r1 = (x, r2)" by force
  from Suc.IH [of r1] Suc.IH [of r2] sys_pollD [OF p] sys_readD [OF x] p x show ?case
    by (cases p; cases x) auto
qed simp

lemma force_sync_le: "rpc_le (pe_rpc (plugin_force_sync e)) (pe_rpc e)"
  using discard_loop_le [of 64 "(pe_rpc e)\<lparr>rpc_rx_buf := []\<rparr>"]
  by (auto simp: plugin_force_sync_def plugin_key_queue_reset_def nsr_json_rpc_discard_queued_def rpc_le_def Let_def)

lemma set_modal_rpc [simp]: "pe_rpc (set_modal m e) = pe_rpc e"
  by (simp add: set_modal_def split: option.split)

lemma handle_force_sync_le: "plugin_handle_force_sync e msg = (b, e') \<Longrightarrow> rpc_le (pe_rpc e') (pe_rpc e)"
  using force_sync_le [of e] by (auto simp: plugin_handle_force_sync_def Let_def split: if_splits)

lemma on_key_result_le: "rpc_le (pe_rpc (snd (plugin_handle_on_key_result e result))) (pe_rpc e)"
  using force_sync_le [of e]
  by (simp add: plugin_handle_on_key_result_def plugin_result_requests_force_sync_def Let_def)

lemma drain_response_less: "plugin_drain_response e t = (True, e') \<Longrightarrow> rpc_less (pe_rpc e') (pe_rpc e)"
proof -
  assume a: "plugin_drain_response e t = (True, e')"
  then obtain resp i r where r: "nsr_json_rpc_try_recv_any (pe_rpc e) t = (Some (resp, i), r)"
    by (auto simp: plugin_drain_response_def split: if_splits prod.splits option.splits)
  obtain b e1 where f: "plugin_handle_force_sync (e\<lparr>pe_rpc := r\<rparr>) resp = (b, e1)" by force
  obtain e2 where e2: "e' = plugin_send_next_key e2" "rpc_le (pe_rpc e2) (pe_rpc e1)"
  proof -
    let ?k = "e1\<lparr>pe_on_key_pending := False\<rparr>"
    from a r f consider "e' = plugin_send_next_key e1"
      | "e' = plugin_send_next_key (e1\<lparr>pe_last_render_resp := resp, pe_render_pending := False\<rparr>)"
      | "e' = plugin_send_next_key (e1\<lparr>pe_last_render_hops_resp := resp, pe_render_hops_pending := False\<rparr>)"
      | result where "e' = plugin_send_next_key (snd (plugin_handle_on_key_result ?k result))"
      | "e' = plugin_send_next_key ?k"
      by (auto simp: plugin_drain_response_def Let_def split: if_splits bool.splits option.splits)
    then show thesis
    proof cases
      case (4 result)
      with that on_key_result_le [of ?k result] show thesis by simp
    qed (use that in simp_all)
  qed
  have "rpc_le (pe_rpc e1) r" using handle_force_sync_le [OF f] by simp
  with e2(2) have "rpc_le (pe_rpc e2) r" by (rule rpc_le_trans)
  with send_next_key_le have "rpc_le (pe_rpc e') r" unfolding e2(1) by (rule rpc_le_trans)
  then show ?thesis using try_recv_any_less [OF r] by (rule rpc_le_less_trans)
qed

text \<open>\<open>while (plugin_drain_response(e, 0));\<close>\<close>

function drain_all :: "nsr_plugin_entry \<Rightarrow> nsr_plugin_entry" where
  "drain_all e = (case plugin_drain_response e 0 of (True, e') \<Rightarrow> drain_all e' | (False, e') \<Rightarrow> e')"
  by pat_completeness auto
termination drain_all
proof (relation "measures [\<lambda>e. length (os_poll (rpc_os (pe_rpc e))), \<lambda>e. length (rpc_rx_buf (pe_rpc e))]", goal_cases)
  case (2 e b e')
  then show ?case using drain_response_less [of e 0 e'] by (auto simp: rpc_less_def)
qed simp

declare drain_all.simps [simp del]

section \<open>What reserved keys are\<close>

lemma sorted_remdups_adj_strict: "sorted xs \<Longrightarrow> sorted_wrt (<) (remdups_adj (xs :: 'a :: linorder list))"
  by (induction xs rule: remdups_adj.induct) auto

definition key_chars :: "string \<Rightarrow> string" where
  "key_chars val = filter is_key_char (map to_lower (filter (\<lambda>c. \<not> is_separator c) val))"

lemma collect_keys_eq:
  "length tmp \<le> NSR_KEY_USER_LEN \<Longrightarrow> collect_keys val tmp = tmp @ take (NSR_KEY_USER_LEN - length tmp) (key_chars val)"
proof (induction val tmp rule: collect_keys.induct)
  case (2 c val tmp)
  show ?case
  proof (cases "length tmp < NSR_KEY_USER_LEN")
    case True
    then obtain k where k: "NSR_KEY_USER_LEN - length tmp = Suc k" by (metis Suc_diff_Suc)
    then have "NSR_KEY_USER_LEN - Suc (length tmp) = k" by simp
    with 2 True k show ?thesis by (auto simp: key_chars_def Let_def)
  qed (use 2 in simp)
qed (simp add: key_chars_def)

lemma reserved_keys_eq:
  "pe_reserved_keys (parse_reserved_keys e val) = remdups_adj (sort (take NSR_KEY_USER_LEN (key_chars val)))"
  by (simp add: parse_reserved_keys_def collect_keys_eq key_chars_def)

end
