(* ===== verification/Float32.thy ===== *)
theory Float32
  imports Complex_Main "HOL-Library.Log_Nat"
begin

text \<open>
  C's \<open>float\<close> on the targets of the build (IEEE 754 binary32, \<open>FLT_EVAL_METHOD\<close> 0, no
  contraction in ISO mode): a finite value is a rational number, and every conversion and
  every operation is the exact one followed by one rounding to nearest, ties to even.  The
  values the program computes stay far below \<open>2^128\<close> (they come from 64-bit counters), so
  infinities and NaNs do not arise and are not represented; subnormals are.

  The lemmas give what the components need of rounding: it is monotone, odd, and exact on
  integers up to 24 bits.
\<close>

section \<open>Definition\<close>

definition pow2 :: "int \<Rightarrow> rat" where
  "pow2 e = (if 0 \<le> e then 2 ^ nat e else inverse (2 ^ nat (- e)))"

text \<open>The binary exponent \<open>\<lfloor>log\<^sub>2 x\<rfloor>\<close> of a positive rational.\<close>

definition rat_exp :: "rat \<Rightarrow> int" where
  "rat_exp x =
     (let (a, b) = quotient_of x; k = bitlen a - bitlen b
      in if x < pow2 k then k - 1 else k)"

definition round_even :: "rat \<Rightarrow> int" where
  "round_even y =
     (let f = \<lfloor>y\<rfloor>; d = y - of_int f
      in if d < 1 / 2 then f else if 1 / 2 < d then f + 1 else if even f then f else f + 1)"

definition f32 :: "rat \<Rightarrow> rat" where
  "f32 x = (if x = 0 then 0
            else let q = pow2 (max (rat_exp \<bar>x\<bar>) (- 126) - 23) in of_int (round_even (x / q)) * q)"

section \<open>Powers of two\<close>

lemma pow2_pos [simp]: "0 < pow2 e"
  by (simp add: pow2_def)

lemma pow2_0 [simp]: "pow2 0 = 1"
  by (simp add: pow2_def)

lemma pow2_powi: "pow2 e = 2 powi e"
  by (simp add: pow2_def power_int_def power_inverse [symmetric])

lemma pow2_add: "pow2 (a + b) = pow2 a * pow2 b"
  by (simp add: pow2_powi power_int_add)

lemma pow2_nat: "pow2 (int n) = 2 ^ n"
  by (simp add: pow2_def)

lemma pow2_mono: "a \<le> b \<Longrightarrow> pow2 a \<le> pow2 b"
  by (simp add: pow2_powi power_int_increasing)

lemma pow2_strict_mono: "a < b \<Longrightarrow> pow2 a < pow2 b"
  by (simp add: pow2_powi power_int_strict_increasing)

lemma pow2_less_iff: "pow2 a < pow2 b \<longleftrightarrow> a < b"
  by (meson linorder_not_le pow2_mono pow2_strict_mono)

lemma rat_exp_bounds:
  assumes "0 < x"
  shows "pow2 (rat_exp x) \<le> x" and "x < pow2 (rat_exp x + 1)"
proof -
  obtain a b where q: "quotient_of x = (a, b)" by (cases "quotient_of x")
  then have b: "0 < b" and x: "x = of_int a / of_int b"
    by (auto dest: quotient_of_denom_pos quotient_of_div)
  with assms have a: "0 < a" by (simp add: zero_less_divide_iff)
  let ?la = "bitlen a" and ?lb = "bitlen b"
  have la: "0 < ?la" and lb: "0 < ?lb" using a b bitlen_nonneg [of a] bitlen_nonneg [of b]
    by (auto simp: order_less_le bitlen_eq_zero_iff dest: sym)
  have "2 ^ nat (?la - 1) \<le> a" "a < 2 ^ nat ?la" "2 ^ nat (?lb - 1) \<le> b" "b < 2 ^ nat ?lb"
    using bitlen_bounds [of a] bitlen_bounds [of b] a b by auto
  then have "(2 ^ nat (?la - 1) :: rat) \<le> of_int a" "(of_int a :: rat) < 2 ^ nat ?la"
    "(2 ^ nat (?lb - 1) :: rat) \<le> of_int b" "(of_int b :: rat) < 2 ^ nat ?lb"
    by (metis of_int_le_iff of_int_less_iff of_int_power of_int_numeral)+
  then have A: "pow2 (?la - 1) \<le> of_int a" "of_int a < pow2 ?la"
    and B: "pow2 (?lb - 1) \<le> of_int b" "of_int b < pow2 ?lb"
    using la lb by (auto simp: pow2_def)
  have "x < pow2 ?la / pow2 (?lb - 1)"
    unfolding x using A B a by (intro frac_less) auto
  also have "\<dots> = pow2 (?la - ?lb + 1)"
    by (simp add: pow2_powi power_int_diff power_int_add field_simps)
  finally have up: "x < pow2 (?la - ?lb + 1)" .
  have "pow2 (?la - ?lb - 1) = pow2 (?la - 1) / pow2 ?lb"
    by (simp add: pow2_powi power_int_diff power_int_add field_simps)
  also have "\<dots> \<le> x"
    unfolding x using A B a b by (intro frac_le) auto
  finally have lo: "pow2 (?la - ?lb - 1) \<le> x" .
  show "pow2 (rat_exp x) \<le> x" and "x < pow2 (rat_exp x + 1)"
    using up lo by (auto simp: rat_exp_def q Let_def)
qed

lemma rat_exp_mono:
  assumes "0 < x" "x \<le> y"
  shows "rat_exp x \<le> rat_exp y"
proof -
  have "pow2 (rat_exp x) < pow2 (rat_exp y + 1)"
    using rat_exp_bounds [of x] rat_exp_bounds [of y] assms by linarith
  then show ?thesis by (simp add: pow2_less_iff)
qed

section \<open>Rounding to the nearest integer\<close>

lemma round_even_bounds: "\<lfloor>y\<rfloor> \<le> round_even y" "round_even y \<le> \<lfloor>y\<rfloor> + 1"
  by (auto simp: round_even_def Let_def)

lemma round_even_of_int [simp]: "round_even (of_int n) = n"
  by (simp add: round_even_def)

lemma round_even_mono:
  assumes "x \<le> y"
  shows "round_even x \<le> round_even y"
proof (cases "\<lfloor>x\<rfloor> = \<lfloor>y\<rfloor>")
  case True
  then show ?thesis using assms by (auto simp: round_even_def Let_def)
next
  case False
  with assms have "\<lfloor>x\<rfloor> + 1 \<le> \<lfloor>y\<rfloor>" using floor_mono [OF assms] by linarith
  then show ?thesis using round_even_bounds [of x] round_even_bounds [of y] by linarith
qed

lemma round_even_le: "y \<le> of_int n \<Longrightarrow> round_even y \<le> n"
  using round_even_mono [of y "of_int n"] by simp

lemma round_even_ge: "of_int n \<le> y \<Longrightarrow> n \<le> round_even y"
  using round_even_mono [of "of_int n" y] by simp

lemma round_even_minus: "round_even (- y) = - round_even y"
proof (cases "y = of_int \<lfloor>y\<rfloor>")
  case True
  then have "- y = of_int (- \<lfloor>y\<rfloor>)" by simp
  then show ?thesis using True by (metis round_even_of_int)
next
  case False
  then have "\<lfloor>- y\<rfloor> = - \<lfloor>y\<rfloor> - 1"
    by (metis ceiling_altdef ceiling_def diff_minus_eq_add minus_diff_eq minus_diff_commute minus_minus)
  then show ?thesis by (auto simp: round_even_def Let_def)
qed

section \<open>Rounding to binary32\<close>

lemma f32_0 [simp]: "f32 0 = 0"
  by (simp add: f32_def)

lemma f32_minus: "f32 (- x) = - f32 x"
  by (simp add: f32_def Let_def round_even_minus)

lemma f32_nonneg: "0 \<le> x \<Longrightarrow> 0 \<le> f32 x"
  using round_even_ge [of 0 "x / pow2 (max (rat_exp \<bar>x\<bar>) (- 126) - 23)"]
  by (auto simp: f32_def Let_def less_imp_le intro: mult_nonneg_nonneg)

lemma f32_mono_pos:
  assumes "0 < x" "x \<le> y"
  shows "f32 x \<le> f32 y"
proof -
  define E F where "E = max (rat_exp x) (- 126)" and "F = max (rat_exp y) (- 126)"
  have fx: "f32 x = of_int (round_even (x / pow2 (E - 23))) * pow2 (E - 23)"
    and fy: "f32 y = of_int (round_even (y / pow2 (F - 23))) * pow2 (F - 23)"
    using assms by (auto simp: f32_def E_def F_def Let_def)
  have "E \<le> F" using rat_exp_mono [OF assms] by (auto simp: E_def F_def)
  show ?thesis
  proof (cases "E = F")
    case True
    have "x / pow2 (E - 23) \<le> y / pow2 (E - 23)"
      using assms by (simp add: divide_right_mono less_imp_le)
    then show ?thesis unfolding fx fy True by (intro mult_right_mono) (auto intro: round_even_mono simp: less_imp_le)
  next
    case False
    with \<open>E \<le> F\<close> have "E < F" by simp
    then have "F = rat_exp y" by (auto simp: E_def F_def)
    have "x < pow2 (E + 1)"
      using rat_exp_bounds(2) [OF assms(1)] pow2_mono [of "rat_exp x + 1" "E + 1"] by (simp add: E_def)
    also have "\<dots> = of_int (2 ^ 24) * pow2 (E - 23)"
      using pow2_add [of 24 "E - 23"] pow2_nat [of 24] by (simp add: add.commute)
    finally have "x / pow2 (E - 23) \<le> of_int (2 ^ 24)"
      by (simp add: divide_le_eq)
    then have "round_even (x / pow2 (E - 23)) \<le> 2 ^ 24" by (rule round_even_le)
    then have "(of_int (round_even (x / pow2 (E - 23))) :: rat) \<le> of_int (2 ^ 24)"
      by (simp only: of_int_le_iff)
    then have "f32 x \<le> of_int (2 ^ 24) * pow2 (E - 23)"
      unfolding fx by (intro mult_right_mono) (auto simp: less_imp_le)
    also have "\<dots> = pow2 (E + 1)"
      using pow2_add [of 24 "E - 23"] pow2_nat [of 24] by (simp add: add.commute)
    also have "\<dots> \<le> pow2 F" using \<open>E < F\<close> by (intro pow2_mono) simp
    also have "\<dots> = of_int (2 ^ 23) * pow2 (F - 23)"
      using pow2_add [of 23 "F - 23"] pow2_nat [of 23] by simp
    also have "\<dots> \<le> f32 y"
    proof -
      have "of_int (2 ^ 23) * pow2 (F - 23) \<le> y"
        using rat_exp_bounds(1) [of y] assms pow2_add [of 23 "F - 23"] pow2_nat [of 23]
        by (simp add: \<open>F = rat_exp y\<close>)
      then have "of_int (2 ^ 23) \<le> y / pow2 (F - 23)" by (simp add: le_divide_eq)
      then have "2 ^ 23 \<le> round_even (y / pow2 (F - 23))" by (rule round_even_ge)
      then have "of_int (2 ^ 23) \<le> (of_int (round_even (y / pow2 (F - 23))) :: rat)"
        by (simp only: of_int_le_iff)
      then show ?thesis unfolding fy by (intro mult_right_mono) (auto simp: less_imp_le)
    qed
    finally show ?thesis .
  qed
qed

lemma f32_mono: "x \<le> y \<Longrightarrow> f32 x \<le> f32 y"
proof -
  assume le: "x \<le> y"
  consider "0 < x" | "x \<le> 0" "0 \<le> y" | "y < 0" by linarith
  then show ?thesis
  proof cases
    case 1
    then show ?thesis using le by (rule f32_mono_pos)
  next
    case 2
    then have "0 \<le> f32 (- x)" "0 \<le> f32 y" by (auto intro: f32_nonneg)
    then show ?thesis by (simp add: f32_minus)
  next
    case 3
    with le f32_mono_pos [of "- y" "- x"] show ?thesis by (simp add: f32_minus)
  qed
qed

lemma f32_1 [simp]: "f32 1 = 1"
  by code_simp

text \<open>Doubling a normal number doubles its rounding.\<close>

lemma rat_exp_unique: "pow2 e \<le> x \<Longrightarrow> x < pow2 (e + 1) \<Longrightarrow> rat_exp x = e"
proof -
  assume a: "pow2 e \<le> x" "x < pow2 (e + 1)"
  have x: "0 < x" using a(1) pow2_pos [of e] by linarith
  have "pow2 e < pow2 (rat_exp x + 1)" "pow2 (rat_exp x) < pow2 (e + 1)"
    using a rat_exp_bounds [OF x] by linarith+
  then show ?thesis by (simp add: pow2_less_iff)
qed

lemma f32_double:
  assumes "pow2 (- 126) \<le> x"
  shows "f32 (2 * x) = 2 * f32 x"
proof -
  have x: "0 < x" using assms pow2_pos [of "- 126"] by linarith
  have two: "pow2 (a + 1) = 2 * pow2 a" for a by (simp add: pow2_add) (simp add: pow2_def)
  have e: "rat_exp (2 * x) = rat_exp x + 1"
    using rat_exp_bounds [OF x] two [of "rat_exp x"] two [of "rat_exp x + 1"] by (intro rat_exp_unique) linarith+
  have "- 126 \<le> rat_exp x" 
    using le_less_trans [OF assms rat_exp_bounds(2) [OF x]] by (simp add: pow2_less_iff)
  then have "pow2 (max (rat_exp (2 * x)) (- 126) - 23) = 2 * pow2 (max (rat_exp x) (- 126) - 23)"
    using two [of "rat_exp x - 23"] unfolding e by (simp add: max_def)
  with x show ?thesis by (simp add: f32_def Let_def abs_mult)
qed

lemma f32_scale: "pow2 (- 126) \<le> x \<Longrightarrow> f32 (2 ^ k * x) = 2 ^ k * f32 x"
proof (induction k)
  case (Suc k)
  have "0 < x" using Suc.prems pow2_pos [of "- 126"] by linarith
  then have "x \<le> 2 ^ k * x" by simp
  then have "f32 (2 * (2 ^ k * x)) = 2 * f32 (2 ^ k * x)" using Suc.prems by (intro f32_double) linarith
  with Suc show ?case by (simp add: mult.assoc)
qed simp

end
