(* ===== verification/Topology.thy ===== *)
theory Topology
  imports Telemetry Float32
begin

text \<open>
  The topology graph, \<open>src/state/topology.c\<close>: nodes keyed by address and target, edges
  between them, per-node health, and the update from a telemetry snapshot.

  A node pointer is an index into the node array.  Nodes and edges are never removed.  The
  clock is an argument.  \<open>float\<close> members hold rationals that \<open>f32\<close> has rounded; \<open>route_changes\<close>
  and \<open>control_plane\<close> are written only by \<open>memset\<close> and by plugins.
\<close>

section \<open>State\<close>

definition NSR_TOPOLOGY_MAX_NODES :: nat where
  "NSR_TOPOLOGY_MAX_NODES = 1024"

record nsr_node_health =
  nh_loss_rate :: rat
  nh_rtt_us :: rat
  nh_jitter_us :: rat
  nh_instability :: rat
  nh_route_changes :: u32
  nh_sent :: u32
  nh_recv :: u32
  nh_timeouts :: u32
  nh_last_rtt_us :: u64
  nh_last_update_us :: u64

record nsr_topology_node =
  nd_id :: u32
  nd_addr :: string
  nd_target_ip :: string
  nd_ttl :: u8
  nd_is_destination :: bool
  nd_control_plane :: bool
  nd_active :: bool
  nd_health :: nsr_node_health

record nsr_topology_edge =
  ed_from :: u32
  ed_to :: u32
  ed_active :: bool

record nsr_topology_state =
  tp_nodes :: "nsr_topology_node list"
  tp_edges :: "nsr_topology_edge list"
  tp_node_count :: u32
  tp_edge_count :: u32
  tp_next_id :: u32

definition health_zero :: nsr_node_health where
  "health_zero = \<lparr>nh_loss_rate = 0, nh_rtt_us = 0, nh_jitter_us = 0, nh_instability = 0, nh_route_changes = 0,
     nh_sent = 0, nh_recv = 0, nh_timeouts = 0, nh_last_rtt_us = 0, nh_last_update_us = 0\<rparr>"

definition node_zero :: nsr_topology_node where
  "node_zero = \<lparr>nd_id = 0, nd_addr = [], nd_target_ip = [], nd_ttl = 0, nd_is_destination = False,
     nd_control_plane = False, nd_active = False, nd_health = health_zero\<rparr>"

definition edge_zero :: nsr_topology_edge where
  "edge_zero = \<lparr>ed_from = 0, ed_to = 0, ed_active = False\<rparr>"

section \<open>Functions\<close>

definition nsr_topology_init :: nsr_topology_state where
  "nsr_topology_init = \<lparr>tp_nodes = replicate NSR_TOPOLOGY_MAX_NODES node_zero,
     tp_edges = replicate (NSR_TOPOLOGY_MAX_NODES * 2) edge_zero,
     tp_node_count = 0, tp_edge_count = 0, tp_next_id = 1\<rparr>"

text \<open>The index of the first element with a property: the search loops.\<close>

fun find_index :: "('a \<Rightarrow> bool) \<Rightarrow> 'a list \<Rightarrow> nat option" where
  "find_index P [] = None"
| "find_index P (x # xs) = (if P x then Some 0 else map_option Suc (find_index P xs))"

definition nsr_topology_find_by_addr_and_target :: "nsr_topology_state \<Rightarrow> string \<Rightarrow> string \<Rightarrow> nat option" where
  "nsr_topology_find_by_addr_and_target topo addr target_ip =
     find_index (\<lambda>n. nd_active n \<and> nd_addr n = addr \<and> nd_target_ip n = target_ip) (tp_nodes topo)"

definition nsr_topology_upsert_node ::
    "nsr_topology_state \<Rightarrow> string \<Rightarrow> u8 \<Rightarrow> string \<Rightarrow> bool \<Rightarrow> u32 \<times> nsr_topology_state" where
  "nsr_topology_upsert_node topo addr ttl target_ip is_destination =
     (if addr = [] \<or> target_ip = [] then (0, topo)
      else case nsr_topology_find_by_addr_and_target topo addr target_ip of
        Some i \<Rightarrow>
          let node = tp_nodes topo ! i
          in (nd_id node, topo\<lparr>tp_nodes := (tp_nodes topo)[i := node\<lparr>nd_ttl := ttl, nd_is_destination := is_destination\<rparr>]\<rparr>)
      | None \<Rightarrow>
          if unat (tp_node_count topo) \<ge> NSR_TOPOLOGY_MAX_NODES then (0, topo)
          else let ident = tp_next_id topo;
                   node = node_zero\<lparr>nd_id := ident, nd_ttl := ttl, nd_active := True, nd_is_destination := is_destination,
                            nd_addr := c_strncpy 47 addr, nd_target_ip := c_strncpy 47 target_ip\<rparr>
               in (ident, topo\<lparr>tp_next_id := ident + 1,
                       tp_nodes := (tp_nodes topo)[unat ident mod NSR_TOPOLOGY_MAX_NODES := node],
                       tp_node_count := tp_node_count topo + 1\<rparr>))"

definition add_edge :: "u32 \<Rightarrow> u32 \<Rightarrow> nsr_topology_state \<Rightarrow> nsr_topology_state" where
  "add_edge from_id to_id topo =
     (if from_id = 0 \<or> to_id = 0 \<or> from_id = to_id then topo
      else if unat (tp_edge_count topo) \<ge> NSR_TOPOLOGY_MAX_NODES * 2 then topo
      else case find_index (\<lambda>e. ed_active e \<and> ed_from e = from_id \<and> ed_to e = to_id) (tp_edges topo) of
        Some _ \<Rightarrow> topo
      | None \<Rightarrow>
          (case find_index (\<lambda>e. \<not> ed_active e) (tp_edges topo) of
             None \<Rightarrow> topo
           | Some i \<Rightarrow> topo\<lparr>tp_edges := (tp_edges topo)[i := \<lparr>ed_from = from_id, ed_to = to_id, ed_active = True\<rparr>],
                            tp_edge_count := tp_edge_count topo + 1\<rparr>))"

definition node_by_id :: "nsr_topology_state \<Rightarrow> u32 \<Rightarrow> nat option" where
  "node_by_id topo ident = find_index (\<lambda>n. nd_active n \<and> nd_id n = ident) (tp_nodes topo)"

definition u64_to_float :: "u64 \<Rightarrow> rat" where
  "u64_to_float w = f32 (of_nat (unat w))"

definition u32_float :: "u32 \<Rightarrow> rat" where
  "u32_float w = f32 (of_nat (unat w))"

definition update_node_health :: "u64 \<Rightarrow> nsr_hop_info \<Rightarrow> u32 \<Rightarrow> nsr_topology_node \<Rightarrow> nsr_topology_node" where
  "update_node_health now h specific_recv node =
     (let prev_recv = nh_recv (nd_health node);
          hl = (nd_health node)\<lparr>nh_rtt_us := u64_to_float (hop_rtt_us h), nh_last_rtt_us := hop_rtt_us h,
                 nh_sent := hop_sent h, nh_recv := specific_recv,
                 nh_timeouts := (if hop_sent h > specific_recv then hop_sent h - specific_recv else 0)\<rparr>;
          hl = (if hop_sent h > 0
                then hl\<lparr>nh_loss_rate := f32 (1 - f32 (u32_float specific_recv / u32_float (hop_sent h)))\<rparr> else hl);
          hl = (if prev_recv \<noteq> specific_recv \<and> specific_recv > 0
                then let delta = \<bar>f32 (u64_to_float (nh_last_rtt_us hl) - nh_rtt_us hl)\<bar>
                     in hl\<lparr>nh_jitter_us := f32 (f32 (nh_jitter_us hl * f32 (8/10)) + f32 (delta * f32 (2/10)))\<rparr>
                else hl)
      in node\<lparr>nd_health := hl\<lparr>nh_last_update_us := now\<rparr>\<rparr>)"

text \<open>
  One address of a hop: the node is created or refreshed, and its health updated when it
  exists.  The result is the identifier the code stores in \<open>hop_ids\<close>.
\<close>

definition upsert_hop_addr ::
    "u64 \<Rightarrow> nsr_hop_info \<Rightarrow> u8 \<Rightarrow> string \<Rightarrow> string \<Rightarrow> u32 \<Rightarrow> nsr_topology_state \<Rightarrow> u32 \<times> nsr_topology_state" where
  "upsert_hop_addr now h ttl target_ip addr recv topo =
     (case nsr_topology_upsert_node topo addr ttl target_ip False of (ident, topo) \<Rightarrow>
        if ident \<noteq> 0 then
          (case node_by_id topo ident of
             None \<Rightarrow> (ident, topo)
           | Some i \<Rightarrow> (ident, topo\<lparr>tp_nodes := (tp_nodes topo)[i := update_node_health now h recv (tp_nodes topo ! i)]\<rparr>))
        else (ident, topo))"

fun upsert_aliases ::
    "(nat \<Rightarrow> u64) \<Rightarrow> nat \<Rightarrow> nsr_hop_info \<Rightarrow> u8 \<Rightarrow> string \<Rightarrow> nsr_hop_alias list \<Rightarrow> nsr_topology_state \<Rightarrow>
     u32 list \<times> nsr_topology_state" where
  "upsert_aliases clock k h ttl target_ip [] topo = ([], topo)"
| "upsert_aliases clock k h ttl target_ip (a # as) topo =
     (case upsert_hop_addr (clock k) h ttl target_ip (al_addr a) (al_recv a) topo of (ident, topo) \<Rightarrow>
      case upsert_aliases clock (Suc k) h ttl target_ip as topo of (ids, topo) \<Rightarrow> (ident # ids, topo))"

text \<open>A row of \<open>hop_ids\<close>: the primary address, the aliases, zero for the rest.  \<open>clock k\<close> is
  what the clock shows at the \<open>k\<close>-th health update of the hop.\<close>

definition upsert_hop ::
    "(nat \<Rightarrow> u64) \<Rightarrow> nat \<Rightarrow> string \<Rightarrow> nsr_hop_info \<Rightarrow> nsr_topology_state \<Rightarrow> u32 list \<times> nsr_topology_state" where
  "upsert_hop clock i target_ip h topo =
     (if hop_addr h = [] then (replicate 4 0, topo)
      else case upsert_hop_addr (clock 0) h (of_nat i) target_ip (hop_addr h) (hop_primary_recv h) topo of (ident, topo) \<Rightarrow>
           case upsert_aliases clock 1 h (of_nat i) target_ip (live_aliases h) topo of (ids, topo) \<Rightarrow>
             (take 4 (ident # ids @ replicate 3 0), topo))"

fun upsert_hops ::
    "(nat \<Rightarrow> nat \<Rightarrow> u64) \<Rightarrow> nat \<Rightarrow> string \<Rightarrow> nsr_hop_info list \<Rightarrow> nsr_topology_state \<Rightarrow> u32 list list \<times> nsr_topology_state" where
  "upsert_hops clock i target_ip [] topo = ([], topo)"
| "upsert_hops clock i target_ip (h # hs) topo =
     (case upsert_hop (clock i) i target_ip h topo of (row, topo) \<Rightarrow>
      case upsert_hops clock (Suc i) target_ip hs topo of (rows, topo) \<Rightarrow> (row # rows, topo))"

definition link_source :: "u32 \<Rightarrow> u32 list \<Rightarrow> u32 \<Rightarrow> nsr_topology_state \<Rightarrow> nsr_topology_state" where
  "link_source dest_id next_row from_id topo =
     (if from_id = 0 then topo
      else let topo = fold (\<lambda>to_id topo. if to_id \<noteq> 0 then add_edge from_id to_id topo else topo) next_row topo;
               any_next = list_ex (\<lambda>to_id. to_id \<noteq> 0) next_row
           in if \<not> any_next \<and> dest_id \<noteq> 0 then add_edge from_id dest_id topo else topo)"

text \<open>\<open>hop_ids\<close> as 64 rows, row 0 zero; the edge loop runs over \<open>i = 1 .. 62\<close>.\<close>

definition link_hops :: "u32 \<Rightarrow> u32 list list \<Rightarrow> nsr_topology_state \<Rightarrow> nsr_topology_state" where
  "link_hops dest_id hop_ids topo =
     fold (\<lambda>i. fold (link_source dest_id (hop_ids ! (i + 1))) (hop_ids ! i)) [1..<NSR_MAX_HOPS - 1] topo"

definition last_ttl :: "u32 list list \<Rightarrow> nat" where
  "last_ttl hop_ids = (case find (\<lambda>i. hop_ids ! i ! 0 \<noteq> 0) (rev [1..<NSR_MAX_HOPS]) of None \<Rightarrow> 0 | Some i \<Rightarrow> i)"

definition link_last :: "u32 \<Rightarrow> u32 list list \<Rightarrow> nsr_topology_state \<Rightarrow> nsr_topology_state" where
  "link_last dest_id hop_ids topo =
     (let lt = last_ttl hop_ids
      in if lt > 0 \<and> dest_id \<noteq> 0 then
           let topo = fold (\<lambda>from_id topo. if from_id \<noteq> 0 \<and> from_id \<noteq> dest_id then add_edge from_id dest_id topo else topo)
                        (hop_ids ! lt) topo
           in (case node_by_id topo dest_id of
                 None \<Rightarrow> topo
               | Some i \<Rightarrow> topo\<lparr>tp_nodes := (tp_nodes topo)[i := (tp_nodes topo ! i)\<lparr>nd_ttl := of_nat (lt + 1)\<rparr>]\<rparr>)
         else topo)"

definition nsr_topology_update_from_telemetry ::
    "(nat \<Rightarrow> nat \<Rightarrow> u64) \<Rightarrow> nsr_telemetry_state \<Rightarrow> nsr_topology_state \<Rightarrow> nsr_topology_state" where
  "nsr_topology_update_from_telemetry clock tel topo =
     (let target_ip = tel_target_ip tel
      in if target_ip = [] then topo
         else case nsr_topology_upsert_node topo target_ip 0 target_ip True of (dest_id, topo) \<Rightarrow>
              case upsert_hops clock 1 target_ip (drop 1 (take NSR_MAX_HOPS (tel_hops tel))) topo of (rows, topo) \<Rightarrow>
                let hop_ids = replicate 4 0 # rows
                in link_last dest_id hop_ids (link_hops dest_id hop_ids topo))"

definition nsr_topology_active_count :: "nsr_topology_state \<Rightarrow> int" where
  "nsr_topology_active_count topo = sint (tp_node_count topo)"

definition nsr_health_score :: "nsr_node_health \<Rightarrow> rat" where
  "nsr_health_score h =
     (let rtt_factor = f32 (nh_rtt_us h / 200000);
          rtt_factor = (if rtt_factor > 1 then 1 else rtt_factor);
          jitter_factor = f32 (nh_jitter_us h / 100000);
          jitter_factor = (if jitter_factor > 1 then 1 else jitter_factor)
      in f32 (f32 (f32 (f32 (nh_loss_rate h * f32 (50/100)) + f32 (rtt_factor * f32 (20/100)))
                   + f32 (jitter_factor * f32 (15/100))) + f32 (nh_instability h * f32 (15/100))))"

section \<open>The node registry as an interface\<close>

text \<open>
  A registry gives each key an identifier that never changes and is never shared, until it is
  full; \<open>'x\<close> is payload that a registration refreshes.
\<close>

locale registry =
  fixes upsert :: "'x \<Rightarrow> 's \<Rightarrow> 'k \<Rightarrow> u32 \<times> 's"
    and lookup :: "'s \<Rightarrow> 'k \<Rightarrow> u32 option"
    and valid :: "'k \<Rightarrow> bool"
    and invar :: "'s \<Rightarrow> bool"
    and size :: "'s \<Rightarrow> nat"
    and capacity :: nat
  assumes lookup_inj: "invar s \<Longrightarrow> lookup s k = Some i \<Longrightarrow> lookup s k' = Some i \<Longrightarrow> k = k'"
    and lookup_nonzero: "invar s \<Longrightarrow> lookup s k = Some i \<Longrightarrow> i \<noteq> 0"
    and upsert_known: "invar s \<Longrightarrow> valid k \<Longrightarrow> lookup s k = Some i \<Longrightarrow>
          fst (upsert x s k) = i \<and> lookup (snd (upsert x s k)) = lookup s \<and>
          invar (snd (upsert x s k)) \<and> size (snd (upsert x s k)) = size s"
    and upsert_new: "invar s \<Longrightarrow> valid k \<Longrightarrow> lookup s k = None \<Longrightarrow> size s < capacity \<Longrightarrow>
          lookup (snd (upsert x s k)) = (lookup s)(k \<mapsto> fst (upsert x s k)) \<and>
          invar (snd (upsert x s k)) \<and> size (snd (upsert x s k)) = Suc (size s)"
    and upsert_full: "invar s \<Longrightarrow> valid k \<Longrightarrow> lookup s k = None \<Longrightarrow> \<not> size s < capacity \<Longrightarrow>
          upsert x s k = (0, s)"
begin

lemma upsert_invar: "invar s \<Longrightarrow> valid k \<Longrightarrow> invar (snd (upsert x s k))"
  by (cases "lookup s k"; cases "size s < capacity") (auto simp: upsert_known upsert_new upsert_full)

lemma upsert_stable: "invar s \<Longrightarrow> valid k \<Longrightarrow> lookup s k' = Some i \<Longrightarrow> lookup (snd (upsert x s k)) k' = Some i"
  by (cases "lookup s k"; cases "size s < capacity") (auto simp: upsert_known upsert_new upsert_full)

lemma upsert_result:
  "invar s \<Longrightarrow> valid k \<Longrightarrow> fst (upsert x s k) \<noteq> 0 \<Longrightarrow> lookup (snd (upsert x s k)) k = Some (fst (upsert x s k))"
  by (cases "lookup s k"; cases "size s < capacity") (auto simp: upsert_known upsert_new upsert_full)

lemma upsert_zero_iff:
  assumes "invar s" "valid k"
  shows "fst (upsert x s k) = 0 \<longleftrightarrow> lookup s k = None \<and> \<not> size s < capacity"
proof (cases "lookup s k")
  case (Some i)
  then show ?thesis using assms upsert_known [OF assms Some] lookup_nonzero [OF assms(1) Some] by simp
next
  case None
  show ?thesis
  proof (cases "size s < capacity")
    case True
    from upsert_new [OF assms None True] have "lookup (snd (upsert x s k)) k = Some (fst (upsert x s k))"
      and "invar (snd (upsert x s k))" by simp_all
    with True show ?thesis using lookup_nonzero by blast
  next
    case False
    with None assms show ?thesis by (simp add: upsert_full)
  qed
qed

lemma upserts_stable:
  "invar s \<Longrightarrow> \<forall>(x, k) \<in> set xks. valid k \<Longrightarrow> lookup s k' = Some i \<Longrightarrow>
     invar (fold (\<lambda>(x, k) s. snd (upsert x s k)) xks s) \<and> lookup (fold (\<lambda>(x, k) s. snd (upsert x s k)) xks s) k' = Some i"
  by (induction xks arbitrary: s) (auto simp: upsert_invar upsert_stable)

text \<open>A key registered once keeps its identifier through any later registrations.\<close>

lemma upsert_again:
  assumes "invar s" "valid k" "\<forall>(x, k) \<in> set xks. valid k" "fst (upsert x s k) \<noteq> 0"
  shows "fst (upsert y (fold (\<lambda>(x, k) s. snd (upsert x s k)) xks (snd (upsert x s k))) k) = fst (upsert x s k)"
proof -
  have "lookup (snd (upsert x s k)) k = Some (fst (upsert x s k))" using assms by (intro upsert_result)
  with upserts_stable [OF upsert_invar [OF assms(1,2)] assms(3)] show ?thesis
    using upsert_known [OF _ assms(2)] by blast
qed

end

section \<open>Invariant\<close>

lemma find_index_Some:
  "find_index P xs = Some i \<Longrightarrow> i < length xs \<and> P (xs ! i) \<and> (\<forall>j < i. \<not> P (xs ! j))"
  by (induction xs arbitrary: i) (auto split: if_splits simp: nth_Cons' less_Suc_eq_0_disj)

lemma find_index_None: "find_index P xs = None \<longleftrightarrow> (\<forall>x \<in> set xs. \<not> P x)"
  by (induction xs) auto

lemma find_index_eq_Some:
  assumes "i < length xs" "P (xs ! i)" "\<And>j. j < length xs \<Longrightarrow> P (xs ! j) \<Longrightarrow> j = i"
  shows "find_index P xs = Some i"
proof (cases "find_index P xs")
  case None
  with assms(1,2) show ?thesis by (simp add: find_index_None)
next
  case (Some j)
  then have "j < length xs" "P (xs ! j)" using find_index_Some by blast+
  then have "j = i" by (rule assms(3))
  with Some show ?thesis by simp
qed

text \<open>The identifier kept in slot \<open>j\<close>: identifiers 1 to 1024 modulo 1024.\<close>

definition slot_id :: "nat \<Rightarrow> nat" where
  "slot_id j = (if j = 0 then 1024 else j)"

definition node_key :: "nsr_topology_node \<Rightarrow> string \<times> string" where
  "node_key n = (nd_addr n, nd_target_ip n)"

definition key_ok :: "string \<times> string \<Rightarrow> bool" where
  "key_ok k \<longleftrightarrow> fst k \<noteq> [] \<and> length (fst k) \<le> 47 \<and> snd k \<noteq> [] \<and> length (snd k) \<le> 47"

text \<open>
  The first \<open>node_count\<close> identifiers are in use, each in its slot; keys are well formed and
  different; the edges in use are the first \<open>edge_count\<close>, join two different existing nodes
  and are all different.
\<close>

definition nodes_inv :: "nsr_topology_node list \<Rightarrow> nat \<Rightarrow> bool" where
  "nodes_inv ns c \<longleftrightarrow> length ns = 1024 \<and> c \<le> 1024 \<and>
     (\<forall>j < 1024. nd_active (ns ! j) \<longleftrightarrow> slot_id j \<le> c) \<and>
     (\<forall>j < 1024. nd_active (ns ! j) \<longrightarrow> unat (nd_id (ns ! j)) = slot_id j \<and> key_ok (node_key (ns ! j))) \<and>
     (\<forall>j < 1024. \<forall>k < 1024. nd_active (ns ! j) \<longrightarrow> nd_active (ns ! k) \<longrightarrow> node_key (ns ! j) = node_key (ns ! k) \<longrightarrow> j = k)"

definition edge_pair :: "nsr_topology_edge \<Rightarrow> u32 \<times> u32" where
  "edge_pair e = (ed_from e, ed_to e)"

definition edges_inv :: "nsr_topology_edge list \<Rightarrow> nat \<Rightarrow> nat \<Rightarrow> bool" where
  "edges_inv es m c \<longleftrightarrow> length es = 2048 \<and> m \<le> 2048 \<and>
     (\<forall>j < 2048. ed_active (es ! j) \<longleftrightarrow> j < m) \<and>
     (\<forall>j < m. let e = es ! j in ed_from e \<noteq> ed_to e \<and> 1 \<le> unat (ed_from e) \<and> unat (ed_from e) \<le> c \<and>
                1 \<le> unat (ed_to e) \<and> unat (ed_to e) \<le> c) \<and>
     distinct (map edge_pair (take m es))"

definition topo_inv :: "nsr_topology_state \<Rightarrow> bool" where
  "topo_inv t \<longleftrightarrow> nodes_inv (tp_nodes t) (unat (tp_node_count t)) \<and> tp_next_id t = tp_node_count t + 1 \<and>
     edges_inv (tp_edges t) (unat (tp_edge_count t)) (unat (tp_node_count t))"

definition topo_lookup :: "nsr_topology_state \<Rightarrow> string \<times> string \<Rightarrow> u32 option" where
  "topo_lookup t k = map_option (\<lambda>i. nd_id (tp_nodes t ! i)) (nsr_topology_find_by_addr_and_target t (fst k) (snd k))"

lemma topo_inv_init [simp]: "topo_inv nsr_topology_init"
  by (simp add: topo_inv_def nsr_topology_init_def nodes_inv_def edges_inv_def NSR_TOPOLOGY_MAX_NODES_def
      node_zero_def edge_zero_def slot_id_def)

lemma find_by_key:
  "nsr_topology_find_by_addr_and_target t a g = find_index (\<lambda>n. nd_active n \<and> node_key n = (a, g)) (tp_nodes t)"
  by (simp add: nsr_topology_find_by_addr_and_target_def node_key_def)

lemma find_node_iff:
  assumes "nodes_inv ns c"
  shows "find_index (\<lambda>n. nd_active n \<and> node_key n = k) ns = Some i \<longleftrightarrow>
           i < 1024 \<and> nd_active (ns ! i) \<and> node_key (ns ! i) = k"
proof
  assume "find_index (\<lambda>n. nd_active n \<and> node_key n = k) ns = Some i"
  with assms show "i < 1024 \<and> nd_active (ns ! i) \<and> node_key (ns ! i) = k"
    using find_index_Some by (fastforce simp: nodes_inv_def)
next
  assume i: "i < 1024 \<and> nd_active (ns ! i) \<and> node_key (ns ! i) = k"
  then show "find_index (\<lambda>n. nd_active n \<and> node_key n = k) ns = Some i"
    using assms by (intro find_index_eq_Some) (auto simp: nodes_inv_def)
qed

definition same_node :: "nsr_topology_node \<Rightarrow> nsr_topology_node \<Rightarrow> bool" where
  "same_node n m \<longleftrightarrow> nd_active n = nd_active m \<and> nd_id n = nd_id m \<and> node_key n = node_key m"

lemma same_node_nth:
  assumes "i < length ns \<Longrightarrow> same_node n' (ns ! i)"
  shows "j < length ns \<Longrightarrow> same_node (ns[i := n'] ! j) (ns ! j)"
  using assms by (cases "i = j") (auto simp: same_node_def)

lemma nodes_inv_same:
  assumes "nodes_inv ns c" "length ns' = length ns" "\<And>j. j < length ns \<Longrightarrow> same_node (ns' ! j) (ns ! j)"
  shows "nodes_inv ns' c"
  using assms unfolding nodes_inv_def same_node_def by simp

lemma find_index_same:
  assumes "length ns' = length ns" "\<And>j. j < length ns \<Longrightarrow> P (ns' ! j) = P (ns ! j)"
  shows "find_index P ns' = find_index P ns"
  using assms
proof (induction ns' ns rule: list_induct2')
  case (4 x xs y ys)
  have "P x = P y" using 4(3) [of 0] by simp
  moreover have "find_index P xs = find_index P ys" using 4(2) 4(3) [of "Suc _"] by (intro 4(1)) auto
  ultimately show ?case by simp
qed auto

lemma topo_lookup_same:
  assumes "length (tp_nodes t') = length (tp_nodes t)"
    and "\<And>j. j < length (tp_nodes t) \<Longrightarrow> same_node (tp_nodes t' ! j) (tp_nodes t ! j)"
  shows "topo_lookup t' = topo_lookup t"
proof
  fix k
  let ?P = "\<lambda>n. nd_active n \<and> node_key n = (fst k, snd k)"
  have eq: "find_index ?P (tp_nodes t') = find_index ?P (tp_nodes t)"
    using assms by (intro find_index_same) (simp_all add: same_node_def)
  show "topo_lookup t' k = topo_lookup t k"
  proof (cases "find_index ?P (tp_nodes t)")
    case None
    with eq show ?thesis by (simp add: topo_lookup_def find_by_key)
  next
    case (Some i)
    then have "i < length (tp_nodes t)" using find_index_Some by blast
    with assms(2) [of i] Some eq show ?thesis by (simp add: topo_lookup_def find_by_key same_node_def)
  qed
qed

lemma topo_lookup_iff:
  assumes "topo_inv t"
  shows "topo_lookup t k = Some i \<longleftrightarrow>
    (\<exists>j < 1024. nd_active (tp_nodes t ! j) \<and> node_key (tp_nodes t ! j) = k \<and> nd_id (tp_nodes t ! j) = i)"
proof -
  have "nodes_inv (tp_nodes t) (unat (tp_node_count t))" using assms by (simp add: topo_inv_def)
  from find_node_iff [OF this] show ?thesis
    by (auto simp: topo_lookup_def find_by_key)
qed

lemma slot_id_inj: "j < 1024 \<Longrightarrow> k < 1024 \<Longrightarrow> slot_id j = slot_id k \<Longrightarrow> j = k"
  by (auto simp: slot_id_def split: if_splits)

lemma slot_id_pos: "1 \<le> slot_id j" by (simp add: slot_id_def)

lemma slot_id_mod: "1 \<le> n \<Longrightarrow> n \<le> 1024 \<Longrightarrow> slot_id (n mod 1024) = n"
  by (cases "n = 1024") (simp_all add: slot_id_def)

lemma nodes_inv_add:
  assumes inv: "nodes_inv ns c" and c: "c < 1024" and n: "nd_active n" "unat (nd_id n) = Suc c" "key_ok (node_key n)"
    and new: "\<And>j. j < 1024 \<Longrightarrow> nd_active (ns ! j) \<Longrightarrow> node_key (ns ! j) \<noteq> node_key n"
  shows "nodes_inv (ns[Suc c mod 1024 := n]) (Suc c)"
proof -
  let ?s = "Suc c mod 1024" and ?ns = "ns[Suc c mod 1024 := n]"
  have len: "length ns = 1024" and s: "?s < 1024" using inv by (auto simp: nodes_inv_def)
  have sid: "slot_id ?s = Suc c" using c by (intro slot_id_mod) auto
  have nth: "?ns ! j = (if j = ?s then n else ns ! j)" if "j < 1024" for j
    using that len by (simp add: nth_list_update)
  have other: "slot_id j \<noteq> Suc c" if "j < 1024" "j \<noteq> ?s" for j
    using slot_id_inj [of j ?s] that s sid by auto
  have i1: "nd_active (ns ! j) \<longleftrightarrow> slot_id j \<le> c" if "j < 1024" for j
    using inv that by (simp add: nodes_inv_def)
  have i2: "unat (nd_id (ns ! j)) = slot_id j \<and> key_ok (node_key (ns ! j))" if "j < 1024" "nd_active (ns ! j)" for j
    using inv that by (simp add: nodes_inv_def)
  have i3: "j = k" if "j < 1024" "k < 1024" "nd_active (ns ! j)" "nd_active (ns ! k)"
    "node_key (ns ! j) = node_key (ns ! k)" for j k
    using inv that unfolding nodes_inv_def by blast
  have act: "nd_active (?ns ! j) \<longleftrightarrow> slot_id j \<le> Suc c" if "j < 1024" for j
    using nth [OF that] sid n(1) other [OF that] i1 [OF that] by (cases "j = ?s") (simp_all add: le_Suc_eq)
  have ids: "unat (nd_id (?ns ! j)) = slot_id j \<and> key_ok (node_key (?ns ! j))" if "j < 1024" "nd_active (?ns ! j)" for j
    using that(2) nth [OF that(1)] sid n i2 [OF that(1)] by (cases "j = ?s") simp_all
  have keys: "j = k" if "j < 1024" "k < 1024" "nd_active (?ns ! j)" "nd_active (?ns ! k)"
    "node_key (?ns ! j) = node_key (?ns ! k)" for j k
    using that(3-5) nth [OF that(1)] nth [OF that(2)] new [OF that(1)] new [OF that(2)] i3 [OF that(1,2)]
    by (cases "j = ?s"; cases "k = ?s") simp_all
  show ?thesis unfolding nodes_inv_def
  proof (intro conjI)
    show "length ?ns = 1024" "Suc c \<le> 1024" using len c by simp_all
    show "\<forall>j < 1024. nd_active (?ns ! j) \<longleftrightarrow> slot_id j \<le> Suc c" using act by blast
    show "\<forall>j < 1024. nd_active (?ns ! j) \<longrightarrow> unat (nd_id (?ns ! j)) = slot_id j \<and> key_ok (node_key (?ns ! j))"
      using ids by blast
    show "\<forall>j < 1024. \<forall>k < 1024. nd_active (?ns ! j) \<longrightarrow> nd_active (?ns ! k) \<longrightarrow>
        node_key (?ns ! j) = node_key (?ns ! k) \<longrightarrow> j = k" using keys by blast
  qed
qed

section \<open>The registry contract holds\<close>

lemma edges_inv_mono: "edges_inv es m c \<Longrightarrow> c \<le> c' \<Longrightarrow> edges_inv es m c'"
  unfolding edges_inv_def Let_def by (meson order_trans)

text \<open>A change of a node that keeps its identity.\<close>

lemma topo_inv_upd_node:
  assumes "topo_inv t" "i < 1024 \<Longrightarrow> same_node n (tp_nodes t ! i)"
  shows "topo_inv (t\<lparr>tp_nodes := (tp_nodes t)[i := n]\<rparr>)" "topo_lookup (t\<lparr>tp_nodes := (tp_nodes t)[i := n]\<rparr>) = topo_lookup t"
proof -
  have len: "length (tp_nodes t) = 1024" using assms(1) by (simp add: topo_inv_def nodes_inv_def)
  have same: "\<And>j. j < length (tp_nodes t) \<Longrightarrow> same_node ((tp_nodes t)[i := n] ! j) (tp_nodes t ! j)"
    by (rule same_node_nth) (use assms(2) len in auto)
  show "topo_inv (t\<lparr>tp_nodes := (tp_nodes t)[i := n]\<rparr>)"
    using assms(1) nodes_inv_same [OF _ _ same] by (simp add: topo_inv_def)
  show "topo_lookup (t\<lparr>tp_nodes := (tp_nodes t)[i := n]\<rparr>) = topo_lookup t"
    by (rule topo_lookup_same) (use same in simp_all)
qed

lemma upsert_node_known:
  assumes inv: "topo_inv t" and ok: "key_ok (a, g)" and found: "topo_lookup t (a, g) = Some i"
  shows "fst (nsr_topology_upsert_node t a ttl g d) = i"
    and "topo_lookup (snd (nsr_topology_upsert_node t a ttl g d)) = topo_lookup t"
    and "topo_inv (snd (nsr_topology_upsert_node t a ttl g d))"
    and "tp_node_count (snd (nsr_topology_upsert_node t a ttl g d)) = tp_node_count t"
proof -
  obtain j where j: "nsr_topology_find_by_addr_and_target t a g = Some j" "nd_id (tp_nodes t ! j) = i"
    using found by (auto simp: topo_lookup_def)
  let ?n = "(tp_nodes t ! j)\<lparr>nd_ttl := ttl, nd_is_destination := d\<rparr>"
  have eq: "nsr_topology_upsert_node t a ttl g d = (i, t\<lparr>tp_nodes := (tp_nodes t)[j := ?n]\<rparr>)"
    using ok j by (simp add: nsr_topology_upsert_node_def key_ok_def Let_def)
  have "same_node ?n (tp_nodes t ! j)" by (simp add: same_node_def node_key_def)
  with eq topo_inv_upd_node [OF inv, of j ?n]
  show "fst (nsr_topology_upsert_node t a ttl g d) = i"
    "topo_lookup (snd (nsr_topology_upsert_node t a ttl g d)) = topo_lookup t"
    "topo_inv (snd (nsr_topology_upsert_node t a ttl g d))"
    "tp_node_count (snd (nsr_topology_upsert_node t a ttl g d)) = tp_node_count t"
    by simp_all
qed

definition fresh_node :: "nsr_topology_state \<Rightarrow> string \<Rightarrow> u8 \<Rightarrow> string \<Rightarrow> bool \<Rightarrow> nsr_topology_node" where
  "fresh_node t a ttl g d = node_zero\<lparr>nd_id := tp_next_id t, nd_ttl := ttl, nd_active := True, nd_is_destination := d,
     nd_addr := a, nd_target_ip := g\<rparr>"

lemma upsert_node_new:
  fixes ttl :: u8 and d :: bool
  assumes inv: "topo_inv t" and ok: "key_ok (a, g)" and new: "topo_lookup t (a, g) = None"
    and room: "unat (tp_node_count t) < 1024"
  defines "t' \<equiv> t\<lparr>tp_next_id := tp_next_id t + 1,
     tp_nodes := (tp_nodes t)[Suc (unat (tp_node_count t)) mod 1024 := fresh_node t a ttl g d],
     tp_node_count := tp_node_count t + 1\<rparr>"
  shows "nsr_topology_upsert_node t a ttl g d = (tp_next_id t, t')"
    and "unat (tp_node_count t') = Suc (unat (tp_node_count t))" "topo_inv t'"
    and "topo_lookup t' = (topo_lookup t)((a, g) \<mapsto> tp_next_id t)"
proof -
  let ?c = "unat (tp_node_count t)" and ?n = "fresh_node t a ttl g d"
  have ns: "nodes_inv (tp_nodes t) ?c" and nid: "tp_next_id t = tp_node_count t + 1"
    and es: "edges_inv (tp_edges t) (unat (tp_edge_count t)) ?c" using inv by (auto simp: topo_inv_def)
  have id: "unat (tp_next_id t) = Suc ?c" using room nid by (simp add: unat_word_ariths)
  have none: "find_index (\<lambda>n. nd_active n \<and> node_key n = (a, g)) (tp_nodes t) = None"
    using new by (simp add: topo_lookup_def find_by_key)
  then have no: "\<And>j. j < 1024 \<Longrightarrow> nd_active (tp_nodes t ! j) \<Longrightarrow> node_key (tp_nodes t ! j) \<noteq> (a, g)"
    using ns by (simp add: find_index_None nodes_inv_def)
  have n: "nd_active ?n" "unat (nd_id ?n) = Suc ?c" "node_key ?n = (a, g)"
    by (simp_all add: fresh_node_def id node_key_def)
  show "nsr_topology_upsert_node t a ttl g d = (tp_next_id t, t')"
    using ok none room id
    by (simp add: nsr_topology_upsert_node_def find_by_key key_ok_def NSR_TOPOLOGY_MAX_NODES_def t'_def fresh_node_def Let_def)
  show c': "unat (tp_node_count t') = Suc ?c" using id nid by (simp add: t'_def)
  have ns': "nodes_inv (tp_nodes t') (Suc ?c)"
    using nodes_inv_add [OF ns room n(1,2)] ok no n(3) by (simp add: t'_def)
  then show inv': "topo_inv t'"
    using edges_inv_mono [OF es, of "Suc ?c"] c' nid by (simp add: topo_inv_def) (simp add: t'_def)
  show "topo_lookup t' = (topo_lookup t)((a, g) \<mapsto> tp_next_id t)"
  proof
    fix k
    let ?s = "Suc ?c mod 1024"
    have nth: "tp_nodes t' ! j = (if j = ?s then ?n else tp_nodes t ! j)" if "j < 1024" for j
      using that ns by (simp add: t'_def nth_list_update nodes_inv_def)
    have off: "\<not> nd_active (tp_nodes t ! ?s)"
      using ns slot_id_mod [of "Suc ?c"] room by (simp add: nodes_inv_def)
    have nk: "nd_id ?n = tp_next_id t" by (simp add: fresh_node_def)
    have s: "?s < 1024" by simp
    have at: "nd_active (tp_nodes t' ! j) \<and> node_key (tp_nodes t' ! j) = k \<and> nd_id (tp_nodes t' ! j) = i \<longleftrightarrow>
        (j = ?s \<and> k = (a, g) \<and> i = tp_next_id t) \<or>
        (nd_active (tp_nodes t ! j) \<and> node_key (tp_nodes t ! j) = k \<and> nd_id (tp_nodes t ! j) = i)" if "j < 1024" for i j
      using nth [OF that] n(1,3) off nk by (cases "j = ?s") auto
    have "topo_lookup t' k = Some i \<longleftrightarrow> (k = (a, g) \<and> i = tp_next_id t) \<or> topo_lookup t k = Some i" for i
      unfolding topo_lookup_iff [OF inv'] topo_lookup_iff [OF inv] using at s by blast
    then have "topo_lookup t' k = Some i \<longleftrightarrow> ((topo_lookup t)((a, g) \<mapsto> tp_next_id t)) k = Some i" for i
      using new by auto
    then show "topo_lookup t' k = ((topo_lookup t)((a, g) \<mapsto> tp_next_id t)) k"
      by (metis not_None_eq)
  qed
qed

lemma upsert_node_full:
  assumes "topo_inv t" "key_ok (a, g)" "topo_lookup t (a, g) = None" "\<not> unat (tp_node_count t) < 1024"
  shows "nsr_topology_upsert_node t a ttl g d = (0, t)"
  using assms by (simp add: nsr_topology_upsert_node_def topo_lookup_def NSR_TOPOLOGY_MAX_NODES_def)

lemma node_slot_id: "nodes_inv ns c \<Longrightarrow> j < 1024 \<Longrightarrow> nd_active (ns ! j) \<Longrightarrow> unat (nd_id (ns ! j)) = slot_id j"
  unfolding nodes_inv_def by blast

interpretation topo: registry
  "\<lambda>(ttl, d) t (a, g). nsr_topology_upsert_node t a ttl g d" topo_lookup key_ok topo_inv
  "\<lambda>t. unat (tp_node_count t)" 1024
proof (unfold_locales, goal_cases)
  case (1 t k i k')
  then obtain j j' where j: "j < 1024" "j' < 1024" "nd_active (tp_nodes t ! j)" "nd_active (tp_nodes t ! j')"
    "node_key (tp_nodes t ! j) = k" "node_key (tp_nodes t ! j') = k'" "nd_id (tp_nodes t ! j) = nd_id (tp_nodes t ! j')"
    by (auto simp: topo_lookup_iff)
  moreover have ns: "nodes_inv (tp_nodes t) (unat (tp_node_count t))" using 1(1) by (simp add: topo_inv_def)
  ultimately have "slot_id j = unat (nd_id (tp_nodes t ! j))" "slot_id j' = unat (nd_id (tp_nodes t ! j'))"
    using node_slot_id [OF ns] by metis+
  with j slot_id_inj [of j j'] show ?case by simp
next
  case (2 t k i)
  then obtain j where "j < 1024" "nd_active (tp_nodes t ! j)" "nd_id (tp_nodes t ! j) = i"
    by (auto simp: topo_lookup_iff)
  with 2(1) slot_id_pos [of j] show ?case by (auto simp: topo_inv_def nodes_inv_def)
next
  case (3 t k i x)
  then show ?case using upsert_node_known [of t "fst k" "snd k" i "fst x" "snd x"] by (simp add: case_prod_beta)
next
  case (4 t k x)
  then show ?case using upsert_node_new [of t "fst k" "snd k" "fst x" "snd x"] by (simp add: case_prod_beta)
next
  case (5 t k x)
  then show ?case using upsert_node_full [of t "fst k" "snd k"] by (simp add: case_prod_beta)
qed

section \<open>Edges\<close>

definition topo_edges :: "nsr_topology_state \<Rightarrow> (u32 \<times> u32) list" where
  "topo_edges t = map edge_pair (take (unat (tp_edge_count t)) (tp_edges t))"

definition id_ok :: "nsr_topology_state \<Rightarrow> u32 \<Rightarrow> bool" where
  "id_ok t i \<longleftrightarrow> unat i \<le> unat (tp_node_count t)"

lemma in_topo_edges:
  assumes "edges_inv (tp_edges t) (unat (tp_edge_count t)) c"
  shows "(a, b) \<in> set (topo_edges t) \<longleftrightarrow>
    find_index (\<lambda>e. ed_active e \<and> ed_from e = a \<and> ed_to e = b) (tp_edges t) \<noteq> None"
proof -
  have act: "\<forall>j < 2048. ed_active (tp_edges t ! j) \<longleftrightarrow> j < unat (tp_edge_count t)"
    and len: "length (tp_edges t) = 2048" "unat (tp_edge_count t) \<le> 2048"
    using assms by (auto simp: edges_inv_def)
  have lt: "j < unat (tp_edge_count t) \<Longrightarrow> j < 2048" for j using len by linarith
  have "(a, b) \<in> set (topo_edges t) \<longleftrightarrow>
      (\<exists>j < unat (tp_edge_count t). ed_from (tp_edges t ! j) = a \<and> ed_to (tp_edges t ! j) = b)"
    using len by (auto simp: topo_edges_def edge_pair_def nth_image [symmetric] image_image)
  also have "\<dots> \<longleftrightarrow> (\<exists>j < 2048. ed_active (tp_edges t ! j) \<and> ed_from (tp_edges t ! j) = a \<and> ed_to (tp_edges t ! j) = b)"
    using act lt by blast
  also have "\<dots> \<longleftrightarrow> (\<exists>e \<in> set (tp_edges t). ed_active e \<and> ed_from e = a \<and> ed_to e = b)"
    unfolding Bex_def in_set_conv_nth len(1) by blast
  finally show ?thesis unfolding find_index_None by blast
qed

lemma add_edge_eq:
  assumes inv: "topo_inv t"
  shows "add_edge a b t =
    (if a = 0 \<or> b = 0 \<or> a = b \<or> unat (tp_edge_count t) = 2048 \<or> (a, b) \<in> set (topo_edges t) then t
     else t\<lparr>tp_edges := (tp_edges t)[unat (tp_edge_count t) := \<lparr>ed_from = a, ed_to = b, ed_active = True\<rparr>],
            tp_edge_count := tp_edge_count t + 1\<rparr>)"
proof -
  let ?m = "unat (tp_edge_count t)"
  have es: "edges_inv (tp_edges t) ?m (unat (tp_node_count t))" using inv by (simp add: topo_inv_def)
  have free: "find_index (\<lambda>e. \<not> ed_active e) (tp_edges t) = Some ?m" if "?m < 2048"
  proof (cases "find_index (\<lambda>e. \<not> ed_active e) (tp_edges t)")
    case None
    then show ?thesis using es that by (auto simp: edges_inv_def find_index_None)
  next
    case (Some j)
    from find_index_Some [OF Some] have j: "j < 2048" "\<not> j < ?m" "\<forall>i < j. i < ?m"
      using es by (auto simp: edges_inv_def)
    then have "\<not> ?m < j" by blast
    with j Some show ?thesis by simp
  qed
  have "?m \<le> 2048" using es by (simp add: edges_inv_def)
  then show ?thesis
    using free in_topo_edges [OF es, of a b]
    by (auto simp: add_edge_def NSR_TOPOLOGY_MAX_NODES_def split: option.splits)
qed

lemma edges_inv_add:
  assumes es: "edges_inv es m c" and m: "m < 2048" and ab: "a \<noteq> b" "1 \<le> unat a" "unat a \<le> c" "1 \<le> unat b" "unat b \<le> c"
    and new: "(a, b) \<notin> set (map edge_pair (take m es))"
  shows "edges_inv (es[m := \<lparr>ed_from = a, ed_to = b, ed_active = True\<rparr>]) (Suc m) c"
    and "map edge_pair (take (Suc m) (es[m := \<lparr>ed_from = a, ed_to = b, ed_active = True\<rparr>])) =
           map edge_pair (take m es) @ [(a, b)]"
proof -
  let ?e = "\<lparr>ed_from = a, ed_to = b, ed_active = True\<rparr>"
  have len: "length es = 2048" and act: "\<And>j. j < 2048 \<Longrightarrow> ed_active (es ! j) \<longleftrightarrow> j < m"
    and ends: "\<And>j. j < m \<Longrightarrow> ed_from (es ! j) \<noteq> ed_to (es ! j) \<and> 1 \<le> unat (ed_from (es ! j)) \<and>
        unat (ed_from (es ! j)) \<le> c \<and> 1 \<le> unat (ed_to (es ! j)) \<and> unat (ed_to (es ! j)) \<le> c"
    and dist: "distinct (map edge_pair (take m es))"
    using es by (simp_all add: edges_inv_def Let_def)
  have "take (Suc m) (es[m := ?e]) = take m es @ [?e]"
    using len m by (simp add: take_Suc_conv_app_nth)
  then show pairs: "map edge_pair (take (Suc m) (es[m := ?e])) = map edge_pair (take m es) @ [(a, b)]"
    by (simp add: edge_pair_def)
  have nth: "es[m := ?e] ! j = (if j = m then ?e else es ! j)" if "j < 2048" for j
    using that len by (simp add: nth_list_update)
  show "edges_inv (es[m := ?e]) (Suc m) c"
    unfolding edges_inv_def Let_def pairs
  proof (intro conjI)
    show "length (es[m := ?e]) = 2048" "Suc m \<le> 2048" using len m by simp_all
    show "\<forall>j < 2048. ed_active (es[m := ?e] ! j) = (j < Suc m)"
      using nth act by (auto simp: less_Suc_eq)
    show "\<forall>j < Suc m. ed_from (es[m := ?e] ! j) \<noteq> ed_to (es[m := ?e] ! j) \<and> 1 \<le> unat (ed_from (es[m := ?e] ! j)) \<and>
        unat (ed_from (es[m := ?e] ! j)) \<le> c \<and> 1 \<le> unat (ed_to (es[m := ?e] ! j)) \<and> unat (ed_to (es[m := ?e] ! j)) \<le> c"
    proof (intro allI impI)
      fix j assume "j < Suc m"
      then show "ed_from (es[m := ?e] ! j) \<noteq> ed_to (es[m := ?e] ! j) \<and> 1 \<le> unat (ed_from (es[m := ?e] ! j)) \<and>
        unat (ed_from (es[m := ?e] ! j)) \<le> c \<and> 1 \<le> unat (ed_to (es[m := ?e] ! j)) \<and> unat (ed_to (es[m := ?e] ! j)) \<le> c"
        using nth [of j] ends [of j] ab m by (cases "j = m") simp_all
    qed
    show "distinct (map edge_pair (take m es) @ [(a, b)])" using dist new by simp
  qed
qed

lemma add_edge_props:
  assumes inv: "topo_inv t" and ok: "id_ok t a" "id_ok t b"
  shows "topo_inv (add_edge a b t)" "tp_nodes (add_edge a b t) = tp_nodes t"
    "tp_node_count (add_edge a b t) = tp_node_count t" "set (topo_edges t) \<subseteq> set (topo_edges (add_edge a b t))"
    "set (topo_edges (add_edge a b t)) \<subseteq> insert (a, b) (set (topo_edges t))"
    "a \<noteq> 0 \<Longrightarrow> b \<noteq> 0 \<Longrightarrow> a \<noteq> b \<Longrightarrow> (a, b) \<in> set (topo_edges (add_edge a b t)) \<or> unat (tp_edge_count (add_edge a b t)) = 2048"
    "unat (tp_edge_count t) = 2048 \<Longrightarrow> add_edge a b t = t"
proof -
  let ?m = "unat (tp_edge_count t)" and ?t = "add_edge a b t"
  let ?cond = "a = 0 \<or> b = 0 \<or> a = b \<or> ?m = 2048 \<or> (a, b) \<in> set (topo_edges t)"
  have es: "edges_inv (tp_edges t) ?m (unat (tp_node_count t))" using inv by (simp add: topo_inv_def)
  then have "?m \<le> 2048" by (simp add: edges_inv_def)
  have grown: "edges_inv (tp_edges ?t) (unat (tp_edge_count ?t)) (unat (tp_node_count t)) \<and>
      topo_edges ?t = topo_edges t @ [(a, b)]" if "\<not> ?cond"
  proof -
    have m: "?m < 2048" using that \<open>?m \<le> 2048\<close> by simp
    have un: "unat (tp_edge_count t + 1) = Suc ?m" using m by (simp add: unat_word_ariths)
    have ab: "1 \<le> unat a" "1 \<le> unat b" using that by (simp_all add: Suc_le_eq unat_gt_0)
    from that edges_inv_add [OF es m, of a b] ab ok show ?thesis
      unfolding add_edge_eq [OF inv] by (simp add: un topo_edges_def id_ok_def)
  qed
  show "topo_inv ?t" using grown inv by (cases ?cond) (auto simp: add_edge_eq [OF inv] topo_inv_def)
  show "tp_nodes ?t = tp_nodes t" "tp_node_count ?t = tp_node_count t" by (simp_all add: add_edge_eq [OF inv])
  show "?m = 2048 \<Longrightarrow> ?t = t" by (simp add: add_edge_eq [OF inv])
  have keep: "?cond \<Longrightarrow> ?t = t" by (simp add: add_edge_eq [OF inv])
  show "set (topo_edges t) \<subseteq> set (topo_edges ?t)" "set (topo_edges ?t) \<subseteq> insert (a, b) (set (topo_edges t))"
    using grown keep by (cases ?cond; auto)+
  show "a \<noteq> 0 \<Longrightarrow> b \<noteq> 0 \<Longrightarrow> a \<noteq> b \<Longrightarrow> (a, b) \<in> set (topo_edges ?t) \<or> unat (tp_edge_count ?t) = 2048"
    using grown keep by (cases ?cond; auto)
qed

lemma add_edges_props:
  assumes "topo_inv t" "\<forall>(a, b) \<in> set es. id_ok t a \<and> id_ok t b"
  defines "t' \<equiv> fold (\<lambda>(a, b). add_edge a b) es t"
  shows "topo_inv t' \<and> tp_nodes t' = tp_nodes t \<and> tp_node_count t' = tp_node_count t \<and>
    set (topo_edges t) \<subseteq> set (topo_edges t') \<and> set (topo_edges t') \<subseteq> set (topo_edges t) \<union> set es \<and>
    (\<forall>(a, b) \<in> set es. a \<noteq> 0 \<longrightarrow> b \<noteq> 0 \<longrightarrow> a \<noteq> b \<longrightarrow> (a, b) \<in> set (topo_edges t') \<or> unat (tp_edge_count t') = 2048) \<and>
    (unat (tp_edge_count t) = 2048 \<longrightarrow> t' = t)"
  using assms(1,2) unfolding t'_def
proof (induction es arbitrary: t)
  case (Cons e es)
  obtain a b where e: "e = (a, b)" by (cases e)
  note step = add_edge_props [OF Cons.prems(1), of a b]
  have ok: "id_ok t a" "id_ok t b" using Cons.prems(2) by (auto simp: e)
  note step = step [OF ok]
  have "\<forall>(x, y) \<in> set es. id_ok (add_edge a b t) x \<and> id_ok (add_edge a b t) y"
    using Cons.prems(2) step(3) by (auto simp: id_ok_def)
  note IH = Cons.IH [OF step(1) this]
  let ?t = "fold (\<lambda>(a, b). add_edge a b) es (add_edge a b t)"
  have sub: "set (topo_edges (add_edge a b t)) \<subseteq> set (topo_edges ?t)"
    and full: "unat (tp_edge_count (add_edge a b t)) = 2048 \<Longrightarrow> ?t = add_edge a b t" using IH by blast+
  have new: "(a, b) \<in> set (topo_edges ?t) \<or> unat (tp_edge_count ?t) = 2048" if "a \<noteq> 0" "b \<noteq> 0" "a \<noteq> b"
    using step(6) [OF that] sub full by auto
  have fold: "fold (\<lambda>(a, b). add_edge a b) (e # es) t = ?t" by (simp add: e)
  show ?case unfolding fold
  proof (intro conjI)
    show "topo_inv ?t" "tp_nodes ?t = tp_nodes t" "tp_node_count ?t = tp_node_count t" using IH step(2,3) by simp_all
    show "set (topo_edges t) \<subseteq> set (topo_edges ?t)" using step(4) sub by (rule subset_trans)
    show "set (topo_edges ?t) \<subseteq> set (topo_edges t) \<union> set (e # es)" using IH step(5) e by auto
    show "\<forall>(a, b) \<in> set (e # es). a \<noteq> 0 \<longrightarrow> b \<noteq> 0 \<longrightarrow> a \<noteq> b \<longrightarrow>
        (a, b) \<in> set (topo_edges ?t) \<or> unat (tp_edge_count ?t) = 2048" using IH new e by simp
    show "unat (tp_edge_count t) = 2048 \<longrightarrow> ?t = t" using step(7) full by auto
  qed
qed simp

section \<open>The update from a snapshot\<close>

definition id_at :: "nsr_topology_state \<Rightarrow> string \<times> string \<Rightarrow> u32" where
  "id_at t k = (case topo_lookup t k of None \<Rightarrow> 0 | Some i \<Rightarrow> i)"

abbreviation full :: "nsr_topology_state \<Rightarrow> bool" where
  "full t \<equiv> \<not> unat (tp_node_count t) < 1024"

text \<open>\<open>extends t t'\<close>: registrations and node changes only, no edge.\<close>

definition extends :: "nsr_topology_state \<Rightarrow> nsr_topology_state \<Rightarrow> bool" where
  "extends t t' \<longleftrightarrow> topo_inv t' \<and> topo_lookup t \<subseteq>\<^sub>m topo_lookup t' \<and> (full t \<longrightarrow> full t' \<and> topo_lookup t' = topo_lookup t) \<and>
     tp_edges t' = tp_edges t \<and> tp_edge_count t' = tp_edge_count t \<and> tp_node_count t \<le> tp_node_count t'"

lemma extends_refl: "topo_inv t \<Longrightarrow> extends t t" by (simp add: extends_def)

lemma extends_trans: "extends t t' \<Longrightarrow> extends t' t'' \<Longrightarrow> extends t t''"
  unfolding extends_def by (auto intro: map_le_trans)

definition settled :: "nsr_topology_state \<Rightarrow> string \<times> string \<Rightarrow> bool" where
  "settled t k \<longleftrightarrow> id_at t k \<noteq> 0 \<or> full t"

lemma settled_extends:
  assumes "extends t t'" "settled t k"
  shows "settled t' k" "id_at t' k = id_at t k"
proof -
  have "id_at t' k = id_at t k"
  proof (cases "topo_lookup t k")
    case None
    with assms show ?thesis by (simp add: settled_def id_at_def extends_def)
  next
    case (Some i)
    then have "topo_lookup t' k = Some i" using assms(1) unfolding extends_def map_le_def by (metis domI)
    with Some show ?thesis by (simp add: id_at_def)
  qed
  with assms show "settled t' k" "id_at t' k = id_at t k" by (auto simp: settled_def extends_def)
qed

lemma upsert_extends:
  assumes inv: "topo_inv t" and ok: "key_ok (a, g)"
  shows "extends t (snd (nsr_topology_upsert_node t a ttl g d))"
    and "fst (nsr_topology_upsert_node t a ttl g d) = id_at (snd (nsr_topology_upsert_node t a ttl g d)) (a, g)"
    and "settled (snd (nsr_topology_upsert_node t a ttl g d)) (a, g)"
proof -
  let ?u = "nsr_topology_upsert_node t a ttl g d"
  have *: "extends t (snd ?u) \<and> fst ?u = id_at (snd ?u) (a, g) \<and> settled (snd ?u) (a, g)"
  proof (cases "topo_lookup t (a, g)")
    case (Some i)
    have "tp_edges (snd ?u) = tp_edges t \<and> tp_edge_count (snd ?u) = tp_edge_count t"
      using Some by (auto simp: nsr_topology_upsert_node_def topo_lookup_def Let_def split: option.splits)
    then show ?thesis
      using upsert_node_known [OF inv ok Some, of ttl d] Some topo.lookup_nonzero [OF inv Some]
      by (simp add: extends_def id_at_def settled_def)
  next
    case None
    show ?thesis
    proof (cases "unat (tp_node_count t) < 1024")
      case True
      note new = upsert_node_new [OF inv ok None True, of ttl d]
      have "tp_next_id t \<noteq> 0" using topo.lookup_nonzero [OF new(3), of "(a, g)"] new(4) by simp
      moreover have "tp_node_count t \<le> tp_node_count (snd ?u)" using new(1,2) by (simp add: word_le_nat_alt)
      ultimately show ?thesis
        using new True None by (auto simp: extends_def id_at_def settled_def map_le_def)
    next
      case False
      then show ?thesis
        using upsert_node_full [OF inv ok None False] inv None by (simp add: extends_refl id_at_def settled_def)
    qed
  qed
  then show "extends t (snd ?u)" "fst ?u = id_at (snd ?u) (a, g)" "settled (snd ?u) (a, g)" by simp_all
qed

lemma same_node_update_health [simp]: "same_node (update_node_health now h r n) n"
  by (simp add: same_node_def node_key_def update_node_health_def Let_def)

lemma extends_upd_node:
  assumes "topo_inv t" "same_node n (tp_nodes t ! i)"
  shows "extends t (t\<lparr>tp_nodes := (tp_nodes t)[i := n]\<rparr>)"
    "id_at (t\<lparr>tp_nodes := (tp_nodes t)[i := n]\<rparr>) k = id_at t k"
  using topo_inv_upd_node [OF assms(1), of i n] assms(2) by (auto simp: extends_def id_at_def)

lemma upsert_hop_addr_props:
  assumes inv: "topo_inv t" and ok: "key_ok (a, g)"
  shows "extends t (snd (upsert_hop_addr now h ttl g a r t))"
    and "fst (upsert_hop_addr now h ttl g a r t) = id_at (snd (upsert_hop_addr now h ttl g a r t)) (a, g)"
    and "settled (snd (upsert_hop_addr now h ttl g a r t)) (a, g)"
proof -
  obtain i t1 where u: "nsr_topology_upsert_node t a ttl g False = (i, t1)" by (cases "nsr_topology_upsert_node t a ttl g False")
  note up = upsert_extends [OF inv ok, of ttl False, unfolded u fst_conv snd_conv]
  have inv1: "topo_inv t1" using up(1) by (simp add: extends_def)
  have *: "extends t1 (snd (upsert_hop_addr now h ttl g a r t))" "fst (upsert_hop_addr now h ttl g a r t) = i"
    using extends_upd_node(1) [OF inv1] extends_refl [OF inv1]
    by (auto simp: upsert_hop_addr_def u split: option.splits)
  then show "extends t (snd (upsert_hop_addr now h ttl g a r t))"
    "fst (upsert_hop_addr now h ttl g a r t) = id_at (snd (upsert_hop_addr now h ttl g a r t)) (a, g)"
    "settled (snd (upsert_hop_addr now h ttl g a r t)) (a, g)"
    using up extends_trans [OF up(1) *(1)] settled_extends [OF *(1) up(3)] by simp_all
qed

lemma upsert_aliases_props:
  assumes "topo_inv t" "\<forall>a \<in> set as. key_ok (al_addr a, g)"
  shows "extends t (snd (upsert_aliases clock k h ttl g as t)) \<and>
    fst (upsert_aliases clock k h ttl g as t) = map (\<lambda>a. id_at (snd (upsert_aliases clock k h ttl g as t)) (al_addr a, g)) as \<and>
    (\<forall>a \<in> set as. settled (snd (upsert_aliases clock k h ttl g as t)) (al_addr a, g))"
  using assms
proof (induction as arbitrary: k t)
  case Nil
  then show ?case by (simp add: extends_refl)
next
  case (Cons a as)
  obtain i t1 where u: "upsert_hop_addr (clock k) h ttl g (al_addr a) (al_recv a) t = (i, t1)"
    by (cases "upsert_hop_addr (clock k) h ttl g (al_addr a) (al_recv a) t")
  have ok: "key_ok (al_addr a, g)" using Cons.prems(2) by simp
  note up = upsert_hop_addr_props [OF Cons.prems(1) ok, of "clock k" h ttl "al_recv a", unfolded u fst_conv snd_conv]
  have inv1: "topo_inv t1" using up(1) by (simp add: extends_def)
  obtain ids t2 where v: "upsert_aliases clock (Suc k) h ttl g as t1 = (ids, t2)"
    by (cases "upsert_aliases clock (Suc k) h ttl g as t1")
  have IH: "extends t1 t2" "ids = map (\<lambda>a. id_at t2 (al_addr a, g)) as" "\<forall>a \<in> set as. settled t2 (al_addr a, g)"
    using Cons.IH [OF inv1, of "Suc k"] Cons.prems(2) v by simp_all
  have res: "upsert_aliases clock k h ttl g (a # as) t = (i # ids, t2)" by (simp add: u v)
  show ?case
    unfolding res fst_conv snd_conv
    using up IH extends_trans [OF up(1) IH(1)] settled_extends [OF IH(1) up(3)] by simp
qed

definition hop_keys :: "string \<Rightarrow> nsr_hop_info \<Rightarrow> (string \<times> string) list" where
  "hop_keys g h = map (\<lambda>a. (a, g)) (hop_addrs h)"

definition hop_row :: "nsr_topology_state \<Rightarrow> string \<Rightarrow> nsr_hop_info \<Rightarrow> u32 list" where
  "hop_row t g h = take 4 (map (id_at t) (hop_keys g h) @ replicate 4 0)"

lemma hop_keys_ok: "hop_wf h \<Longrightarrow> g \<noteq> [] \<Longrightarrow> length g \<le> 47 \<Longrightarrow> \<forall>k \<in> set (hop_keys g h). key_ok k"
  by (auto simp: hop_wf_def hop_keys_def key_ok_def)

lemma hop_row_extends:
  assumes "extends t t'" "\<forall>k \<in> set (hop_keys g h). settled t k"
  shows "hop_row t' g h = hop_row t g h"
proof -
  have "map (id_at t') (hop_keys g h) = map (id_at t) (hop_keys g h)"
    using assms settled_extends(2) by simp
  then show ?thesis by (simp only: hop_row_def)
qed

lemma upsert_hop_props:
  assumes inv: "topo_inv t" and wf: "hop_wf h" and g: "g \<noteq> []" "length g \<le> 47"
  shows "extends t (snd (upsert_hop clock i g h t)) \<and>
    fst (upsert_hop clock i g h t) = hop_row (snd (upsert_hop clock i g h t)) g h \<and>
    (\<forall>k \<in> set (hop_keys g h). settled (snd (upsert_hop clock i g h t)) k)"
proof (cases "hop_addr h = []")
  case True
  then have "hop_keys g h = []" using wf by (simp add: hop_keys_def hop_addrs_def live_aliases_def hop_wf_def)
  with True inv show ?thesis by (simp add: upsert_hop_def hop_row_def extends_refl)
next
  case False
  have keys: "hop_keys g h = (hop_addr h, g) # map (\<lambda>a. (al_addr a, g)) (live_aliases h)"
    using False by (simp add: hop_keys_def hop_addrs_def)
  have ok: "key_ok (hop_addr h, g)" "\<forall>a \<in> set (live_aliases h). key_ok (al_addr a, g)"
    using hop_keys_ok [OF wf g] by (auto simp: keys)
  obtain j t1 where u: "upsert_hop_addr (clock 0) h (of_nat i) g (hop_addr h) (hop_primary_recv h) t = (j, t1)"
    by (cases "upsert_hop_addr (clock 0) h (of_nat i) g (hop_addr h) (hop_primary_recv h) t")
  note up = upsert_hop_addr_props [OF inv ok(1), of "clock 0" h "of_nat i" "hop_primary_recv h", unfolded u fst_conv snd_conv]
  have inv1: "topo_inv t1" using up(1) by (simp add: extends_def)
  obtain ids t2 where v: "upsert_aliases clock 1 h (of_nat i) g (live_aliases h) t1 = (ids, t2)"
    by (cases "upsert_aliases clock 1 h (of_nat i) g (live_aliases h) t1")
  have al: "extends t1 t2" "ids = map (\<lambda>a. id_at t2 (al_addr a, g)) (live_aliases h)"
      "\<forall>a \<in> set (live_aliases h). settled t2 (al_addr a, g)"
    using upsert_aliases_props [OF inv1 ok(2), of clock 1 h "of_nat i"] v by simp_all
  have res: "upsert_hop clock i g h t = (take 4 (j # ids @ replicate 3 0), t2)"
    using False by (simp add: upsert_hop_def u v [unfolded One_nat_def])
  have row: "take 4 (j # ids @ replicate 3 0) = hop_row t2 g h"
    using up(2) settled_extends(2) [OF al(1) up(3)]
    by (simp add: hop_row_def keys al(2) o_def)
  show ?thesis
    unfolding res fst_conv snd_conv
    using row al(3) settled_extends(1) [OF al(1) up(3)] extends_trans [OF up(1) al(1)] by (simp add: keys)
qed

lemma upsert_hops_props:
  assumes "topo_inv t" "\<forall>h \<in> set hs. hop_wf h" "g \<noteq> []" "length g \<le> 47"
  shows "extends t (snd (upsert_hops clock i g hs t)) \<and>
    fst (upsert_hops clock i g hs t) = map (hop_row (snd (upsert_hops clock i g hs t)) g) hs \<and>
    (\<forall>h \<in> set hs. \<forall>k \<in> set (hop_keys g h). settled (snd (upsert_hops clock i g hs t)) k)"
  using assms(1,2)
proof (induction hs arbitrary: i t)
  case Nil
  then show ?case by (simp add: extends_refl)
next
  case (Cons h hs)
  obtain r t1 where u: "upsert_hop (clock i) i g h t = (r, t1)" by (cases "upsert_hop (clock i) i g h t")
  have up: "extends t t1" "r = hop_row t1 g h" "\<forall>k \<in> set (hop_keys g h). settled t1 k"
    using upsert_hop_props [OF Cons.prems(1) _ assms(3,4), of h "clock i" i] Cons.prems(2) u by simp_all
  have inv1: "topo_inv t1" using up(1) by (simp add: extends_def)
  obtain rs t2 where v: "upsert_hops clock (Suc i) g hs t1 = (rs, t2)" by (cases "upsert_hops clock (Suc i) g hs t1")
  have IH: "extends t1 t2" "rs = map (hop_row t2 g) hs" "\<forall>h \<in> set hs. \<forall>k \<in> set (hop_keys g h). settled t2 k"
    using Cons.IH [OF inv1, of "Suc i"] Cons.prems(2) v by simp_all
  have res: "upsert_hops clock i g (h # hs) t = (r # rs, t2)" by (simp add: u v)
  show ?case
    unfolding res fst_conv snd_conv
    using up IH extends_trans [OF up(1) IH(1)] hop_row_extends [OF IH(1) up(3)] settled_extends(1) [OF IH(1)] by simp
qed

text \<open>The edge loops are one sequence of \<open>add_edge\<close> calls: a request with a zero does nothing.\<close>

lemma add_edge_zero [simp]: "add_edge 0 b = (\<lambda>t. t)" "add_edge a 0 = (\<lambda>t. t)"
  by (simp_all add: add_edge_def fun_eq_iff)

definition source_edges :: "u32 \<Rightarrow> u32 list \<Rightarrow> u32 \<Rightarrow> (u32 \<times> u32) list" where
  "source_edges dest row a = map (Pair a) (row @ (if list_ex (\<lambda>b. b \<noteq> 0) row then [] else [dest]))"

definition hop_edges :: "u32 \<Rightarrow> u32 list list \<Rightarrow> (u32 \<times> u32) list" where
  "hop_edges dest ids = concat (map (\<lambda>i. concat (map (source_edges dest (ids ! (i + 1))) (ids ! i))) [1..<NSR_MAX_HOPS - 1])"

lemma fold_add_edge_row: "fold (\<lambda>b t. if b \<noteq> 0 then add_edge a b t else t) row t = fold (\<lambda>(a, b). add_edge a b) (map (Pair a) row) t"
  by (induction row arbitrary: t) simp_all

lemma link_source_eq: "link_source dest row a t = fold (\<lambda>(a, b). add_edge a b) (source_edges dest row a) t"
proof (cases "a = 0")
  case True
  have "fold (\<lambda>(a, b). add_edge a b) (map (Pair 0) xs) t = t" for xs by (induction xs) simp_all
  with True show ?thesis by (simp add: link_source_def source_edges_def)
next
  case False
  then show ?thesis
    by (cases "dest = 0") (auto simp: link_source_def source_edges_def Let_def fold_add_edge_row)
qed

lemma fold_link_source:
  "fold (link_source dest row) xs t = fold (\<lambda>(a, b). add_edge a b) (concat (map (source_edges dest row) xs)) t"
  by (induction xs arbitrary: t) (simp_all add: link_source_eq)

lemma link_hops_eq: "link_hops dest ids t = fold (\<lambda>(a, b). add_edge a b) (hop_edges dest ids) t"
proof -
  have "fold (\<lambda>i. fold (link_source dest (ids ! (i + 1))) (ids ! i)) is t =
      fold (\<lambda>(a, b). add_edge a b) (concat (map (\<lambda>i. concat (map (source_edges dest (ids ! (i + 1))) (ids ! i))) is)) t" for "is"
    by (induction "is" arbitrary: t) (simp_all add: fold_link_source)
  then show ?thesis by (simp add: link_hops_def hop_edges_def)
qed

definition last_edges :: "u32 \<Rightarrow> u32 list list \<Rightarrow> (u32 \<times> u32) list" where
  "last_edges dest ids = map (\<lambda>a. (a, dest)) (filter (\<lambda>a. a \<noteq> 0 \<and> a \<noteq> dest) (ids ! last_ttl ids))"

lemma fold_last_edges:
  "fold (\<lambda>a t. if a \<noteq> 0 \<and> a \<noteq> dest then add_edge a dest t else t) xs t =
     fold (\<lambda>(a, b). add_edge a b) (map (\<lambda>a. (a, dest)) (filter (\<lambda>a. a \<noteq> 0 \<and> a \<noteq> dest) xs)) t"
  by (induction xs arbitrary: t) auto

lemma link_last_props:
  assumes inv: "topo_inv t" and ok: "\<forall>(a, b) \<in> set (last_edges dest ids). id_ok t a \<and> id_ok t b"
  shows "topo_inv (link_last dest ids t) \<and> topo_lookup (link_last dest ids t) = topo_lookup t \<and>
    tp_node_count (link_last dest ids t) = tp_node_count t \<and>
    set (topo_edges t) \<subseteq> set (topo_edges (link_last dest ids t)) \<and>
    (unat (tp_edge_count t) = 2048 \<longrightarrow> unat (tp_edge_count (link_last dest ids t)) = 2048)"
proof (cases "last_ttl ids > 0 \<and> dest \<noteq> 0")
  case True
  let ?t1 = "fold (\<lambda>(a, b). add_edge a b) (last_edges dest ids) t"
  note e = add_edges_props [OF inv ok]
  have look: "topo_lookup ?t1 = topo_lookup t" using e by (intro topo_lookup_same) (simp_all add: same_node_def)
  have res: "link_last dest ids t = (case node_by_id ?t1 dest of None \<Rightarrow> ?t1
      | Some i \<Rightarrow> ?t1\<lparr>tp_nodes := (tp_nodes ?t1)[i := (tp_nodes ?t1 ! i)\<lparr>nd_ttl := of_nat (last_ttl ids + 1)\<rparr>]\<rparr>)"
    unfolding link_last_def Let_def fold_last_edges last_edges_def [symmetric] using True by simp
  have upd: "topo_inv (?t1\<lparr>tp_nodes := (tp_nodes ?t1)[i := (tp_nodes ?t1 ! i)\<lparr>nd_ttl := x\<rparr>]\<rparr>)"
    "topo_lookup (?t1\<lparr>tp_nodes := (tp_nodes ?t1)[i := (tp_nodes ?t1 ! i)\<lparr>nd_ttl := x\<rparr>]\<rparr>) = topo_lookup t" for i x
    using topo_inv_upd_node [of ?t1 i "(tp_nodes ?t1 ! i)\<lparr>nd_ttl := x\<rparr>"] e look by (simp_all add: same_node_def node_key_def)
  show ?thesis
    unfolding res using e look upd by (auto simp: topo_edges_def split: option.splits)
next
  case False
  then have "link_last dest ids t = t" by (auto simp: link_last_def Let_def)
  then show ?thesis using inv by simp
qed

lemma id_at_ok: "topo_inv t \<Longrightarrow> id_ok t (id_at t k)"
proof (cases "topo_lookup t k")
  case (Some i)
  assume inv: "topo_inv t"
  obtain j where j: "j < 1024" "nd_active (tp_nodes t ! j)" "nd_id (tp_nodes t ! j) = i"
    using Some by (auto simp: topo_lookup_iff [OF inv])
  have ns: "nodes_inv (tp_nodes t) (unat (tp_node_count t))" using inv by (simp add: topo_inv_def)
  have "unat i = slot_id j" using node_slot_id [OF ns j(1,2)] j(3) by simp
  moreover have "slot_id j \<le> unat (tp_node_count t)" using ns j by (simp add: nodes_inv_def)
  ultimately show ?thesis using Some by (simp add: id_at_def id_ok_def)
qed (simp add: id_at_def id_ok_def)

text \<open>
  The stages of an update: \<open>t2\<close> after all registrations, where the rows of \<open>hop_ids\<close> are the
  identifiers of the hops' addresses, then the requested edges.
\<close>

lemma update_stages:
  assumes inv: "topo_inv t" and wf: "telemetry_wf tel" and g: "tel_target_ip tel = g" "g \<noteq> []" "length g \<le> 47"
  obtains t2 ids dest where "extends t t2" "length ids = 64"
    "\<And>i. 1 \<le> i \<Longrightarrow> i < 64 \<Longrightarrow> ids ! i = hop_row t2 g (tel_hops tel ! i)"
    "\<And>i k. 1 \<le> i \<Longrightarrow> i < 64 \<Longrightarrow> k \<in> set (hop_keys g (tel_hops tel ! i)) \<Longrightarrow> settled t2 k"
    "dest = id_at t2 (g, g)"
    "nsr_topology_update_from_telemetry clock tel t = link_last dest ids (link_hops dest ids t2)"
    "\<forall>row \<in> set ids. \<forall>a \<in> set row. id_ok t2 a"
proof -
  have ok: "key_ok (g, g)" using g by (simp add: key_ok_def)
  obtain dest t1 where u: "nsr_topology_upsert_node t g 0 g True = (dest, t1)" by (cases "nsr_topology_upsert_node t g 0 g True")
  note up = upsert_extends [OF inv ok, of 0 True, unfolded u fst_conv snd_conv]
  let ?hs = "drop 1 (take 64 (tel_hops tel))"
  have len: "length (tel_hops tel) = 64" and hs: "\<forall>h \<in> set ?hs. hop_wf h"
    using wf by (auto simp: telemetry_wf_def dest: in_set_dropD)
  obtain rows t2 where v: "upsert_hops clock 1 g ?hs t1 = (rows, t2)" by (cases "upsert_hops clock 1 g ?hs t1")
  have inv1: "topo_inv t1" using up(1) by (simp add: extends_def)
  have rows: "extends t1 t2" "rows = map (hop_row t2 g) ?hs" "\<forall>h \<in> set ?hs. \<forall>k \<in> set (hop_keys g h). settled t2 k"
    using upsert_hops_props [OF inv1 hs g(2,3), of clock 1] v by simp_all
  let ?ids = "replicate 4 0 # rows"
  have nth: "?ids ! i = hop_row t2 g (tel_hops tel ! i)" "tel_hops tel ! i \<in> set ?hs" if "1 \<le> i" "i < 64" for i
  proof -
    obtain j where j: "i = Suc j" using \<open>1 \<le> i\<close> by (cases i) auto
    then have "?hs ! j = tel_hops tel ! i" "j < length ?hs" using that len by simp_all
    then show "?ids ! i = hop_row t2 g (tel_hops tel ! i)" "tel_hops tel ! i \<in> set ?hs"
      unfolding j rows(2) by (simp, metis nth_mem)
  qed
  have inv2: "topo_inv t2" using rows(1) by (simp add: extends_def)
  have ids_ok: "\<forall>row \<in> set ?ids. \<forall>a \<in> set row. id_ok t2 a"
  proof -
    have "id_ok t2 a" if "a \<in> set (hop_row t2 g h)" for a h
      using in_set_takeD [OF that [unfolded hop_row_def]] id_at_ok [OF inv2] by (auto simp: id_ok_def)
    then show ?thesis unfolding rows(2) by (auto simp: id_ok_def)
  qed
  show ?thesis
  proof (rule that)
    show "extends t t2" using up(1) rows(1) by (rule extends_trans)
    show "length ?ids = 64" using len by (simp add: rows(2))
    show "dest = id_at t2 (g, g)" using up(2) settled_extends(2) [OF rows(1) up(3)] by simp
    show "\<forall>row \<in> set ?ids. \<forall>a \<in> set row. id_ok t2 a" by (rule ids_ok)
    show "nsr_topology_update_from_telemetry clock tel t = link_last dest ?ids (link_hops dest ?ids t2)"
      using g u v unfolding nsr_topology_update_from_telemetry_def Let_def NSR_MAX_HOPS_def by simp
    show "\<And>i k. 1 \<le> i \<Longrightarrow> i < 64 \<Longrightarrow> k \<in> set (hop_keys g (tel_hops tel ! i)) \<Longrightarrow> settled t2 k"
      using nth(2) rows(3) by blast
  qed (rule nth(1))
qed

lemma find_in_set: "find P xs = Some x \<Longrightarrow> x \<in> set xs"
  by (induction xs) (auto split: if_splits)

lemma hop_edges_ok:
  assumes "length ids = 64" "\<forall>row \<in> set ids. \<forall>a \<in> set row. id_ok t a" "id_ok t dest"
  shows "\<forall>(a, b) \<in> set (hop_edges dest ids). id_ok t a \<and> id_ok t b"
    "\<forall>(a, b) \<in> set (last_edges dest ids). id_ok t a \<and> id_ok t b"
proof -
  have row: "ids ! i \<in> set ids" if "i < 64" for i using assms(1) that by simp
  show "\<forall>(a, b) \<in> set (hop_edges dest ids). id_ok t a \<and> id_ok t b"
    using assms(2,3) row unfolding hop_edges_def source_edges_def NSR_MAX_HOPS_def
    by (auto split: if_splits)
  have "last_ttl ids < 64"
  proof (cases "find (\<lambda>i. ids ! i ! 0 \<noteq> 0) (rev [1..<64])")
    case (Some i)
    then have "i \<in> set (rev [1..<64])" by (rule find_in_set)
    then show ?thesis unfolding last_ttl_def NSR_MAX_HOPS_def Some set_rev set_upt by simp
  qed (simp only: last_ttl_def NSR_MAX_HOPS_def, simp)
  then show "\<forall>(a, b) \<in> set (last_edges dest ids). id_ok t a \<and> id_ok t b"
    using assms(2,3) row unfolding last_edges_def by auto
qed

lemma hop_row_memI:
  assumes "hop_wf h" "a \<in> set (hop_addrs h)"
  shows "id_at t (a, g) \<in> set (hop_row t g h)"
proof -
  have "length (hop_aliases h) = 3" using assms(1) unfolding hop_wf_def by blast
  then have "length (live_aliases h) \<le> 3" by (simp add: live_aliases_def)
  then have "length (hop_keys g h) \<le> 4" by (simp add: hop_keys_def hop_addrs_def)
  then have "set (map (id_at t) (hop_keys g h)) \<subseteq> set (hop_row t g h)" by (simp add: hop_row_def)
  moreover have "id_at t (a, g) \<in> set (map (id_at t) (hop_keys g h))" using assms(2) by (simp add: hop_keys_def)
  ultimately show ?thesis by (rule subsetD)
qed

lemma hop_edges_memI:
  assumes "1 \<le> i" "i < 63" "a \<in> set (ids ! i)" "b \<in> set (ids ! (i + 1))"
  shows "(a, b) \<in> set (hop_edges dest ids)"
  using assms unfolding hop_edges_def source_edges_def NSR_MAX_HOPS_def by (auto intro!: bexI [of _ i] bexI [of _ a])

lemma update_result:
  fixes clock :: "nat \<Rightarrow> nat \<Rightarrow> u64"
  assumes "topo_inv t" "telemetry_wf tel" "tel_target_ip tel = g" "g \<noteq> []" "length g \<le> 47"
  defines "T \<equiv> nsr_topology_update_from_telemetry clock tel t"
  obtains t2 ids dest where "extends t t2" "topo_inv t2"
    "\<And>i. 1 \<le> i \<Longrightarrow> i < 64 \<Longrightarrow> ids ! i = hop_row t2 g (tel_hops tel ! i)"
    "\<And>i k. 1 \<le> i \<Longrightarrow> i < 64 \<Longrightarrow> k \<in> set (hop_keys g (tel_hops tel ! i)) \<Longrightarrow> settled t2 k"
    "topo_inv T" "topo_lookup T = topo_lookup t2" "tp_node_count T = tp_node_count t2"
    "\<forall>(x, y) \<in> set (hop_edges dest ids). x \<noteq> 0 \<longrightarrow> y \<noteq> 0 \<longrightarrow> x \<noteq> y \<longrightarrow>
        (x, y) \<in> set (topo_edges T) \<or> unat (tp_edge_count T) = 2048"
proof -
  obtain t2 ids dest where s: "extends t t2" "length ids = 64"
    "\<And>i. 1 \<le> i \<Longrightarrow> i < 64 \<Longrightarrow> ids ! i = hop_row t2 g (tel_hops tel ! i)"
    "\<And>i k. 1 \<le> i \<Longrightarrow> i < 64 \<Longrightarrow> k \<in> set (hop_keys g (tel_hops tel ! i)) \<Longrightarrow> settled t2 k"
    "dest = id_at t2 (g, g)" "\<forall>row \<in> set ids. \<forall>a \<in> set row. id_ok t2 a"
    "T = link_last dest ids (link_hops dest ids t2)"
    using update_stages [OF assms(1-5)] unfolding T_def by metis
  have inv2: "topo_inv t2" using s(1) by (simp add: extends_def)
  have dest: "id_ok t2 dest" unfolding s(5) by (rule id_at_ok [OF inv2])
  note ok = hop_edges_ok [OF s(2,6) dest]
  note e = add_edges_props [OF inv2 ok(1), folded link_hops_eq]
  have look: "topo_lookup (link_hops dest ids t2) = topo_lookup t2"
    using e by (intro topo_lookup_same) (simp_all add: same_node_def)
  have "\<forall>(a, b) \<in> set (last_edges dest ids). id_ok (link_hops dest ids t2) a \<and> id_ok (link_hops dest ids t2) b"
    using ok(2) e by (simp add: id_ok_def)
  note l = link_last_props [OF _ this, folded s(7)]
  show ?thesis
  proof (rule that [OF s(1) inv2 s(3,4)])
    show "topo_inv T" "topo_lookup T = topo_lookup t2" "tp_node_count T = tp_node_count t2" using l e look by simp_all
    show "\<forall>(x, y) \<in> set (hop_edges dest ids). x \<noteq> 0 \<longrightarrow> y \<noteq> 0 \<longrightarrow> x \<noteq> y \<longrightarrow>
        (x, y) \<in> set (topo_edges T) \<or> unat (tp_edge_count T) = 2048" using l e by blast
  qed
qed

section \<open>Health\<close>

lemma jitter_step: "f32 (f32 (0 * f32 (8/10)) + f32 (0 * f32 (2/10))) = 0" by simp

lemma jitter_update_node_health:
  assumes "nh_jitter_us (nd_health n) = 0"
  shows "nh_jitter_us (nd_health (update_node_health now h r n)) = 0"
  using assms by (simp add: update_node_health_def Let_def)

definition no_jitter :: "nsr_topology_state \<Rightarrow> bool" where
  "no_jitter t \<longleftrightarrow> (\<forall>n \<in> set (tp_nodes t). nh_jitter_us (nd_health n) = 0)"

lemma no_jitter_upd:
  assumes "no_jitter t" "i < length (tp_nodes t) \<Longrightarrow> nh_jitter_us (nd_health n) = 0"
  shows "no_jitter (t\<lparr>tp_nodes := (tp_nodes t)[i := n]\<rparr>)"
proof (cases "i < length (tp_nodes t)")
  case True
  then show ?thesis using assms set_update_subset_insert [of "tp_nodes t" i n] by (auto simp: no_jitter_def)
qed (use assms in \<open>simp add: no_jitter_def list_update_beyond\<close>)

lemma no_jitter_nth: "no_jitter t \<Longrightarrow> i < length (tp_nodes t) \<Longrightarrow> nh_jitter_us (nd_health (tp_nodes t ! i)) = 0"
  by (simp add: no_jitter_def)

lemma no_jitter_add_edge [simp]: "no_jitter (add_edge a b t) = no_jitter t"
  by (simp add: add_edge_def no_jitter_def split: option.splits)

lemma no_jitter_add_edges [simp]: "no_jitter (fold (\<lambda>(a, b). add_edge a b) es t) = no_jitter t"
  by (induction es arbitrary: t) (auto simp: case_prod_beta)

lemma no_jitter_upsert: "no_jitter t \<Longrightarrow> no_jitter (snd (nsr_topology_upsert_node t a ttl g d))"
proof -
  assume nj: "no_jitter t"
  have "no_jitter (t\<lparr>tp_nodes := (tp_nodes t)[i := (tp_nodes t ! i)\<lparr>nd_ttl := ttl, nd_is_destination := d\<rparr>]\<rparr>)" for i
    using no_jitter_nth [OF nj, of i] by (intro no_jitter_upd [OF nj]) simp
  moreover have "no_jitter (t\<lparr>tp_nodes := (tp_nodes t)[i := n]\<rparr>) \<Longrightarrow>
      no_jitter (t\<lparr>tp_next_id := x, tp_nodes := (tp_nodes t)[i := n], tp_node_count := c\<rparr>)" for i n x c
    by (simp add: no_jitter_def)
  moreover have "no_jitter (t\<lparr>tp_nodes := (tp_nodes t)[i := node_zero\<lparr>nd_id := j, nd_ttl := ttl, nd_active := True,
      nd_is_destination := d, nd_addr := u, nd_target_ip := v\<rparr>]\<rparr>)" for i j u v
    by (intro no_jitter_upd [OF nj]) (simp add: node_zero_def health_zero_def)
  ultimately show ?thesis using nj by (simp add: nsr_topology_upsert_node_def Let_def split: option.splits)
qed

lemma no_jitter_upsert_hop_addr: "no_jitter t \<Longrightarrow> no_jitter (snd (upsert_hop_addr now h ttl g a r t))"
proof -
  assume "no_jitter t"
  then have nj: "no_jitter (snd (nsr_topology_upsert_node t a ttl g False))" by (rule no_jitter_upsert)
  have "i < length (tp_nodes s) \<Longrightarrow> nh_jitter_us (nd_health (update_node_health now h r (tp_nodes s ! i))) = 0"
    if "no_jitter s" for s i
    using that by (simp add: no_jitter_nth jitter_update_node_health)
  with nj show ?thesis
    by (auto simp: upsert_hop_addr_def case_prod_beta intro!: no_jitter_upd split: option.splits)
qed

lemma no_jitter_upsert_aliases: "no_jitter t \<Longrightarrow> no_jitter (snd (upsert_aliases clock k h ttl g as t))"
  by (induction as arbitrary: k t) (simp_all add: case_prod_beta no_jitter_upsert_hop_addr)

lemma no_jitter_upsert_hops: "no_jitter t \<Longrightarrow> no_jitter (snd (upsert_hops clock i g hs t))"
proof (induction hs arbitrary: i t)
  case (Cons h hs)
  have "no_jitter (snd (upsert_hop (clock i) i g h t))"
    using Cons.prems by (simp add: upsert_hop_def case_prod_beta no_jitter_upsert_aliases no_jitter_upsert_hop_addr)
  with Cons.IH show ?case by (simp add: case_prod_beta)
qed simp

lemma no_jitter_link_last: "no_jitter t \<Longrightarrow> no_jitter (link_last dest ids t)"
proof -
  assume "no_jitter t"
  let ?t1 = "fold (\<lambda>(a, b). add_edge a b) (last_edges dest ids) t"
  have nj: "no_jitter ?t1" using \<open>no_jitter t\<close> by simp
  have "no_jitter (?t1\<lparr>tp_nodes := (tp_nodes ?t1)[i := (tp_nodes ?t1 ! i)\<lparr>nd_ttl := x\<rparr>]\<rparr>)" for i x
    using no_jitter_nth [OF nj, of i] by (intro no_jitter_upd [OF nj]) simp
  with nj \<open>no_jitter t\<close> show ?thesis
    unfolding link_last_def Let_def fold_last_edges last_edges_def [symmetric] by (auto split: option.splits)
qed

lemma no_jitter_update: "no_jitter t \<Longrightarrow> no_jitter (nsr_topology_update_from_telemetry clock tel t)"
  by (simp add: nsr_topology_update_from_telemetry_def Let_def case_prod_beta no_jitter_link_last link_hops_eq
      no_jitter_upsert_hops no_jitter_upsert)

lemma f32_score_consts:
  "f32 (f32 (50/100)) = f32 (50/100)" "f32 (f32 (20/100)) = f32 (20/100)" "f32 (f32 (15/100)) = f32 (15/100)"
  "f32 (f32 (f32 (f32 (50/100) + f32 (20/100)) + f32 (15/100)) + f32 (15/100)) \<le> 1"
  "0 \<le> f32 (50/100)" "0 \<le> f32 (20/100)" "0 \<le> f32 (15/100)"
  by code_simp+

lemma f32_weighted:
  assumes "0 \<le> x" "x \<le> 1" "0 \<le> w" "f32 w = w"
  shows "0 \<le> f32 (x * w)" "f32 (x * w) \<le> w"
proof -
  show "0 \<le> f32 (x * w)" using assms by (intro f32_nonneg mult_nonneg_nonneg)
  have "x * w \<le> w" using assms by (simp add: mult_left_le_one_le)
  then show "f32 (x * w) \<le> w" using f32_mono [of "x * w" w] assms by simp
qed

section \<open>Properties\<close>

definition ex_tel :: nsr_telemetry_state where
  "ex_tel = telemetry_zero\<lparr>tel_target_ip := ''198.51.100.7'',
     tel_hops := (replicate 64 hop_zero)
       [1 := hop_zero\<lparr>hop_addr := ''10.0.0.1'', hop_sent := 4, hop_recv := 4, hop_primary_recv := 4\<rparr>,
        2 := hop_zero\<lparr>hop_addr := ''10.0.1.1'', hop_sent := 4, hop_recv := 3, hop_primary_recv := 3\<rparr>]\<rparr>"

lemma ex_tel_wf: "telemetry_wf ex_tel"
proof -
  have "hop_wf (hop_zero\<lparr>hop_addr := a, hop_sent := s, hop_recv := r, hop_primary_recv := p\<rparr>)"
    if "a \<noteq> []" "length a \<le> 47" for a s r p
    using that by (simp add: hop_wf_def hop_zero_def hop_addrs_def live_aliases_def)
  then show ?thesis
    unfolding telemetry_wf_def ex_tel_def
    by (auto dest!: set_update_subset_insert [THEN subsetD])
qed

lemma ex_tel_target: "tel_target_ip ex_tel = ''198.51.100.7''" by (simp add: ex_tel_def)

text \<open>
  C13: An update from a well-formed snapshot keeps the topology well formed: every identifier
  in its own slot, every address and target pair at most once, every edge between two different
  existing nodes and no edge twice.  No node loses its identifier, and afterwards every address
  of every hop is a node, unless all 1024 nodes are in use.
\<close>

theorem topology_update_registers:
  assumes "topo_inv t" "telemetry_wf tel" "tel_target_ip tel \<noteq> []" "length (tel_target_ip tel) \<le> 47"
  shows "topo_inv (nsr_topology_update_from_telemetry clock tel t) \<and>
     topo_lookup t \<subseteq>\<^sub>m topo_lookup (nsr_topology_update_from_telemetry clock tel t) \<and>
     (\<forall>i \<in> {1..<64}. \<forall>a \<in> set (hop_addrs (tel_hops tel ! i)).
        topo_lookup (nsr_topology_update_from_telemetry clock tel t) (a, tel_target_ip tel) \<noteq> None \<or>
        \<not> unat (tp_node_count (nsr_topology_update_from_telemetry clock tel t)) < 1024)"
proof -
  let ?g = "tel_target_ip tel" and ?T = "nsr_topology_update_from_telemetry clock tel t"
  obtain t2 ids dest where s: "extends t t2" "topo_inv t2"
    "\<And>i. 1 \<le> i \<Longrightarrow> i < 64 \<Longrightarrow> ids ! i = hop_row t2 ?g (tel_hops tel ! i)"
    "\<And>i k. 1 \<le> i \<Longrightarrow> i < 64 \<Longrightarrow> k \<in> set (hop_keys ?g (tel_hops tel ! i)) \<Longrightarrow> settled t2 k"
    "topo_inv ?T" "topo_lookup ?T = topo_lookup t2" "tp_node_count ?T = tp_node_count t2"
    "\<forall>(x, y) \<in> set (hop_edges dest ids). x \<noteq> 0 \<longrightarrow> y \<noteq> 0 \<longrightarrow> x \<noteq> y \<longrightarrow>
        (x, y) \<in> set (topo_edges ?T) \<or> unat (tp_edge_count ?T) = 2048"
    by (rule update_result [OF assms(1,2) refl assms(3,4)]) blast
  have "topo_lookup t2 (a, ?g) \<noteq> None \<or> full t2" if "i \<in> {1..<64}" "a \<in> set (hop_addrs (tel_hops tel ! i))" for i a
    using s(4) [of i "(a, ?g)"] that by (auto simp: settled_def hop_keys_def id_at_def)
  with s show ?thesis by (simp add: extends_def)
qed

theorem topology_update_registers_witness:
  "topo_inv (nsr_topology_update_from_telemetry (\<lambda>_ _. 0) ex_tel nsr_topology_init) \<and>
   ((\<exists>x. topo_lookup (nsr_topology_update_from_telemetry (\<lambda>_ _. 0) ex_tel nsr_topology_init) (''10.0.0.1'', ''198.51.100.7'') = Some x) \<or>
    1024 \<le> unat (tp_node_count (nsr_topology_update_from_telemetry (\<lambda>_ _. 0) ex_tel nsr_topology_init)))"
proof -
  have "(1 :: nat) \<in> {1..<64}" "''10.0.0.1'' \<in> set (hop_addrs (tel_hops ex_tel ! 1))"
    by (simp_all add: ex_tel_def hop_addrs_def)
  with topology_update_registers [OF topo_inv_init ex_tel_wf, of "\<lambda>_ _. 0"] show ?thesis
    unfolding ex_tel_target not_less by fastforce
qed

text \<open>
  C14: After an update, any two different addresses seen at consecutive TTLs that are both
  nodes are joined by an edge from the nearer to the farther one, unless all 2048 edges are in
  use.
\<close>

theorem topology_update_links:
  assumes "topo_inv t" "telemetry_wf tel" "tel_target_ip tel \<noteq> []" "length (tel_target_ip tel) \<le> 47"
    and "1 \<le> i" "i < 63" "a \<in> set (hop_addrs (tel_hops tel ! i))" "b \<in> set (hop_addrs (tel_hops tel ! (i + 1)))" "a \<noteq> b"
    and "topo_lookup (nsr_topology_update_from_telemetry clock tel t) (a, tel_target_ip tel) = Some x"
    and "topo_lookup (nsr_topology_update_from_telemetry clock tel t) (b, tel_target_ip tel) = Some y"
  shows "(x, y) \<in> set (topo_edges (nsr_topology_update_from_telemetry clock tel t)) \<or>
     unat (tp_edge_count (nsr_topology_update_from_telemetry clock tel t)) = 2048"
proof -
  let ?g = "tel_target_ip tel" and ?T = "nsr_topology_update_from_telemetry clock tel t"
  obtain t2 ids dest where s: "extends t t2" "topo_inv t2"
    "\<And>i. 1 \<le> i \<Longrightarrow> i < 64 \<Longrightarrow> ids ! i = hop_row t2 ?g (tel_hops tel ! i)"
    "\<And>i k. 1 \<le> i \<Longrightarrow> i < 64 \<Longrightarrow> k \<in> set (hop_keys ?g (tel_hops tel ! i)) \<Longrightarrow> settled t2 k"
    "topo_inv ?T" "topo_lookup ?T = topo_lookup t2" "tp_node_count ?T = tp_node_count t2"
    "\<forall>(x, y) \<in> set (hop_edges dest ids). x \<noteq> 0 \<longrightarrow> y \<noteq> 0 \<longrightarrow> x \<noteq> y \<longrightarrow>
        (x, y) \<in> set (topo_edges ?T) \<or> unat (tp_edge_count ?T) = 2048"
    by (rule update_result [OF assms(1,2) refl assms(3,4)]) blast
  have lk: "topo_lookup t2 (a, ?g) = Some x" "topo_lookup t2 (b, ?g) = Some y" using assms(10,11) s(6) by simp_all
  have hw: "hop_wf (tel_hops tel ! i)" "hop_wf (tel_hops tel ! (i + 1))"
    using assms(2,5,6) by (simp_all add: telemetry_wf_def)
  have "x \<in> set (ids ! i)" "y \<in> set (ids ! (i + 1))"
    using hop_row_memI [OF hw(1) assms(7), of t2 ?g] hop_row_memI [OF hw(2) assms(8), of t2 ?g] lk s(3) assms(5,6)
    by (simp_all add: id_at_def)
  then have "(x, y) \<in> set (hop_edges dest ids)" by (rule hop_edges_memI [OF assms(5,6)])
  moreover have "x \<noteq> 0" "y \<noteq> 0" using topo.lookup_nonzero [OF s(2)] lk by blast+
  moreover have "x \<noteq> y" using topo.lookup_inj [OF s(2) lk(1)] lk(2) assms(9) by auto
  ultimately show ?thesis using s(8) by blast
qed

definition ex_topo :: nsr_topology_state where
  "ex_topo = snd (nsr_topology_upsert_node (snd (nsr_topology_upsert_node nsr_topology_init
     ''10.0.0.1'' 1 ''198.51.100.7'' False)) ''10.0.1.1'' 2 ''198.51.100.7'' False)"

lemma ex_topo_lookup:
  "topo_inv ex_topo" "topo_lookup ex_topo (''10.0.0.1'', ''198.51.100.7'') = Some 1"
  "topo_lookup ex_topo (''10.0.1.1'', ''198.51.100.7'') = Some 2"
proof -
  let ?g = "''198.51.100.7''" let ?t1 = "snd (nsr_topology_upsert_node nsr_topology_init ''10.0.0.1'' 1 ?g False)"
  have ok: "key_ok (''10.0.0.1'', ?g)" "key_ok (''10.0.1.1'', ?g)" by (simp_all add: key_ok_def)
  have empty: "topo_lookup nsr_topology_init k = None" for k
    by (simp add: topo_lookup_def find_by_key find_index_None nsr_topology_init_def node_zero_def)
  have c0: "tp_node_count nsr_topology_init = 0" "tp_next_id nsr_topology_init = 1" by (simp_all add: nsr_topology_init_def)
  have room: "unat (tp_node_count nsr_topology_init) < 1024" using c0 by simp
  note u1 = upsert_node_new [OF topo_inv_init ok(1) empty room, of 1 False]
  have t1: "topo_inv ?t1" "topo_lookup ?t1 = (topo_lookup nsr_topology_init)((''10.0.0.1'', ?g) \<mapsto> 1)"
    "unat (tp_node_count ?t1) = 1" "tp_next_id ?t1 = 2"
    using u1 c0 by simp_all
  have "topo_lookup ?t1 (''10.0.1.1'', ?g) = None" "unat (tp_node_count ?t1) < 1024" using t1 empty by simp_all
  note u2 = upsert_node_new [OF t1(1) ok(2) this, of 2 False]
  show "topo_inv ex_topo" "topo_lookup ex_topo (''10.0.0.1'', ?g) = Some 1" "topo_lookup ex_topo (''10.0.1.1'', ?g) = Some 2"
    unfolding ex_topo_def using u2 t1(2,4) by simp_all
qed

theorem topology_update_links_witness:
  "(1, 2) \<in> set (topo_edges (nsr_topology_update_from_telemetry (\<lambda>_ _. 0) ex_tel ex_topo)) \<or>
   unat (tp_edge_count (nsr_topology_update_from_telemetry (\<lambda>_ _. 0) ex_tel ex_topo)) = 2048"
proof -
  let ?T = "nsr_topology_update_from_telemetry (\<lambda>_ _. 0) ex_tel ex_topo"
  obtain t2 where "extends ex_topo t2" "topo_lookup ?T = topo_lookup t2"
    by (rule update_result [OF ex_topo_lookup(1) ex_tel_wf ex_tel_target]) (simp_all, blast)
  then have le: "topo_lookup ex_topo \<subseteq>\<^sub>m topo_lookup ?T" by (simp add: extends_def)
  have lk: "topo_lookup ?T (''10.0.0.1'', tel_target_ip ex_tel) = Some 1" "topo_lookup ?T (''10.0.1.1'', tel_target_ip ex_tel) = Some 2"
    using le ex_topo_lookup unfolding ex_tel_target map_le_def by (metis domI)+
  have "''10.0.0.1'' \<in> set (hop_addrs (tel_hops ex_tel ! 1))" "''10.0.1.1'' \<in> set (hop_addrs (tel_hops ex_tel ! (1 + 1)))"
    unfolding one_add_one by (simp_all add: ex_tel_def hop_addrs_def)
  from topology_update_links [OF ex_topo_lookup(1) ex_tel_wf _ _ _ _ this _ lk] show ?thesis
    by (simp add: ex_tel_target)
qed

text \<open>
  A node keeps its identifier for good: whatever other nodes are registered in between, a
  second registration of the same address and target returns the identifier of the first.
\<close>

lemma topology_ids_stable:
  assumes "topo_inv t" "key_ok (a, g)" "\<forall>((ttl, d), k) \<in> set others. key_ok k"
    and "nsr_topology_upsert_node t a ttl g d = (i, t1)" "i \<noteq> 0"
  shows "fst (nsr_topology_upsert_node
     (fold (\<lambda>((ttl, d), (b, g')) t. snd (nsr_topology_upsert_node t b ttl g' d)) others t1) a ttl' g d') = i"
proof -
  have "(\<lambda>((ttl, d), (b, g')) t. snd (nsr_topology_upsert_node t b ttl g' d)) =
      (\<lambda>(x, k) t. snd ((case x of (ttl, d) \<Rightarrow> \<lambda>t (a, g). nsr_topology_upsert_node t a ttl g d) t k))"
    by (auto simp: fun_eq_iff)
  moreover have "\<forall>(x, k) \<in> set others. key_ok k" using assms(3) by auto
  ultimately show ?thesis
    using topo.upsert_again [OF assms(1,2), of others "(ttl, d)" "(ttl', d')"] assms(4,5) by simp
qed

text \<open>
  Jitter is never measured.  \<open>update_node_health\<close> stores the new round-trip time in both
  fields before it takes their difference, so from the initial topology, after any number of
  updates with any snapshots, every node's jitter is 0.
\<close>

lemma jitter_always_zero:
  "(\<lambda>n. nh_jitter_us (nd_health n)) `
     set (tp_nodes (fold (\<lambda>(clock, tel). nsr_topology_update_from_telemetry clock tel) updates nsr_topology_init)) \<subseteq> {0}"
proof -
  have "no_jitter (fold (\<lambda>(clock, tel). nsr_topology_update_from_telemetry clock tel) updates t)" if "no_jitter t" for t
    using that by (induction updates arbitrary: t) (simp_all add: case_prod_beta no_jitter_update)
  moreover have "no_jitter nsr_topology_init"
    by (simp add: no_jitter_def nsr_topology_init_def node_zero_def health_zero_def)
  ultimately show ?thesis unfolding no_jitter_def by blast
qed

text \<open>
  The health score of a node is between 0 and 1, in binary32 arithmetic, when its loss
  rate and instability are and its round-trip time and jitter are not negative.
\<close>

lemma health_score_bounds:
  assumes "0 \<le> nh_loss_rate h" "nh_loss_rate h \<le> 1" "0 \<le> nh_instability h" "nh_instability h \<le> 1"
    and "0 \<le> nh_rtt_us h" "0 \<le> nh_jitter_us h"
  shows "0 \<le> nsr_health_score h \<and> nsr_health_score h \<le> 1"
proof -
  define r where "r = (if f32 (nh_rtt_us h / 200000) > 1 then 1 else f32 (nh_rtt_us h / 200000))"
  define j where "j = (if f32 (nh_jitter_us h / 100000) > 1 then 1 else f32 (nh_jitter_us h / 100000))"
  have rj: "0 \<le> r" "r \<le> 1" "0 \<le> j" "j \<le> 1" using assms(5,6) by (auto simp: r_def j_def intro: f32_nonneg)
  define L R J I where "L = f32 (nh_loss_rate h * f32 (50/100))" and "R = f32 (r * f32 (20/100))"
    and "J = f32 (j * f32 (15/100))" and "I = f32 (nh_instability h * f32 (15/100))"
  note c = f32_score_consts
  have L: "0 \<le> L" "L \<le> f32 (50/100)" unfolding L_def using f32_weighted [OF assms(1,2) c(5,1)] by simp_all
  have R: "0 \<le> R" "R \<le> f32 (20/100)" unfolding R_def using f32_weighted [OF rj(1,2) c(6,2)] by simp_all
  have J: "0 \<le> J" "J \<le> f32 (15/100)" unfolding J_def using f32_weighted [OF rj(3,4) c(7,3)] by simp_all
  have I: "0 \<le> I" "I \<le> f32 (15/100)" unfolding I_def using f32_weighted [OF assms(3,4) c(7,3)] by simp_all
  have score: "nsr_health_score h = f32 (f32 (f32 (L + R) + J) + I)"
    by (simp add: nsr_health_score_def Let_def L_def R_def J_def I_def r_def j_def)
  have "f32 (f32 (f32 (L + R) + J) + I) \<le> f32 (f32 (f32 (f32 (50/100) + f32 (20/100)) + f32 (15/100)) + f32 (15/100))"
    by (intro f32_mono add_mono L R J I)
  moreover have "0 \<le> f32 (f32 (f32 (L + R) + J) + I)" by (intro f32_nonneg add_nonneg_nonneg L R J I)
  ultimately show ?thesis unfolding score using c(4) by (meson order_trans)
qed

end
