(* ===== verification/Plugin_Docs.thy ===== *)
theory Plugin_Docs
  imports Plugin_Entry Topology
begin

text \<open>
  The documents \<open>src/plugin/plugin.c\<close> sends to plugins (telemetry, render and render-hops
  parameters) and the two it reads back (lines to draw, hop annotations).

  A document is the JSON value whose encoding makes the calls the source makes, in the same
  order (\<open>emit_json\<close>).  \<open>double\<close> arithmetic is exact arithmetic rounded to binary64.  Drawing
  itself is left to ncurses: what is drawn is a list of positions, texts and colours.
\<close>

section \<open>Numbers\<close>

definition f64 :: "rat \<Rightarrow> rat" where
  "f64 x = (if x = 0 then 0
            else let q = pow2 (max (rat_exp \<bar>x\<bar>) (- 1022) - 52) in of_int (round_even (x / q)) * q)"

definition loss_ratio :: "u32 \<Rightarrow> u32 \<Rightarrow> rat" where
  "loss_ratio recv sent = (if sent = 0 then 0 else f64 (1 - f64 (of_nat (unat recv) / of_nat (unat sent))))"

definition trunc_rat :: "rat \<Rightarrow> int" where
  "trunc_rat x = (if 0 \<le> x then \<lfloor>x\<rfloor> else \<lceil>x\<rceil>)"

text \<open>The conversion of a \<open>long long\<close> to \<open>int\<close>.\<close>

definition to_int32 :: "int \<Rightarrow> int" where
  "to_int32 n = sint (word_of_int n :: 32 word)"

section \<open>Telemetry\<close>

fun status_name :: "nsr_obs_type \<Rightarrow> string" where
  "status_name NSR_OBS_REPLY = ''reply''"
| "status_name NSR_OBS_EXCEEDED = ''exceeded''"
| "status_name NSR_OBS_UNREACH = ''unreachable''"
| "status_name NSR_OBS_TIMEOUT = ''timeout''"
| "status_name _ = ''probing''"

definition hop_doc :: "nat \<Rightarrow> nsr_hop_info \<Rightarrow> json" where
  "hop_doc i h =
     JObj [(''hop_idx'', JInt (int i)), (''addr'', JStr (hop_addr h)), (''rtt_us'', JInt (sint (hop_rtt_us h))),
           (''sent'', JInt (uint (hop_sent h))), (''recv'', JInt (uint (hop_recv h))),
           (''loss'', JDouble (loss_ratio (hop_recv h) (hop_sent h))), (''status'', JStr (status_name (hop_last_status h)))]"

definition hop_docs :: "nat list \<Rightarrow> nsr_hop_info list \<Rightarrow> json list" where
  "hop_docs idx hops = map (\<lambda>i. hop_doc i (hops ! i)) (filter (\<lambda>i. hop_sent (hops ! i) \<noteq> 0) idx)"

text \<open>The addresses already listed, at most 256, each cut to 47 characters.\<close>

definition add_ip :: "string \<Rightarrow> string list \<Rightarrow> string list" where
  "add_ip addr added = (if length added < 256 then added @ [c_strncpy 47 addr] else added)"

definition hop_ips :: "nsr_hop_info list \<Rightarrow> string list" where
  "hop_ips hops =
     fold (\<lambda>i added. if hop_sent (hops ! i) = 0 then added else add_ip (hop_addr (hops ! i)) added) [1..<NSR_MAX_HOPS] []"

definition node_doc :: "nsr_topology_node \<Rightarrow> json" where
  "node_doc n =
     JObj [(''hop_idx'', JInt (- 1)), (''addr'', JStr (nd_addr n)), (''rtt_us'', JInt (trunc_rat (nh_rtt_us (nd_health n)))),
           (''sent'', JInt (if nh_sent (nd_health n) > 0 then uint (nh_sent (nd_health n)) else 1)),
           (''recv'', JInt (uint (nh_recv (nd_health n)))),
           (''loss'', JDouble (loss_ratio (nh_recv (nd_health n)) (nh_sent (nd_health n)))), (''status'', JStr ''reply'')]"

fun node_docs :: "nsr_topology_node list \<Rightarrow> string list \<Rightarrow> json list" where
  "node_docs [] added = []"
| "node_docs (n # ns) added =
     (if \<not> nd_active n \<or> nd_addr n = [] then node_docs ns added
      else if nd_addr n \<in> set added then node_docs ns added
      else node_doc n # node_docs ns (add_ip (nd_addr n) added))"

definition telemetry_doc :: "nsr_telemetry_state \<Rightarrow> nsr_topology_state option \<Rightarrow> json" where
  "telemetry_doc tel topo =
     JObj [(''target_ip'', JStr (tel_target_ip tel)), (''target_host'', JStr (tel_target_host tel)),
           (''interval_ms'', JInt (uint (tel_interval_ms tel))),
           (''hops'', JArr (hop_docs [1..<NSR_MAX_HOPS] (tel_hops tel) @
              (case topo of None \<Rightarrow> [] | Some t \<Rightarrow> node_docs (tp_nodes t) (hop_ips (tel_hops tel)))))]"

definition render_hops_doc :: "nsr_hop_info list \<Rightarrow> nat \<Rightarrow> json" where
  "render_hops_doc hops hop_count = JObj [(''hops'', JArr (hop_docs [1..<min NSR_MAX_HOPS hop_count] hops))]"

text \<open>\<open>nsr_json_init\<close> and the calls that write the document.\<close>

definition build_doc_buf :: "json \<Rightarrow> nsr_json_buf option" where
  "build_doc_buf v = nsr_json_init \<bind> emit_json v"

section \<open>Rendering\<close>

datatype nsr_ui_mode = NSR_UI_NORMAL | NSR_UI_GRID | NSR_UI_TREE | NSR_UI_TOOLS

fun mode_name :: "nsr_ui_mode \<Rightarrow> string" where
  "mode_name NSR_UI_GRID = ''grid''"
| "mode_name NSR_UI_TREE = ''tree''"
| "mode_name NSR_UI_TOOLS = ''tools''"
| "mode_name NSR_UI_NORMAL = ''normal''"

definition focused_addr :: "nsr_topology_state option \<Rightarrow> u32 \<Rightarrow> string" where
  "focused_addr topo ident =
     (case topo of
        None \<Rightarrow> []
      | Some t \<Rightarrow>
          if ident = 0 then []
          else (case node_by_id t ident of None \<Rightarrow> [] | Some i \<Rightarrow> nd_addr (tp_nodes t ! i)))"

definition render_doc :: "nsr_ui_mode \<Rightarrow> int \<Rightarrow> int \<Rightarrow> u32 \<Rightarrow> nsr_topology_state option \<Rightarrow> json" where
  "render_doc mode pw ph focused topo =
     JObj [(''mode'', JStr (mode_name mode)), (''width'', JInt pw), (''height'', JInt ph),
           (''focused_node_id'', JInt (uint focused)), (''focused_addr'', JStr (focused_addr topo focused))]"

section \<open>Reading answers\<close>

text \<open>The elements an iteration over an array visits, as positions in the text.\<close>

lemma arr_next_length: "nsr_json_arr_next s = (x, Some n) \<Longrightarrow> length n < length s"
  using length_skip_ws [of s]
  by (auto simp: nsr_json_arr_next_def Let_def split: list.splits if_splits option.splits
      dest!: length_skip_value length_skip_ws_Cons)
     (meson le_less_trans length_skip_ws less_le_trans not_le)+

function arr_rest :: "string option \<times> string option \<Rightarrow> string list" where
  "arr_rest (Some elem, Some nxt) = elem # arr_rest (nsr_json_arr_next nxt)"
| "arr_rest (Some elem, None) = [elem]"
| "arr_rest (None, nxt) = []"
  by pat_completeness auto
termination arr_rest
  by (relation "measure (\<lambda>(x, n). case n of None \<Rightarrow> 0 | Some s \<Rightarrow> Suc (length s))")
     (auto split: option.split prod.split dest: arr_next_length)

definition arr_elems :: "string \<Rightarrow> string list" where
  "arr_elems json = arr_rest (nsr_json_arr_first json)"

text \<open>A \<open>long long\<close> member that keeps its default when it is absent or too long.\<close>

definition get_int :: "string \<Rightarrow> string \<Rightarrow> int \<Rightarrow> int" where
  "get_int json key def =
     (case get_text json key of
        None \<Rightarrow> def
      | Some v \<Rightarrow> (case snd (nsr_json_parse_int v) of None \<Rightarrow> def | Some n \<Rightarrow> n))"

text \<open>The colour pair of a name, 0 for none.\<close>

definition color_for_name :: "string \<Rightarrow> nat" where
  "color_for_name name =
     (if name = ''cyan'' then 1 else if name = ''green'' then 2 else if name = ''yellow'' then 3
      else if name = ''red'' then 4 else if name = ''magenta'' then 5 else if name = ''blue'' then 6
      else if name = ''white'' then 7 else if name = ''highlight'' then 8 else 0)"

text \<open>What a plugin shows: a text at a position in a colour, or the frame of its panel.\<close>

datatype drawn = Drawn_text int int string nat | Drawn_frame int int int int nat

definition draw_elem :: "int \<Rightarrow> int \<Rightarrow> string \<Rightarrow> drawn list" where
  "draw_elem y x elem =
     (let ly = get_int elem ''y'' (-1); lx = get_int elem ''x'' (-1);
          txt = get_string elem ''text'' 128; color = get_string elem ''color'' 32
      in if ly \<ge> 0 \<and> lx \<ge> 0 \<and> txt \<noteq> [] then [Drawn_text (to_int32 ly + y) (to_int32 lx + x) txt (color_for_name color)] else [])"

definition draw_render_response :: "string \<Rightarrow> int \<Rightarrow> int \<Rightarrow> drawn list" where
  "draw_render_response json y x =
     (case get_sub json ''result'' of
        None \<Rightarrow> []
      | Some result \<Rightarrow>
          (case get_sub result ''lines'' of
             None \<Rightarrow> []
           | Some lines \<Rightarrow> concat (map (draw_elem y x) (arr_elems lines))))"

record nsr_hop_annotation =
  an_hop_idx :: int
  an_text :: string

definition annotation_of :: "string \<Rightarrow> nsr_hop_annotation option" where
  "annotation_of elem =
     (let hop_idx = get_int elem ''hop_idx'' (-1); txt = get_string elem ''text'' 128
      in if hop_idx \<ge> 0 \<and> txt \<noteq> [] then Some \<lparr>an_hop_idx = to_int32 hop_idx, an_text = c_strncpy 127 txt\<rparr> else None)"

text \<open>The annotations collected so far are \<open>out\<close>; the loop stops when there are \<open>max_out\<close>.\<close>

fun collect_annotations :: "nat \<Rightarrow> string list \<Rightarrow> nsr_hop_annotation list \<Rightarrow> nsr_hop_annotation list" where
  "collect_annotations max_out [] out = out"
| "collect_annotations max_out (elem # elems) out =
     (if length out < max_out then
        collect_annotations max_out elems (case annotation_of elem of None \<Rightarrow> out | Some a \<Rightarrow> out @ [a])
      else out)"

definition parse_render_hops_response :: "string \<Rightarrow> nat \<Rightarrow> nsr_hop_annotation list \<Rightarrow> nsr_hop_annotation list" where
  "parse_render_hops_response json max_out out =
     (case get_sub json ''result'' of
        None \<Rightarrow> out
      | Some result \<Rightarrow>
          (case get_sub result ''annotations'' of
             None \<Rightarrow> out
           | Some anns \<Rightarrow> collect_annotations max_out (arr_elems anns) out))"

lemma collect_annotations_bound:
  "length out \<le> max_out \<Longrightarrow> length (collect_annotations max_out elems out) \<le> max_out"
  by (induction max_out elems out rule: collect_annotations.induct) (auto split: option.split)

lemma parse_render_hops_bound:
  "length out \<le> max_out \<Longrightarrow> length (parse_render_hops_response json max_out out) \<le> max_out"
  by (auto simp: parse_render_hops_response_def collect_annotations_bound split: option.split)

lemma build_doc_buf_ok:
  assumes "ints_ok v"
  shows "params_ok (build_doc_buf v) v"
proof -
  obtain jb where jb: "nsr_json_init = Some jb" "jb_inv jb" "jb_text jb = []" using nsr_json_init_ok by blast
  obtain jb' where "emit_json v jb = Some jb'" "jb_inv jb'" "jb_text jb' = render v"
    using appends_json [OF assms] jb(2,3) unfolding appends_def by fastforce
  then show ?thesis by (simp add: build_doc_buf_def params_ok_def jb(1))
qed

end
