(* ===== verification/Plugin_Config.thy ===== *)
theory Plugin_Config
  imports Json_Rpc
begin

text \<open>
  The configuration file that remembers which plugins are enabled: \<open>config_set_bool\<close> and
  \<open>config_get_bool_default\<close> of \<open>src/plugin/plugin.c\<close>.

  A file is its content, \<open>None\<close> when it cannot be opened for reading.  \<open>fgets\<close> reads at most 511
  bytes and not past a newline; the string functions see a line up to its first NUL.  \<open>atoi\<close> is
  \<open>strtol\<close> cut to 32 bits.
\<close>

section \<open>Lines as \<open>fgets\<close> delivers them\<close>

definition fgets_len :: "string \<Rightarrow> nat" where
  "fgets_len s =
     (let k = length (takeWhile (\<lambda>c. c \<noteq> CHR 0x0A) s)
      in if k < 511 \<and> k < length s then k + 1 else min 511 (length s))"

function fgets_lines :: "string \<Rightarrow> string list" where
  "fgets_lines s = (if s = [] then [] else c_text (take (fgets_len s) s) # fgets_lines (drop (fgets_len s) s))"
  by pat_completeness auto
termination fgets_lines
  by (relation "measure length") (auto simp: fgets_len_def Let_def)

declare fgets_lines.simps [simp del]

text \<open>The line without its end, and the key and value when it has an equals sign.\<close>

definition chomp :: "string \<Rightarrow> string" where
  "chomp line = takeWhile (\<lambda>c. c \<noteq> CHR 0x0D) (takeWhile (\<lambda>c. c \<noteq> CHR 0x0A) line)"

definition key_value :: "string \<Rightarrow> (string \<times> string) option" where
  "key_value line =
     (let tmp = chomp line
      in if CHR ''='' \<in> set tmp
         then Some (takeWhile (\<lambda>c. c \<noteq> CHR ''='') tmp, tl (dropWhile (\<lambda>c. c \<noteq> CHR ''='') tmp))
         else None)"

definition has_key :: "string \<Rightarrow> string \<Rightarrow> bool" where
  "has_key key line \<longleftrightarrow> (case key_value line of None \<Rightarrow> False | Some (k, _) \<Rightarrow> k = key)"

section \<open>Reading and writing\<close>

definition bool_line :: "string \<Rightarrow> bool \<Rightarrow> string" where
  "bool_line key value = take 511 (key @ ''='' @ (if value then ''1'' else ''0'') @ [CHR 0x0A])"

text \<open>
  At most 256 lines are kept.  The result is the new content, or the old one when the file
  cannot be opened for writing (\<open>writable\<close>).
\<close>

definition config_set_bool :: "bool \<Rightarrow> string option \<Rightarrow> string \<Rightarrow> bool \<Rightarrow> string option" where
  "config_set_bool writable file key value =
     (let old = take 256 (case file of None \<Rightarrow> [] | Some s \<Rightarrow> fgets_lines s);
          lines = map (\<lambda>line. if has_key key line then bool_line key value else line) old;
          found = list_ex (has_key key) old;
          lines = (if \<not> found \<and> length lines < 256 then lines @ [bool_line key value] else lines)
      in if writable then Some (concat lines) else file)"

definition atoi :: "string \<Rightarrow> 32 word" where
  "atoi s = word_of_int (fst (strtoll s))"

fun get_bool_loop :: "string \<Rightarrow> bool \<Rightarrow> string list \<Rightarrow> bool" where
  "get_bool_loop key def [] = def"
| "get_bool_loop key def (line # lines) =
     (case key_value line of
        None \<Rightarrow> get_bool_loop key def lines
      | Some (k, v) \<Rightarrow> if k = key then atoi v \<noteq> 0 else get_bool_loop key def lines)"

definition config_get_bool_default :: "string option \<Rightarrow> string \<Rightarrow> bool \<Rightarrow> bool" where
  "config_get_bool_default file key def =
     (case file of None \<Rightarrow> def | Some s \<Rightarrow> get_bool_loop key def (fgets_lines s))"

section \<open>Text files\<close>

text \<open>A file of complete lines that fit the line buffer.\<close>

definition line_ok :: "string \<Rightarrow> bool" where
  "line_ok l \<longleftrightarrow> CHR 0x0A \<notin> set l \<and> CHR 0x00 \<notin> set l \<and> length l \<le> 510"

definition config_text :: "string list \<Rightarrow> string" where
  "config_text ls = concat (map (\<lambda>l. l @ [CHR 0x0A]) ls)"

definition config_key_ok :: "string \<Rightarrow> bool" where
  "config_key_ok key \<longleftrightarrow> set key \<inter> {CHR ''='', CHR 0x0A, CHR 0x0D, CHR 0x00} = {} \<and> length key \<le> 508"

lemma fgets_lines_text: "\<forall>l \<in> set ls. line_ok l \<Longrightarrow> fgets_lines (config_text ls) = map (\<lambda>l. l @ [CHR 0x0A]) ls"
proof (induction ls)
  case Nil
  show ?case by (simp add: config_text_def fgets_lines.simps)
next
  case (Cons l ls)
  let ?s = "l @ CHR 0x0A # config_text ls"
  have t: "config_text (l # ls) = ?s" by (simp add: config_text_def)
  have l: "CHR 0x0A \<notin> set l" "CHR 0x00 \<notin> set l" "length l \<le> 510" using Cons.prems by (auto simp: line_ok_def)
  have tw: "takeWhile (\<lambda>c. c \<noteq> CHR 0x0A) ?s = l" using l(1) by (simp add: takeWhile_append)
  have len: "fgets_len ?s = Suc (length l)" using l(3) by (simp add: fgets_len_def tw)
  have "c_text (l @ [CHR 0x0A]) = l @ [CHR 0x0A]" using l(2) by (simp add: c_text_def takeWhile_append)
  then have "fgets_lines ?s = (l @ [CHR 0x0A]) # fgets_lines (config_text ls)"
    by (subst fgets_lines.simps) (simp add: len)
  with Cons show ?case by (simp add: t)
qed

lemma key_value_bool_line:
  assumes "config_key_ok key"
  shows "key_value (bool_line key b) = Some (key, if b then ''1'' else ''0'')"
    "\<exists>l. bool_line key b = l @ [CHR 0x0A] \<and> line_ok l"
proof -
  have b: "bool_line key b = (key @ ''='' @ (if b then ''1'' else ''0'')) @ [CHR 0x0A]"
    using assms by (auto simp: bool_line_def config_key_ok_def)
  have k: "CHR ''='' \<notin> set key" "CHR 0x0A \<notin> set key" "CHR 0x0D \<notin> set key" "CHR 0x00 \<notin> set key" "length key \<le> 508"
    using assms by (auto simp: config_key_ok_def)
  have "chomp (bool_line key b) = key @ ''='' @ (if b then ''1'' else ''0'')"
    unfolding b using k by (simp add: chomp_def takeWhile_append)
  then show "key_value (bool_line key b) = Some (key, if b then ''1'' else ''0'')"
    using k by (simp add: key_value_def takeWhile_append dropWhile_append)
  have "line_ok (key @ ''='' @ (if b then ''1'' else ''0''))" using k by (cases b) (auto simp: line_ok_def)
  with b show "\<exists>l. bool_line key b = l @ [CHR 0x0A] \<and> line_ok l" by blast
qed

lemma atoi_bool: "atoi ''1'' = 1" "atoi ''0'' = 0"
  by (simp_all add: atoi_def strtoll_def isspace_def isdigit_def digits_val_def digit_val_def clamp_ll_def Let_def)

lemma get_bool_append:
  "\<not> has_key key new \<Longrightarrow> get_bool_loop key def (ls @ [new]) = get_bool_loop key def ls"
  "\<not> list_ex (has_key key) ls \<Longrightarrow> get_bool_loop key def (ls @ [new]) = get_bool_loop key def [new]"
  by (induction ls) (auto simp: has_key_def split: option.splits)

lemma get_bool_replaced:
  assumes "key_value new = Some (key, v)"
  shows "get_bool_loop key def (map (\<lambda>l. if has_key key l then new else l) ls) =
      (if list_ex (has_key key) ls then atoi v \<noteq> 0 else def)"
    and "key' \<noteq> key \<Longrightarrow> get_bool_loop key' def (map (\<lambda>l. if has_key key l then new else l) ls) = get_bool_loop key' def ls"
  using assms by (induction ls) (auto simp: has_key_def split: option.splits)

section \<open>Properties\<close>

text \<open>
  C39: Setting a flag in a configuration file of fewer than 256 complete lines, or in a file that
  does not exist yet, gives such a file again, with the flag at that value and every other flag
  as it was.
\<close>

theorem config_set_get:
  assumes "file = None \<and> ls = [] \<or> file = Some (config_text ls)" "\<forall>l \<in> set ls. line_ok l" "length ls < 256" "config_key_ok key"
  shows "\<exists>ls'. config_set_bool True file key b = Some (config_text ls') \<and> (\<forall>l \<in> set ls'. line_ok l) \<and>
     config_get_bool_default (Some (config_text ls')) key d = b \<and>
     (\<forall>key' def. key' \<noteq> key \<longrightarrow>
        config_get_bool_default (Some (config_text ls')) key' def = config_get_bool_default file key' def)"
proof -
  let ?nl = "\<lambda>l. l @ [CHR 0x0A]"
  let ?new = "bool_line key b"
  note kv = key_value_bool_line(1) [OF assms(4), of b]
  obtain n where n: "?new = ?nl n" "line_ok n" using key_value_bool_line(2) [OF assms(4)] by blast
  define repl where "repl = map (\<lambda>l. if has_key key (?nl l) then n else l) ls"
  define ls' where "ls' = (if list_ex (has_key key) (map ?nl ls) then repl else repl @ [n])"
  have old: "(case file of None \<Rightarrow> [] | Some s \<Rightarrow> fgets_lines s) = map ?nl ls"
    using assms(1) fgets_lines_text [OF assms(2)] by auto
  have r: "map ?nl repl = map (\<lambda>l. if has_key key l then ?new else l) (map ?nl ls)" by (simp add: repl_def n(1))
  have set: "config_set_bool True file key b = Some (config_text ls')"
    using assms(3) by (simp add: config_set_bool_def old ls'_def r [symmetric] n(1) config_text_def Let_def repl_def o_def if_distrib [of ?nl] cong: if_cong)
  have ok: "\<forall>l \<in> set ls'. line_ok l" using assms(2) n(2) by (auto simp: ls'_def repl_def)
  have get: "config_get_bool_default (Some (config_text ls')) k def = get_bool_loop k def (map ?nl ls')" for k def
    by (simp add: config_get_bool_default_def fgets_lines_text [OF ok])
  have same: "config_get_bool_default file k def = get_bool_loop k def (map ?nl ls)" for k def
    using old by (auto simp: config_get_bool_default_def split: option.splits)
  have nk: "has_key key ?new" "key' \<noteq> key \<Longrightarrow> \<not> has_key key' ?new" for key' using kv by (auto simp: has_key_def)
  have rid: "map (\<lambda>l. if has_key key l then ?new else l) xs = xs" if "\<not> list_ex (has_key key) xs" for xs
    using that by (induction xs) auto
  have "get_bool_loop key d (map ?nl ls') = b"
  proof (cases "list_ex (has_key key) (map ?nl ls)")
    case True
    then have "map ?nl ls' = map (\<lambda>l. if has_key key l then ?new else l) (map ?nl ls)" unfolding ls'_def by (simp only: if_True r)
    with get_bool_replaced(1) [OF kv, of d "map ?nl ls"] True atoi_bool show ?thesis by (cases b) simp_all
  next
    case False
    then have "map ?nl ls' = map ?nl ls @ [?new]" unfolding ls'_def using r rid [OF False] by (simp add: n(1))
    with get_bool_append(2) [OF False, of d ?new] kv atoi_bool show ?thesis by (cases b) simp_all
  qed
  moreover have "get_bool_loop k def (map ?nl ls') = get_bool_loop k def (map ?nl ls)" if "k \<noteq> key" for k def
  proof -
    have "get_bool_loop k def (map ?nl repl) = get_bool_loop k def (map ?nl ls)"
      unfolding r by (rule get_bool_replaced(2) [OF kv that])
    then show ?thesis using get_bool_append(1) [OF nk(2) [OF that], of def "map ?nl repl"]
      by (simp add: ls'_def n(1))
  qed
  ultimately show ?thesis using set ok get same by metis
qed

theorem config_set_get_witness:
  "\<exists>ls'. config_set_bool True (Some (config_text [''NSR_PLUGIN_geoip=0'', ''# note''])) ''NSR_PLUGIN_geoip'' True = Some (config_text ls') \<and>
     config_get_bool_default (Some (config_text ls')) ''NSR_PLUGIN_geoip'' False"
proof -
  have "\<forall>l \<in> set [''NSR_PLUGIN_geoip=0'', ''# note'']. line_ok l" "config_key_ok ''NSR_PLUGIN_geoip''"
    by (simp_all add: line_ok_def config_key_ok_def)
  from config_set_get [OF _ this(1) _ this(2), of "Some (config_text [''NSR_PLUGIN_geoip=0'', ''# note''])" True False]
  show ?thesis by auto
qed

text \<open>
  In a file whose last line lacks its newline, a new flag is glued onto that line and is not
  found again.
\<close>

lemma config_set_unterminated:
  "config_set_bool True (Some ''A=0'') ''B'' True = Some (''A=0B=1'' @ [CHR 0x0A])"
  "config_get_bool_default (Some (''A=0B=1'' @ [CHR 0x0A])) ''B'' False = False"
  by code_simp+

end
