(* ===== verification/Plugin.thy ===== *)
theory Plugin
  imports Plugin_Docs Plugin_Config
begin

text \<open>
  The plugin registry, \<open>src/plugin/plugin.c\<close>: loading, enabling and stopping plugins, the
  telemetry broadcast, rendering, hop annotations, and the dispatch of keys.

  The registry's entries are the first \<open>count\<close> of the array.  What the system provides is an
  argument: the directory listing with what spawning each file would bring, the content of the
  configuration file, and, inside each entry, the kernel's side of its channel.  Drawing frames
  and running the editor are left out; the files the editor is opened on are an output.
\<close>

section \<open>State\<close>

definition NSR_MAX_PLUGINS :: nat where
  "NSR_MAX_PLUGINS = 32"

record nsr_plugin_registry =
  reg_entries :: "nsr_plugin_entry list"
  reg_config_path :: string
  reg_plugin_dir :: string

definition os_none :: os where
  "os_none = \<lparr>os_clock = [], os_write = [], os_poll = [], os_read = [], os_wait = [], os_sent = [], os_got = []\<rparr>"

definition rpc_zero :: nsr_json_rpc where
  "rpc_zero = \<lparr>rpc_pid = 0, rpc_in = 0, rpc_out = 0, rpc_next_id = 0, rpc_overflowed = False, rpc_pending_id = 0, rpc_dead = False,
     rpc_rx_buf = [], rpc_os = os_none\<rparr>"

definition entry_zero :: nsr_plugin_entry where
  "entry_zero = \<lparr>pe_name = [], pe_path = [], pe_description = [], pe_enabled = False, pe_initialized = False, pe_dead = False,
     pe_rpc = rpc_zero, pe_last_render_resp = [], pe_last_render_hops_resp = [], pe_render_pending = False,
     pe_render_hops_pending = False, pe_on_key_pending = False, pe_is_modal = False, pe_pending_render_id = 0,
     pe_pending_render_hops_id = 0, pe_pending_on_key_id = 0, pe_last_on_key_ms = 0, pe_reserved_keys = [],
     pe_key_queue = replicate 8 (0, False), pe_key_queue_head = 0, pe_key_queue_count = 0, pe_last_key_ch = 0,
     pe_last_key_ms = 0, pe_pending_open_editor = False, pe_pending_open_editor_file = []\<rparr>"

definition plugin_active :: "nsr_plugin_entry \<Rightarrow> bool" where
  "plugin_active e \<longleftrightarrow> pe_enabled e \<and> pe_initialized e \<and> \<not> pe_dead e"

section \<open>Loading and stopping\<close>

definition nsr_plugins_init :: "string \<Rightarrow> nsr_plugin_registry" where
  "nsr_plugins_init config_path =
     \<lparr>reg_entries = [], reg_config_path = c_strncpy 255 config_path, reg_plugin_dir = []\<rparr>"

definition plugin_stop :: "nsr_plugin_entry \<Rightarrow> nsr_plugin_entry" where
  "plugin_stop e =
     (let e = (if rpc_pid (pe_rpc e) > 0
               then e\<lparr>pe_rpc := nsr_json_rpc_close (snd (nsr_json_rpc_notify (pe_rpc e) ''cleanup'' None))\<rparr> else e);
          e = e\<lparr>pe_last_render_resp := [], pe_last_render_hops_resp := [], pe_reserved_keys := [],
                pe_initialized := False, pe_dead := False, pe_render_pending := False, pe_render_hops_pending := False,
                pe_on_key_pending := False, pe_is_modal := False, pe_pending_render_id := -1,
                pe_pending_render_hops_id := -1, pe_pending_on_key_id := -1, pe_last_on_key_ms := 0\<rparr>;
          e = plugin_key_queue_reset e
      in e\<lparr>pe_pending_open_editor := False, pe_pending_open_editor_file := []\<rparr>)"

text \<open>The entries are stopped and the registry is cleared; the stopped entries are returned too.\<close>

definition nsr_plugins_cleanup :: "nsr_plugin_registry \<Rightarrow> nsr_plugin_entry list \<times> nsr_plugin_registry" where
  "nsr_plugins_cleanup reg =
     (map plugin_stop (reg_entries reg), \<lparr>reg_entries = [], reg_config_path = [], reg_plugin_dir = []\<rparr>)"

definition init_doc :: "string \<Rightarrow> string \<Rightarrow> json" where
  "init_doc config_path plugin_dir = JObj [(''config_path'', JStr config_path), (''plugin_dir'', JStr plugin_dir)]"

text \<open>What a successful \<open>init\<close> answer sets: the description and the reserved keys.\<close>

definition accept_init :: "string \<Rightarrow> nsr_plugin_entry \<Rightarrow> nsr_plugin_entry option" where
  "accept_init resp e =
     (case get_sub (c_text resp) ''result'' of
        None \<Rightarrow> None
      | Some result \<Rightarrow>
          if get_text result ''status'' \<noteq> Some [CHR 0x22, CHR ''o'', CHR ''k'', CHR 0x22] then None
          else let e = (case get_text result ''description'' of
                          None \<Rightarrow> e
                        | Some d \<Rightarrow> (case nsr_json_parse_str d 256 of None \<Rightarrow> e | Some s \<Rightarrow> e\<lparr>pe_description := s\<rparr>));
                   e = (case get_text result ''reserved_keys'' of None \<Rightarrow> e | Some rks \<Rightarrow> parse_reserved_keys e rks)
               in Some (e\<lparr>pe_initialized := True\<rparr>))"

definition plugin_spawn :: "spawn_res \<Rightarrow> nsr_plugin_entry \<Rightarrow> string \<Rightarrow> string \<Rightarrow> bool \<times> nsr_plugin_entry" where
  "plugin_spawn sp e config_path plugin_dir =
     (case nsr_json_rpc_spawn sp (rpc_os (pe_rpc e)) of
        (False, r) \<Rightarrow> (False, e\<lparr>pe_rpc := r\<rparr>)
      | (True, r) \<Rightarrow>
          (case nsr_json_rpc_call r ''init'' (build_doc_buf (init_doc config_path plugin_dir)) 2000 of
             (resp, r) \<Rightarrow>
               let e = e\<lparr>pe_rpc := r\<rparr>
               in case (case resp of None \<Rightarrow> None | Some s \<Rightarrow> accept_init s e) of
                    Some e \<Rightarrow> (True, e)
                  | None \<Rightarrow> (False, e\<lparr>pe_rpc := nsr_json_rpc_close r, pe_dead := True\<rparr>)))"

definition config_key :: "string \<Rightarrow> string" where
  "config_key name = take 127 (''NSR_PLUGIN_'' @ name)"

text \<open>A directory entry: its name, whether it is an executable file, and what spawning it brings.\<close>

type_synonym dir_entry = "string \<times> bool \<times> spawn_res"

definition new_entry :: "string option \<Rightarrow> string \<Rightarrow> string \<Rightarrow> dir_entry \<Rightarrow> nsr_plugin_entry" where
  "new_entry file config_path dir ent =
     (case ent of (name, _, sp) \<Rightarrow>
        let e = entry_zero\<lparr>pe_last_key_ch := -1, pe_name := c_strncpy 63 name,
                           pe_path := c_strncpy 511 (take 767 (dir @ ''/'' @ name))\<rparr>;
            e = e\<lparr>pe_enabled := config_get_bool_default file (config_key (pe_name e)) False\<rparr>
        in if pe_enabled e then snd (plugin_spawn sp e config_path (c_strncpy 511 dir)) else e)"

fun load_entries :: "string option \<Rightarrow> string \<Rightarrow> string \<Rightarrow> dir_entry list \<Rightarrow> nsr_plugin_entry list \<Rightarrow> nat \<times> nsr_plugin_entry list" where
  "load_entries file config_path dir [] es = (0, es)"
| "load_entries file config_path dir ((name, exec, sp) # ents) es =
     (if name \<noteq> [] \<and> hd name = CHR ''.'' then load_entries file config_path dir ents es
      else if \<not> exec then load_entries file config_path dir ents es
      else if name \<in> pe_name ` set es then load_entries file config_path dir ents es
      else if length es \<ge> NSR_MAX_PLUGINS then (0, es)
      else case load_entries file config_path dir ents (es @ [new_entry file config_path dir (name, exec, sp)]) of
        (loaded, es) \<Rightarrow> (loaded + 1, es))"

text \<open>\<open>ents\<close> is \<open>None\<close> when the directory cannot be opened.\<close>

definition nsr_plugins_load_dir ::
    "string option \<Rightarrow> dir_entry list option \<Rightarrow> string \<Rightarrow> nsr_plugin_registry \<Rightarrow> int \<times> nsr_plugin_registry" where
  "nsr_plugins_load_dir file ents dir reg =
     (let reg = reg\<lparr>reg_plugin_dir := c_strncpy 511 dir\<rparr>
      in case ents of
           None \<Rightarrow> (-1, reg)
         | Some ents \<Rightarrow>
             (case load_entries file (reg_config_path reg) dir ents (reg_entries reg) of
                (loaded, es) \<Rightarrow> (int loaded, reg\<lparr>reg_entries := es\<rparr>)))"

definition plugin_check_alive :: "nsr_plugin_entry \<Rightarrow> nsr_plugin_entry" where
  "plugin_check_alive e =
     (if \<not> pe_initialized e \<or> rpc_pid (pe_rpc e) \<le> 0 then e
      else case sys_waitpid (pe_rpc e) of
        (gone, r) \<Rightarrow> if gone then e\<lparr>pe_rpc := r, pe_dead := True, pe_initialized := False\<rparr> else e\<lparr>pe_rpc := r\<rparr>)"

text \<open>The new configuration file and the registry.\<close>

definition nsr_plugins_set_enabled ::
    "spawn_res \<Rightarrow> bool \<Rightarrow> int \<Rightarrow> bool \<Rightarrow> string option \<times> nsr_plugin_registry \<Rightarrow> string option \<times> nsr_plugin_registry" where
  "nsr_plugins_set_enabled sp writable idx enabled = (\<lambda>(file, reg).
     if idx < 0 \<or> idx \<ge> int (length (reg_entries reg)) then (file, reg)
     else let e = reg_entries reg ! nat idx
          in if pe_enabled e = enabled then (file, reg)
             else let e = e\<lparr>pe_enabled := enabled\<rparr>;
                      file = config_set_bool writable file (config_key (pe_name e)) enabled;
                      e = (if enabled then snd (plugin_spawn sp e (reg_config_path reg) (reg_plugin_dir reg)) else plugin_stop e)
                  in (file, reg\<lparr>reg_entries := (reg_entries reg)[nat idx := e]\<rparr>))"

definition nsr_plugins_name :: "nsr_plugin_registry \<Rightarrow> int \<Rightarrow> string option" where
  "nsr_plugins_name reg idx =
     (if idx < 0 \<or> idx \<ge> int (length (reg_entries reg)) then None else Some (pe_name (reg_entries reg ! nat idx)))"

definition nsr_plugins_description :: "nsr_plugin_registry \<Rightarrow> int \<Rightarrow> string option" where
  "nsr_plugins_description reg idx =
     (if idx < 0 \<or> idx \<ge> int (length (reg_entries reg)) then None
      else let e = reg_entries reg ! nat idx in Some (if pe_description e \<noteq> [] then pe_description e else pe_name e))"

definition nsr_plugins_enabled :: "nsr_plugin_registry \<Rightarrow> int \<Rightarrow> bool" where
  "nsr_plugins_enabled reg idx =
     (if idx < 0 \<or> idx \<ge> int (length (reg_entries reg)) then False else pe_enabled (reg_entries reg ! nat idx))"

section \<open>Telemetry and rendering\<close>

definition notify_entry :: "json \<Rightarrow> nsr_plugin_entry \<Rightarrow> nsr_plugin_entry" where
  "notify_entry doc e =
     (let e = plugin_check_alive e
      in if plugin_active e then e\<lparr>pe_rpc := snd (nsr_json_rpc_notify (pe_rpc e) ''update_telemetry'' (build_doc_buf doc))\<rparr> else e)"

definition nsr_plugins_update_telemetry ::
    "nsr_telemetry_state \<Rightarrow> nsr_topology_state option \<Rightarrow> nsr_plugin_registry \<Rightarrow> nsr_plugin_registry" where
  "nsr_plugins_update_telemetry tel topo reg =
     reg\<lparr>reg_entries := map (notify_entry (telemetry_doc tel topo)) (reg_entries reg)\<rparr>"

text \<open>The size and position of a plugin's panel: \<open>(py, px, ph, pw)\<close>.\<close>

definition panel :: "nsr_plugin_entry \<Rightarrow> int \<Rightarrow> int \<Rightarrow> int \<times> int \<times> int \<times> int \<Rightarrow> int \<Rightarrow> int \<Rightarrow> int \<times> int \<times> int \<times> int" where
  "panel e m_w m_h yxhw screen_h screen_w =
     (if pe_is_modal e then
        let ph = to_int32 m_h; pw = to_int32 m_w
        in (max 0 ((screen_h - ph) sdiv 2), max 0 ((screen_w - pw) sdiv 2), ph, pw)
      else if pe_name e = ''sniffer'' then (max 0 (screen_h - 18 - 2), max 0 (screen_w - 60 - 2), 18, 60)
      else yxhw)"

text \<open>A modal panel and that of the sniffer are cleared and framed.\<close>

definition panel_frame :: "nsr_plugin_entry \<Rightarrow> int \<Rightarrow> int \<Rightarrow> int \<Rightarrow> int \<Rightarrow> drawn list" where
  "panel_frame e py px ph pw =
     (if pe_is_modal e then [Drawn_frame py px ph pw 3] else if pe_name e = ''sniffer'' then [Drawn_frame py px ph pw 1] else [])"

text \<open>\<open>nsr_json_rpc_send_request\<close> with \<open>id_out\<close> pointing to a member of the entry.\<close>

definition render_entry ::
    "nsr_ui_mode \<Rightarrow> u32 \<Rightarrow> nsr_topology_state option \<Rightarrow> int \<times> int \<times> int \<times> int \<Rightarrow> int \<Rightarrow> int \<Rightarrow>
     nsr_plugin_entry \<Rightarrow> drawn list \<times> nsr_plugin_entry" where
  "render_entry mode focused topo yxhw screen_h screen_w e =
     (let e = plugin_check_alive e
      in if \<not> plugin_active e then ([], e)
         else
           let resp = c_text (pe_last_render_resp e);
               res = (if pe_last_render_resp e \<noteq> [] then get_sub resp ''result'' else None);
               e = set_modal (case res of None \<Rightarrow> None | Some r \<Rightarrow> get_bool r ''is_modal'') (e\<lparr>pe_is_modal := False\<rparr>);
               m_w = (case res of None \<Rightarrow> 60 | Some r \<Rightarrow> get_int r ''modal_width'' 60);
               m_h = (case res of None \<Rightarrow> 13 | Some r \<Rightarrow> get_int r ''modal_height'' 13)
           in case panel e m_w m_h yxhw screen_h screen_w of
                (py, px, ph, pw) \<Rightarrow>
                  let drawn = panel_frame e py px ph pw @ (if pe_last_render_resp e \<noteq> [] then draw_render_response resp py px else []);
                      e = snd (plugin_drain_response e 5)
                  in if pe_render_pending e then (drawn, e)
                     else case nsr_json_rpc_send_request (pe_rpc e) ''render'' (build_doc_buf (render_doc mode pw ph focused topo)) of
                       (ok, id_out, r) \<Rightarrow>
                         let e = e\<lparr>pe_rpc := r, pe_pending_render_id := (case id_out of Some i \<Rightarrow> i | None \<Rightarrow> pe_pending_render_id e)\<rparr>
                         in (drawn, if ok then e\<lparr>pe_render_pending := True\<rparr> else if rpc_dead r then e\<lparr>pe_dead := True\<rparr> else e))"

definition nsr_plugins_render ::
    "nsr_ui_mode \<Rightarrow> u32 \<Rightarrow> nsr_topology_state option \<Rightarrow> int \<times> int \<times> int \<times> int \<Rightarrow> int \<Rightarrow> int \<Rightarrow>
     nsr_plugin_registry \<Rightarrow> drawn list \<times> nsr_plugin_registry" where
  "nsr_plugins_render mode focused topo yxhw screen_h screen_w reg =
     (let rs = map (render_entry mode focused topo yxhw screen_h screen_w) (reg_entries reg)
      in (concat (map fst rs), reg\<lparr>reg_entries := map snd rs\<rparr>))"

definition hops_entry :: "json \<Rightarrow> nat \<Rightarrow> nsr_hop_annotation list \<Rightarrow> nsr_plugin_entry \<Rightarrow> nsr_hop_annotation list \<times> nsr_plugin_entry" where
  "hops_entry doc max_out out e =
     (let e = plugin_check_alive e
      in if \<not> plugin_active e then (out, e)
         else
           let out = (if pe_last_render_hops_resp e \<noteq> []
                      then parse_render_hops_response (c_text (pe_last_render_hops_resp e)) max_out out else out);
               e = snd (plugin_drain_response e 5)
           in if pe_render_hops_pending e then (out, e)
              else case nsr_json_rpc_send_request (pe_rpc e) ''render_hops'' (build_doc_buf doc) of
                (ok, id_out, r) \<Rightarrow>
                  let e = e\<lparr>pe_rpc := r, pe_pending_render_hops_id := (case id_out of Some i \<Rightarrow> i | None \<Rightarrow> pe_pending_render_hops_id e)\<rparr>
                  in (out, if ok then e\<lparr>pe_render_hops_pending := True\<rparr> else if rpc_dead r then e\<lparr>pe_dead := True\<rparr> else e))"

text \<open>The loop over the plugins stops when the annotation array is full.\<close>

fun hops_entries :: "json \<Rightarrow> nat \<Rightarrow> nsr_hop_annotation list \<Rightarrow> nsr_plugin_entry list \<Rightarrow> nsr_hop_annotation list \<times> nsr_plugin_entry list" where
  "hops_entries doc max_out out [] = (out, [])"
| "hops_entries doc max_out out (e # es) =
     (if length out < max_out then
        case hops_entry doc max_out out e of
          (out, e) \<Rightarrow> (case hops_entries doc max_out out es of (out, es) \<Rightarrow> (out, e # es))
      else (out, e # es))"

definition nsr_plugins_render_hops ::
    "nsr_hop_info list \<Rightarrow> nat \<Rightarrow> int \<Rightarrow> nsr_plugin_registry \<Rightarrow> nsr_hop_annotation list \<times> nsr_plugin_registry" where
  "nsr_plugins_render_hops hops hop_count max_out reg =
     (if max_out \<le> 0 then ([], reg)
      else case hops_entries (render_hops_doc hops hop_count) (nat max_out) [] (reg_entries reg) of
        (out, es) \<Rightarrow> (out, reg\<lparr>reg_entries := es\<rparr>))"

section \<open>Keys\<close>

definition NSR_PLUGIN_MODAL_KEY_INTERVAL_MS :: int where
  "NSR_PLUGIN_MODAL_KEY_INTERVAL_MS = 120"

definition NSR_PLUGIN_KEY_COALESCE_MS :: int where
  "NSR_PLUGIN_KEY_COALESCE_MS = 40"

text \<open>The event goes to the queue, in place of the oldest one when it is full.\<close>

definition enqueue_drop_oldest :: "nsr_plugin_entry \<Rightarrow> nsr_key_event \<Rightarrow> nsr_plugin_entry" where
  "enqueue_drop_oldest e ev =
     (case plugin_key_queue_enqueue e ev of
        (True, e) \<Rightarrow> e
      | (False, e) \<Rightarrow> snd (plugin_key_queue_enqueue (snd (plugin_key_queue_dequeue e)) ev))"

definition coalesce_key :: "nsr_plugin_entry \<Rightarrow> int \<Rightarrow> bool \<Rightarrow> nsr_plugin_entry" where
  "coalesce_key e ch modal_input =
     (case now_ms e of
        (t, e) \<Rightarrow>
          if ch = pe_last_key_ch e \<and> t > 0 \<and> pe_last_key_ms e > 0 \<and> t - pe_last_key_ms e < NSR_PLUGIN_KEY_COALESCE_MS then e
          else plugin_send_next_key (enqueue_drop_oldest (e\<lparr>pe_last_key_ch := ch, pe_last_key_ms := t\<rparr>) (ch, modal_input)))"

definition plugin_try_on_key :: "nsr_plugin_entry \<Rightarrow> int \<Rightarrow> bool \<Rightarrow> bool \<Rightarrow> bool \<times> nsr_plugin_entry" where
  "plugin_try_on_key e ch modal_input reserved =
     (let e = drain_all e
      in if modal_input then
           (case now_ms e of
              (t, e) \<Rightarrow>
                if t > 0 \<and> pe_last_on_key_ms e > 0 \<and> t - pe_last_on_key_ms e < NSR_PLUGIN_MODAL_KEY_INTERVAL_MS then (True, e)
                else (modal_input \<or> reserved, coalesce_key (e\<lparr>pe_last_on_key_ms := t\<rparr>) ch modal_input))
         else (modal_input \<or> reserved, coalesce_key e ch modal_input))"

text \<open>First every active plugin is drained; a requested editor is opened and counts as handling the key.\<close>

definition drain_entry :: "nsr_plugin_entry \<Rightarrow> string option \<times> nsr_plugin_entry" where
  "drain_entry e =
     (let e = plugin_check_alive e
      in if \<not> plugin_active e then (None, e)
         else let e = drain_all e
              in if pe_pending_open_editor e
                 then (Some (pe_pending_open_editor_file e), e\<lparr>pe_pending_open_editor := False, pe_pending_open_editor_file := []\<rparr>)
                 else (None, e))"

text \<open>The command line that opens the editor: \<open>editor\<close> is the variable \<open>EDITOR\<close>; without a file nothing is run.\<close>

definition plugin_run_open_editor :: "string option \<Rightarrow> string \<Rightarrow> string option" where
  "plugin_run_open_editor editor file =
     (if file = [] then None
      else Some (take 511 ((case editor of Some ed \<Rightarrow> (if ed = [] then ''nano'' else ed) | None \<Rightarrow> ''nano'') @ '' '' @ file)))"

text \<open>
  One pass over the plugins, while the key is not handled: the active plugins that \<open>sel\<close> picks
  get it.  The second flag says that some plugin was picked.
\<close>

fun key_pass ::
    "(nsr_plugin_entry \<Rightarrow> bool) \<Rightarrow> (nsr_plugin_entry \<Rightarrow> bool \<times> nsr_plugin_entry) \<Rightarrow> bool \<Rightarrow> nsr_plugin_entry list \<Rightarrow>
     bool \<times> bool \<times> nsr_plugin_entry list" where
  "key_pass sel give handled [] = (handled, False, [])"
| "key_pass sel give handled (e # es) =
     (if handled then (True, False, e # es)
      else let e = plugin_check_alive e
           in if plugin_active e \<and> sel e then
                case give e of
                  (h, e) \<Rightarrow> (case key_pass sel give h es of (h, _, es) \<Rightarrow> (h, True, e # es))
              else case key_pass sel give False es of (h, t, es) \<Rightarrow> (h, t, e # es))"

text \<open>The editor's files, whether the key was handled, and the registry.\<close>

definition nsr_plugins_on_key :: "nsr_plugin_registry \<Rightarrow> int \<Rightarrow> string list \<times> bool \<times> nsr_plugin_registry" where
  "nsr_plugins_on_key reg ch =
     (if ch < 0 then ([], False, reg)
      else
        let ds = map drain_entry (reg_entries reg);
            files = List.map_filter fst ds;
            handled = list_ex (\<lambda>d. fst d \<noteq> None) ds
        in case key_pass pe_is_modal (\<lambda>e. plugin_try_on_key e ch True False) handled (map snd ds) of
             (handled, _, es) \<Rightarrow>
               (case key_pass (\<lambda>e. plugin_reserves_key e ch) (\<lambda>e. plugin_try_on_key e ch False True) handled es of
                  (handled, targeted, es) \<Rightarrow>
                    (case (if targeted then (handled, False, es)
                           else key_pass (\<lambda>_. True) (\<lambda>e. plugin_try_on_key e ch False False) handled es) of
                       (handled, _, es) \<Rightarrow> (files, handled, reg\<lparr>reg_entries := es\<rparr>))))"

text \<open>The loop stops at the first modal plugin, so that later ones are not checked.\<close>

fun modal_loop :: "nsr_plugin_entry list \<Rightarrow> bool \<times> nsr_plugin_entry list" where
  "modal_loop [] = (False, [])"
| "modal_loop (e # es) =
     (let e = plugin_check_alive e
      in if plugin_active e \<and> pe_is_modal e then (True, e # es)
         else case modal_loop es of (b, es) \<Rightarrow> (b, e # es))"

definition nsr_plugins_modal_active :: "nsr_plugin_registry \<Rightarrow> bool \<times> nsr_plugin_registry" where
  "nsr_plugins_modal_active reg = (case modal_loop (reg_entries reg) of (b, es) \<Rightarrow> (b, reg\<lparr>reg_entries := es\<rparr>))"

section \<open>Invariant\<close>

text \<open>
  As long as the counter of a channel has not overflowed, the requests that are waiting for an answer
  have different identifiers, all below the next one, so that every answer belongs to one request; a
  plugin that is not enabled waits for nothing.
\<close>

definition ids_ok :: "nsr_plugin_entry \<Rightarrow> bool" where
  "ids_ok e \<longleftrightarrow> \<not> rpc_overflowed (pe_rpc e) \<longrightarrow>
     (pe_render_pending e \<longrightarrow> pe_pending_render_id e < rpc_next_id (pe_rpc e)) \<and>
     (pe_render_hops_pending e \<longrightarrow> pe_pending_render_hops_id e < rpc_next_id (pe_rpc e)) \<and>
     (pe_on_key_pending e \<longrightarrow> pe_pending_on_key_id e < rpc_next_id (pe_rpc e)) \<and>
     (pe_render_pending e \<and> pe_render_hops_pending e \<longrightarrow> pe_pending_render_id e \<noteq> pe_pending_render_hops_id e) \<and>
     (pe_render_pending e \<and> pe_on_key_pending e \<longrightarrow> pe_pending_render_id e \<noteq> pe_pending_on_key_id e) \<and>
     (pe_render_hops_pending e \<and> pe_on_key_pending e \<longrightarrow> pe_pending_render_hops_id e \<noteq> pe_pending_on_key_id e)"

definition idle :: "nsr_plugin_entry \<Rightarrow> bool" where
  "idle e \<longleftrightarrow> \<not> pe_render_pending e \<and> \<not> pe_render_hops_pending e \<and> \<not> pe_on_key_pending e"

definition keys_ok :: "char list \<Rightarrow> bool" where
  "keys_ok ks \<longleftrightarrow> sorted_wrt (<) ks \<and> (\<forall>c \<in> set ks. is_key_char c) \<and> length ks \<le> NSR_KEY_USER_LEN"

definition entry_inv :: "nsr_plugin_entry \<Rightarrow> bool" where
  "entry_inv e \<longleftrightarrow> key_queue_ok e \<and> ids_ok e \<and> keys_ok (pe_reserved_keys e) \<and> (\<not> pe_enabled e \<longrightarrow> idle e) \<and>
     length (pe_name e) \<le> 63 \<and> length (pe_pending_open_editor_file e) \<le> 255"

definition reg_inv :: "nsr_plugin_registry \<Rightarrow> bool" where
  "reg_inv reg \<longleftrightarrow> length (reg_entries reg) \<le> NSR_MAX_PLUGINS \<and> (\<forall>e \<in> set (reg_entries reg). entry_inv e)"

named_theorems plugin_inv

lemma idle_ids: "idle e \<Longrightarrow> ids_ok e"
  by (simp add: idle_def ids_ok_def)

text \<open>Updates of members the invariant does not mention.\<close>

lemma entry_inv_simps [simp]:
  "entry_inv (e\<lparr>pe_dead := d\<rparr>) = entry_inv e"
  "entry_inv (e\<lparr>pe_initialized := d\<rparr>) = entry_inv e"
  "entry_inv (e\<lparr>pe_is_modal := d\<rparr>) = entry_inv e"
  "entry_inv (e\<lparr>pe_description := s\<rparr>) = entry_inv e"
  "entry_inv (e\<lparr>pe_last_render_resp := s\<rparr>) = entry_inv e"
  "entry_inv (e\<lparr>pe_last_render_hops_resp := s\<rparr>) = entry_inv e"
  "entry_inv (e\<lparr>pe_last_key_ch := i\<rparr>) = entry_inv e"
  "entry_inv (e\<lparr>pe_last_key_ms := i\<rparr>) = entry_inv e"
  "entry_inv (e\<lparr>pe_last_on_key_ms := i\<rparr>) = entry_inv e"
  "entry_inv (e\<lparr>pe_pending_open_editor := d\<rparr>) = entry_inv e"
  by (simp_all add: entry_inv_def key_queue_ok_def ids_ok_def idle_def)

lemma entry_inv_more:
  "entry_inv e \<Longrightarrow> entry_inv (e\<lparr>pe_render_pending := False\<rparr>)"
  "entry_inv e \<Longrightarrow> entry_inv (e\<lparr>pe_render_hops_pending := False\<rparr>)"
  "entry_inv e \<Longrightarrow> entry_inv (e\<lparr>pe_on_key_pending := False\<rparr>)"
  "entry_inv e \<Longrightarrow> length s \<le> 255 \<Longrightarrow> entry_inv (e\<lparr>pe_pending_open_editor_file := s\<rparr>)"
  "entry_inv e \<Longrightarrow> id_le (pe_rpc e) r \<Longrightarrow> entry_inv (e\<lparr>pe_rpc := r\<rparr>)"
  by (auto simp: entry_inv_def key_queue_ok_def ids_ok_def idle_def id_le_def)

section \<open>Every operation keeps it\<close>

definition good :: "nsr_plugin_entry \<Rightarrow> bool" where
  "good e \<longleftrightarrow> entry_inv e \<and> pe_enabled e"

lemma goodI [intro]: "entry_inv e \<Longrightarrow> pe_enabled e \<Longrightarrow> good e" by (simp add: good_def)

lemma goodD: "good e \<Longrightarrow> entry_inv e" "good e \<Longrightarrow> pe_enabled e" by (simp_all add: good_def)

lemma good_simps [simp]:
  "good (e\<lparr>pe_dead := d\<rparr>) = good e"
  "good (e\<lparr>pe_is_modal := d\<rparr>) = good e"
  "good (e\<lparr>pe_last_render_resp := s\<rparr>) = good e"
  "good (e\<lparr>pe_last_render_hops_resp := s\<rparr>) = good e"
  "good (e\<lparr>pe_last_key_ch := i\<rparr>) = good e"
  "good (e\<lparr>pe_last_key_ms := i\<rparr>) = good e"
  "good (e\<lparr>pe_last_on_key_ms := i\<rparr>) = good e"
  "good (e\<lparr>pe_pending_open_editor := d\<rparr>) = good e"
  by (simp_all add: good_def)

lemma good_more:
  "good e \<Longrightarrow> good (e\<lparr>pe_render_pending := False\<rparr>)"
  "good e \<Longrightarrow> good (e\<lparr>pe_render_hops_pending := False\<rparr>)"
  "good e \<Longrightarrow> good (e\<lparr>pe_on_key_pending := False\<rparr>)"
  "good e \<Longrightarrow> length s \<le> 255 \<Longrightarrow> good (e\<lparr>pe_pending_open_editor_file := s\<rparr>)"
  "good e \<Longrightarrow> id_le (pe_rpc e) r \<Longrightarrow> good (e\<lparr>pe_rpc := r\<rparr>)"
  by (simp_all add: good_def entry_inv_more)

lemma good_enqueue: "good e \<Longrightarrow> good (snd (plugin_key_queue_enqueue e ev))"
  by (simp add: plugin_key_queue_enqueue_def good_def entry_inv_def ids_ok_def idle_def key_queue_ok_def Let_def)

lemma good_queueI:
  "good e \<Longrightarrow> key_queue_ok e' \<Longrightarrow> e' = e\<lparr>pe_key_queue_head := h, pe_key_queue_count := c\<rparr> \<Longrightarrow> good e'"
  by (simp add: good_def entry_inv_def ids_ok_def idle_def)

lemma good_dequeue: "good e \<Longrightarrow> good (snd (plugin_key_queue_dequeue e))"
proof -
  assume g: "good e"
  then have ok: "key_queue_ok e" by (simp add: good_def entry_inv_def)
  from ok show ?thesis
  proof (cases rule: keyq.pop_cases)
    case (2 ev e')
    then have "e' = e\<lparr>pe_key_queue_head := (pe_key_queue_head e + 1) mod NSR_PLUGIN_KEY_QUEUE, pe_key_queue_count := pe_key_queue_count e - 1\<rparr>"
      by (simp add: plugin_key_queue_dequeue_def split: if_splits)
    with good_queueI [OF g 2(3)] 2(1) show ?thesis by simp
  qed (use g in simp)
qed

lemma dequeue_pending [simp]: "pe_on_key_pending (snd (plugin_key_queue_dequeue e)) = pe_on_key_pending e"
  by (simp add: plugin_key_queue_dequeue_def)

text \<open>A request that has just been sent has a new identifier.\<close>

lemma ids_ok_sent:
  assumes "ids_ok e" "id_less (pe_rpc e) r"
  shows "ids_ok (e\<lparr>pe_rpc := r, pe_on_key_pending := True, pe_pending_on_key_id := rpc_next_id (pe_rpc e)\<rparr>)"
    "ids_ok (e\<lparr>pe_rpc := r, pe_pending_render_id := rpc_next_id (pe_rpc e), pe_render_pending := True\<rparr>)"
    "ids_ok (e\<lparr>pe_rpc := r, pe_pending_render_hops_id := rpc_next_id (pe_rpc e), pe_render_hops_pending := True\<rparr>)"
  using assms by (auto simp: ids_ok_def id_less_def)

lemma good_sent:
  assumes "good e" "id_less (pe_rpc e) r"
  shows "good (e\<lparr>pe_rpc := r, pe_on_key_pending := True, pe_pending_on_key_id := rpc_next_id (pe_rpc e)\<rparr>)"
    "good (e\<lparr>pe_rpc := r, pe_pending_render_id := rpc_next_id (pe_rpc e), pe_render_pending := True\<rparr>)"
    "good (e\<lparr>pe_rpc := r, pe_pending_render_hops_id := rpc_next_id (pe_rpc e), pe_render_hops_pending := True\<rparr>)"
  using assms ids_ok_sent [of e r] by (simp_all add: good_def entry_inv_def key_queue_ok_def)

lemma good_send_next_key: "good e \<Longrightarrow> good (plugin_send_next_key e)"
proof -
  assume g: "good e"
  show ?thesis
  proof (cases "pe_on_key_pending e \<or> rpc_dead (pe_rpc e) \<or> rpc_in (pe_rpc e) < 0")
    case True
    with g show ?thesis by (simp add: plugin_send_next_key_def)
  next
    case False
    obtain k e1 where k: "plugin_key_queue_dequeue e = (k, e1)" by force
    then have g1: "good e1" using good_dequeue [OF g] by simp
    have np: "\<not> pe_on_key_pending e1" using dequeue_pending [of e] k False by simp
    show ?thesis
    proof (cases k)
      case None
      with k g1 False show ?thesis by (simp add: plugin_send_next_key_def)
    next
      case (Some ev)
      obtain ch m where ev: "ev = (ch, m)" by force
      obtain ok i r where s: "nsr_json_rpc_send_request (pe_rpc e1) ''on_key'' (build_key_params ch m) = (ok, i, r)" by (metis prod_cases3)
      note f = send_request_frame [OF s]
      have g2: "good (e1\<lparr>pe_rpc := r\<rparr>)" using g1 f by (intro good_more) auto
      show ?thesis
      proof (cases ok)
        case True
        then have "good (e1\<lparr>pe_rpc := r, pe_on_key_pending := True, pe_pending_on_key_id := rpc_next_id (pe_rpc e1)\<rparr>)"
          using good_sent(1) [OF g1] f by simp
        with True f False k Some ev s show ?thesis by (simp add: plugin_send_next_key_def)
      next
        case nok: False
        with g2 False k Some ev s show ?thesis by (simp add: plugin_send_next_key_def Let_def)
      qed
    qed
  qed
qed

lemma discard_loop_frame:
  "rpc_next_id (discard_loop n r) = rpc_next_id r \<and> rpc_overflowed (discard_loop n r) = rpc_overflowed r \<and> rpc_pid (discard_loop n r) = rpc_pid r"
proof (induction n arbitrary: r)
  case (Suc n)
  obtain p r1 where p: "sys_poll r = (p, r1)" by force
  obtain x r2 where x: "sys_read r1 = (x, r2)" by force
  from Suc.IH [of r1] Suc.IH [of r2] sys_pollD [OF p] sys_readD [OF x] p x show ?case
    by (cases p; cases x) auto
qed simp

lemma good_force_sync: "good e \<Longrightarrow> good (plugin_force_sync e)"
  using discard_loop_frame [of 64 "(pe_rpc e)\<lparr>rpc_rx_buf := []\<rparr>"]
  by (auto simp: plugin_force_sync_def plugin_key_queue_reset_def good_def entry_inv_def key_queue_ok_def ids_ok_def idle_def
      NSR_PLUGIN_KEY_QUEUE_def Let_def)

lemma good_set_modal [simp]: "good (set_modal m e) = good e"
  by (simp add: set_modal_def split: option.split)

lemma good_handle_force_sync: "good e \<Longrightarrow> plugin_handle_force_sync e msg = (b, e') \<Longrightarrow> good e'"
  using good_force_sync [of e] by (auto simp: plugin_handle_force_sync_def Let_def split: if_splits)

lemma good_on_key_result: "good e \<Longrightarrow> good (snd (plugin_handle_on_key_result e result))"
  using good_force_sync [of e]
  by (auto simp: plugin_handle_on_key_result_def plugin_result_requests_force_sync_def Let_def intro!: good_more)

lemma try_recv_any_next_id: "nsr_json_rpc_try_recv_any r t = (m, r') \<Longrightarrow> id_le r r'"
  using try_recv_any_received [of r t m r'] by (intro id_le_same) (simp_all add: received_def)

lemma good_drain_response: "good e \<Longrightarrow> good (snd (plugin_drain_response e t))"
proof -
  assume g: "good e"
  obtain m r where m: "nsr_json_rpc_try_recv_any (pe_rpc e) t = (m, r)" by force
  have g1: "good (e\<lparr>pe_rpc := r\<rparr>)" using g try_recv_any_next_id [OF m] by (intro good_more) auto
  show ?thesis
  proof (cases "\<exists>resp i. \<not> (rpc_dead (pe_rpc e) \<or> rpc_out (pe_rpc e) < 0) \<and> m = Some (resp, i)")
    case False
    then show ?thesis using g g1 m by (cases m) (auto simp: plugin_drain_response_def)
  next
    case True
    then obtain resp i where c: "\<not> (rpc_dead (pe_rpc e) \<or> rpc_out (pe_rpc e) < 0)" "m = Some (resp, i)" by blast
    obtain b e1 where f: "plugin_handle_force_sync (e\<lparr>pe_rpc := r\<rparr>) resp = (b, e1)" by force
    have g2: "good e1" by (rule good_handle_force_sync [OF g1 f])
    show ?thesis
      using g2 good_on_key_result [OF good_more(3) [OF g2]]
      unfolding plugin_drain_response_def m c(2) if_not_P [OF c(1)] prod.case option.case f
      by (cases b) (auto simp: Let_def intro!: good_send_next_key good_more split: option.split)
  qed
qed

lemma good_drain_all: "good e \<Longrightarrow> good (drain_all e)"
proof (induction e rule: drain_all.induct)
  case (1 e)
  obtain b e1 where d: "plugin_drain_response e 0 = (b, e1)" by force
  have "good e1" using good_drain_response [OF 1(2), of 0] d by simp
  with 1(1) d show ?case by (subst drain_all.simps) (cases b; simp)
qed

lemma good_now_ms: "good e \<Longrightarrow> now_ms e = (t, e') \<Longrightarrow> good e'"
  by (cases "sys_clock (pe_rpc e)") (auto simp: now_ms_def intro!: good_more id_le_same dest!: sys_clockD)

lemma good_enqueue_drop: "good e \<Longrightarrow> good (enqueue_drop_oldest e ev)"
  using good_enqueue [of e ev] good_enqueue [OF good_dequeue, of e ev]
  by (auto simp: enqueue_drop_oldest_def plugin_key_queue_enqueue_def split: if_splits)

lemma good_coalesce: "good e \<Longrightarrow> good (coalesce_key e ch m)"
proof -
  assume g: "good e"
  obtain t e1 where t: "now_ms e = (t, e1)" by force
  with good_now_ms [OF g t] show ?thesis
    by (auto simp: coalesce_key_def intro!: good_send_next_key good_enqueue_drop)
qed

lemma good_try_on_key: "good e \<Longrightarrow> good (snd (plugin_try_on_key e ch m res))"
proof -
  assume g: "good e"
  obtain t e1 where t: "now_ms (drain_all e) = (t, e1)" by force
  with good_now_ms [OF good_drain_all [OF g] t] good_coalesce [of e1] good_coalesce [OF good_drain_all [OF g]] show ?thesis
    by (auto simp: plugin_try_on_key_def Let_def intro!: good_coalesce)
qed

lemma entry_inv_check_alive: "entry_inv e \<Longrightarrow> entry_inv (plugin_check_alive e)"
  by (auto simp: plugin_check_alive_def sys_waitpid_def intro!: entry_inv_more id_le_same)

lemma good_active: "entry_inv e \<Longrightarrow> plugin_active e \<Longrightarrow> good e"
  by (auto simp: plugin_active_def)

lemma entry_inv_drain: "entry_inv e \<Longrightarrow> entry_inv (snd (drain_entry e))"
  using entry_inv_check_alive [of e] goodD(1) [OF good_drain_all [OF good_active], of "plugin_check_alive e"]
  by (auto simp: drain_entry_def Let_def intro!: entry_inv_more id_le_same)

definition entries_ok :: "nat \<Rightarrow> nsr_plugin_entry list \<Rightarrow> bool" where
  "entries_ok n es \<longleftrightarrow> length es = n \<and> (\<forall>e \<in> set es. entry_inv e)"

lemma entries_ok_Cons [simp]: "entries_ok n (e # es) \<longleftrightarrow> (\<exists>m. n = Suc m \<and> entry_inv e \<and> entries_ok m es)"
  by (auto simp: entries_ok_def)

lemma entries_ok_Nil [simp]: "entries_ok n [] \<longleftrightarrow> n = 0"
  by (auto simp: entries_ok_def)

lemma entries_ok_map: "(\<And>e. entry_inv e \<Longrightarrow> entry_inv (f e)) \<Longrightarrow> entries_ok n es \<Longrightarrow> entries_ok n (map f es)"
  by (auto simp: entries_ok_def)

lemma entries_ok_key_pass:
  assumes "\<And>e. good e \<Longrightarrow> good (snd (give e))" "entries_ok n es"
  shows "entries_ok n (snd (snd (key_pass sel give h es)))"
  using assms(2)
proof (induction es arbitrary: h n)
  case (Cons e es)
  let ?e = "plugin_check_alive e"
  have e: "entry_inv ?e" using Cons.prems by (auto simp: entry_inv_check_alive)
  then have g: "plugin_active ?e \<Longrightarrow> entry_inv (snd (give ?e))" using assms(1) good_active goodD(1) by blast
  obtain m where m: "n = Suc m" "entries_ok m es" using Cons.prems by auto
  show ?case
    using Cons.prems e g m Cons.IH [OF m(2), of "fst (give ?e)"] Cons.IH [OF m(2), of False]
    by (auto simp: Let_def split: prod.splits)
qed simp

lemma entries_ok_on_key:
  assumes "entries_ok n (reg_entries reg)"
  shows "entries_ok n (reg_entries (snd (snd (nsr_plugins_on_key reg ch))))"
proof -
  let ?ds = "map drain_entry (reg_entries reg)"
  let ?h = "list_ex (\<lambda>d. fst d \<noteq> None) ?ds"
  let ?p = "\<lambda>m r sel h es. key_pass sel (\<lambda>e. plugin_try_on_key e ch m r) h es"
  have ok: "entries_ok k es \<Longrightarrow> entries_ok k (snd (snd (?p m r sel h es)))" for k m r sel h es
    by (rule entries_ok_key_pass [OF good_try_on_key])
  have 0: "entries_ok n (map snd ?ds)" using entries_ok_map [OF entry_inv_drain assms] by (simp add: o_def)
  obtain h1 t1 es1 where 1: "?p True False pe_is_modal ?h (map snd ?ds) = (h1, t1, es1)" by (metis prod_cases3)
  obtain h2 t2 es2 where 2: "?p False True (\<lambda>e. plugin_reserves_key e ch) h1 es1 = (h2, t2, es2)" by (metis prod_cases3)
  obtain h3 t3 es3 where 3: "?p False False (\<lambda>_. True) h2 es2 = (h3, t3, es3)" by (metis prod_cases3)
  have "entries_ok n es1" "entries_ok n es2" "entries_ok n es3" using ok [OF 0] ok [of n es1] ok [of n es2] 1 2 3 by (metis snd_conv)+
  with assms 1 2 3 show ?thesis by (simp add: nsr_plugins_on_key_def Let_def)
qed

lemma good_render_send:
  assumes "good e" "nsr_json_rpc_send_request (pe_rpc e) meth p = (ok, i, r)"
  shows "good (e\<lparr>pe_rpc := r\<rparr>)"
    "ok \<Longrightarrow> good (e\<lparr>pe_rpc := r, pe_pending_render_id := the i, pe_render_pending := True\<rparr>)"
    "ok \<Longrightarrow> good (e\<lparr>pe_rpc := r, pe_pending_render_hops_id := the i, pe_render_hops_pending := True\<rparr>)"
    "\<not> pe_render_pending e \<Longrightarrow> good (e\<lparr>pe_rpc := r, pe_pending_render_id := x\<rparr>)"
    "\<not> pe_render_hops_pending e \<Longrightarrow> good (e\<lparr>pe_rpc := r, pe_pending_render_hops_id := x\<rparr>)"
  using send_request_frame [OF assms(2)] good_sent(2,3) [OF assms(1), of r] good_more(5) [OF assms(1), of r]
  by (auto simp: good_def entry_inv_def ids_ok_def key_queue_ok_def idle_def)

lemma entry_inv_render: "entry_inv e \<Longrightarrow> entry_inv (snd (render_entry mode focused topo yxhw sh sw e))"
proof -
  assume e: "entry_inv e"
  let ?e = "plugin_check_alive e"
  have inv: "entry_inv ?e" by (rule entry_inv_check_alive [OF e])
  show ?thesis
  proof (cases "plugin_active ?e")
    case False
    with inv show ?thesis by (simp add: render_entry_def Let_def)
  next
    case True
    let ?res = "if pe_last_render_resp ?e \<noteq> [] then get_sub (c_text (pe_last_render_resp ?e)) ''result'' else None"
    let ?m = "set_modal (case ?res of None \<Rightarrow> None | Some r \<Rightarrow> get_bool r ''is_modal'') (?e\<lparr>pe_is_modal := False\<rparr>)"
    obtain py px ph pw where pan: "panel ?m (case ?res of None \<Rightarrow> 60 | Some r \<Rightarrow> get_int r ''modal_width'' 60)
        (case ?res of None \<Rightarrow> 13 | Some r \<Rightarrow> get_int r ''modal_height'' 13) yxhw sh sw = (py, px, ph, pw)" by (metis prod_cases4)
    let ?d = "snd (plugin_drain_response ?m 5)"
    have g: "good ?d" using good_active [OF inv True] by (intro good_drain_response) simp
    obtain ok i r where s: "nsr_json_rpc_send_request (pe_rpc ?d) ''render'' (build_doc_buf (render_doc mode pw ph focused topo)) = (ok, i, r)"
      by (metis prod_cases3)
    note gs = good_render_send [OF g s]
    have i: "ok \<Longrightarrow> i = Some (the i)" using send_request_frame [OF s] by simp
    have "good (snd (render_entry mode focused topo yxhw sh sw e))"
      using g gs(2) gs(4) i
      unfolding render_entry_def Let_def if_not_P [OF not_not [THEN iffD2, OF True]] pan prod.case s
      by (auto simp: s split: option.splits)
    then show ?thesis by (rule goodD)
  qed
qed

lemma entry_inv_hops: "entry_inv e \<Longrightarrow> entry_inv (snd (hops_entry doc max_out out e))"
proof -
  assume e: "entry_inv e"
  let ?e = "plugin_check_alive e"
  have inv: "entry_inv ?e" by (rule entry_inv_check_alive [OF e])
  show ?thesis
  proof (cases "plugin_active ?e")
    case False
    with inv show ?thesis by (simp add: hops_entry_def Let_def)
  next
    case True
    let ?d = "snd (plugin_drain_response ?e 5)"
    have g: "good ?d" using good_active [OF inv True] by (intro good_drain_response) simp
    obtain ok i r where s: "nsr_json_rpc_send_request (pe_rpc ?d) ''render_hops'' (build_doc_buf doc) = (ok, i, r)" by (metis prod_cases3)
    note gs = good_render_send [OF g s]
    have i: "ok \<Longrightarrow> i = Some (the i)" using send_request_frame [OF s] by simp
    have "good (snd (hops_entry doc max_out out e))"
      using g gs(3) gs(5) i unfolding hops_entry_def Let_def if_not_P [OF not_not [THEN iffD2, OF True]]
      by (auto simp: s split: option.splits)
    then show ?thesis by (rule goodD)
  qed
qed

lemma entries_ok_hops: "entries_ok n es \<Longrightarrow> entries_ok n (snd (hops_entries doc max_out out es))"
proof (induction es arbitrary: n out)
  case (Cons e es)
  obtain o1 e1 where h: "hops_entry doc max_out out e = (o1, e1)" by force
  obtain m where m: "n = Suc m" "entries_ok m es" "entry_inv e" using Cons.prems by auto
  show ?case using Cons.prems Cons.IH [OF m(2), of o1] entry_inv_hops [OF m(3), of doc max_out out] h m(1)
    by (auto split: prod.splits)
qed simp

lemma entries_ok_modal: "entries_ok n es \<Longrightarrow> entries_ok n (snd (modal_loop es))"
  by (induction es arbitrary: n) (auto simp: Let_def entry_inv_check_alive split: prod.splits)

lemma notify_next_id: "id_le r (snd (nsr_json_rpc_notify r m p))"
proof -
  obtain ok r' where s: "rpc_send r (doc_cstr (build_notification m p)) = (ok, r')" by force
  with rpc_send_frame [OF s] show ?thesis by (auto simp: nsr_json_rpc_notify_def intro!: id_le_same)
qed

lemma entry_inv_notify: "entry_inv e \<Longrightarrow> entry_inv (notify_entry doc e)"
  using entry_inv_check_alive [of e] notify_next_id
  by (auto simp: notify_entry_def Let_def intro!: entry_inv_more)

lemma entry_inv_stop:
  assumes "entry_inv e"
  shows "entry_inv (plugin_stop (e\<lparr>pe_enabled := b\<rparr>))"
  using assms
  by (simp add: plugin_stop_def plugin_key_queue_reset_def Let_def entry_inv_def key_queue_ok_def NSR_PLUGIN_KEY_QUEUE_def
      ids_ok_def idle_def keys_ok_def)

lemma keys_ok_parsed: "keys_ok (pe_reserved_keys (parse_reserved_keys e val))"
proof -
  let ?ks = "sort (take NSR_KEY_USER_LEN (key_chars val))"
  have "set ?ks \<subseteq> set (key_chars val)" by (auto dest: in_set_takeD)
  then have "\<forall>c \<in> set ?ks. is_key_char c" by (auto simp: key_chars_def)
  moreover have "length (remdups_adj ?ks) \<le> NSR_KEY_USER_LEN"
    using remdups_adj_length [of ?ks] by (simp add: le_trans)
  ultimately show ?thesis
    unfolding reserved_keys_eq keys_ok_def by (simp add: sorted_remdups_adj_strict)
qed

lemma entry_inv_parsed: "entry_inv e \<Longrightarrow> entry_inv (parse_reserved_keys e val)"
  using keys_ok_parsed [of e val]
  by (auto simp: entry_inv_def parse_reserved_keys_def key_queue_ok_def ids_ok_def idle_def)

lemma entry_inv_accept: "entry_inv e \<Longrightarrow> accept_init resp e = Some e' \<Longrightarrow> entry_inv e'"
  by (auto simp: accept_init_def Let_def entry_inv_parsed split: option.splits if_splits)

text \<open>Nothing is pending when a plugin is started, so the identifiers may start again.\<close>

lemma entry_inv_idle_rpc: "entry_inv e \<Longrightarrow> idle e \<Longrightarrow> entry_inv (e\<lparr>pe_rpc := r\<rparr>)"
  by (simp add: entry_inv_def key_queue_ok_def ids_ok_def idle_def)

lemma entry_inv_spawn:
  assumes "entry_inv e" "idle e"
  shows "entry_inv (snd (plugin_spawn sp e cfg dir))"
proof -
  obtain ok r where s: "nsr_json_rpc_spawn sp (rpc_os (pe_rpc e)) = (ok, r)" by force
  obtain resp r1 where c: "nsr_json_rpc_call r ''init'' (build_doc_buf (init_doc cfg dir)) 2000 = (resp, r1)" by force
  show ?thesis
    using s c entry_inv_idle_rpc [OF assms] entry_inv_accept [of "e\<lparr>pe_rpc := r1\<rparr>"]
    by (cases ok) (auto simp: plugin_spawn_def Let_def split: option.splits)
qed

lemma entry_inv_new: "entry_inv (new_entry file cfg dir ent)"
proof -
  obtain name exec sp where ent: "ent = (name, exec, sp)" by (metis prod_cases3)
  have "entry_inv (entry_zero\<lparr>pe_last_key_ch := -1, pe_name := c_strncpy 63 name, pe_path := p, pe_enabled := b\<rparr>)"
    "idle (entry_zero\<lparr>pe_last_key_ch := -1, pe_name := c_strncpy 63 name, pe_path := p, pe_enabled := b\<rparr>)" for p b
    by (simp_all add: entry_inv_def entry_zero_def key_queue_ok_def NSR_PLUGIN_KEY_QUEUE_def ids_ok_def idle_def keys_ok_def)
  then show ?thesis by (auto simp: new_entry_def ent Let_def intro!: entry_inv_spawn)
qed

lemma load_entries_ok:
  assumes "length es \<le> NSR_MAX_PLUGINS" "\<forall>e \<in> set es. entry_inv e" "load_entries file cfg dir ents es = (n, es')"
  shows "length es' \<le> NSR_MAX_PLUGINS \<and> (\<forall>e \<in> set es'. entry_inv e)"
  using assms
proof (induction ents arbitrary: es n)
  case (Cons ent ents)
  obtain name exec sp where ent: "ent = (name, exec, sp)" by (metis prod_cases3)
  let ?new = "new_entry file cfg dir (name, exec, sp)"
  let ?ok = "length es' \<le> NSR_MAX_PLUGINS \<and> (\<forall>e \<in> set es'. entry_inv e)"
  have IH: "load_entries file cfg dir ents es = (k, es') \<Longrightarrow> ?ok" for k using Cons.IH [of es] Cons.prems(1,2) by simp
  have IH': "length es < NSR_MAX_PLUGINS \<Longrightarrow> load_entries file cfg dir ents (es @ [?new]) = (k, es') \<Longrightarrow> ?ok" for k
    using Cons.IH [of "es @ [?new]"] Cons.prems(2) entry_inv_new by simp
  show ?case
  proof (cases "name \<noteq> [] \<and> hd name = CHR ''.'' \<or> \<not> exec \<or> name \<in> pe_name ` set es")
    case True
    with Cons.prems(3) IH show ?thesis by (auto simp: ent split: if_splits)
  next
    case False
    obtain k es1 where k: "load_entries file cfg dir ents (es @ [?new]) = (k, es1)" by force
    show ?thesis
    proof (cases "length es \<ge> NSR_MAX_PLUGINS")
      case True
      with Cons.prems False show ?thesis by (auto simp: ent)
    next
      case less: False
      with Cons.prems(3) False k have "es1 = es'" by (auto simp: ent)
      with IH' k less show ?thesis by simp
    qed
  qed
qed simp

lemma set_enabled_ok:
  assumes "reg_inv reg" "nsr_plugins_set_enabled sp w idx b (file, reg) = (file', reg')"
  shows "reg_inv reg'"
proof (cases "idx < 0 \<or> idx \<ge> int (length (reg_entries reg)) \<or> pe_enabled (reg_entries reg ! nat idx) = b")
  case True
  then have "nsr_plugins_set_enabled sp w idx b (file, reg) = (file, reg)" by (auto simp: nsr_plugins_set_enabled_def Let_def)
  with assms show ?thesis by simp
next
  case False
  let ?e = "reg_entries reg ! nat idx"
  have "?e \<in> set (reg_entries reg)" using False by (intro nth_mem) auto
  then have e: "entry_inv ?e" using assms(1) by (simp add: reg_inv_def)
  have "entry_inv (if b then snd (plugin_spawn sp (?e\<lparr>pe_enabled := b\<rparr>) (reg_config_path reg) (reg_plugin_dir reg))
      else plugin_stop (?e\<lparr>pe_enabled := b\<rparr>))"
  proof (cases b)
    case True
    then have "idle ?e" using False e by (auto simp: entry_inv_def)
    then have "entry_inv (?e\<lparr>pe_enabled := b\<rparr>)" "idle (?e\<lparr>pe_enabled := b\<rparr>)"
      using e by (simp_all add: entry_inv_def key_queue_ok_def ids_ok_def idle_def)
    with True entry_inv_spawn show ?thesis by simp
  qed (use e entry_inv_stop in simp)
  with assms False show ?thesis
    by (auto simp: nsr_plugins_set_enabled_def reg_inv_def Let_def dest!: subsetD [OF set_update_subset_insert])
qed

text \<open>The name of the file comes from the plugin and is not quoted for the shell.\<close>

lemma editor_command_unquoted: "plugin_run_open_editor None ''a;b'' = Some ''nano a;b''"
  by (simp add: plugin_run_open_editor_def)

section \<open>Runs\<close>

text \<open>The configuration file and the registry, changed by the host's calls in any order.\<close>

inductive plugin_step :: "string option \<times> nsr_plugin_registry \<Rightarrow> string option \<times> nsr_plugin_registry \<Rightarrow> bool" where
  load: "plugin_step (file, reg) (file, snd (nsr_plugins_load_dir file ents dir reg))"
| set_enabled: "plugin_step (file, reg) (nsr_plugins_set_enabled sp writable idx b (file, reg))"
| telemetry: "plugin_step (file, reg) (file, nsr_plugins_update_telemetry tel topo reg)"
| render: "plugin_step (file, reg) (file, snd (nsr_plugins_render mode focused topo yxhw sh sw reg))"
| render_hops: "plugin_step (file, reg) (file, snd (nsr_plugins_render_hops hops n max_out reg))"
| on_key: "plugin_step (file, reg) (file, snd (snd (nsr_plugins_on_key reg ch)))"
| modal_active: "plugin_step (file, reg) (file, snd (nsr_plugins_modal_active reg))"
| cleanup: "plugin_step (file, reg) (file, snd (nsr_plugins_cleanup reg))"
| edited: "plugin_step (file, reg) (file', reg)"

inductive plugin_reach :: "string option \<times> nsr_plugin_registry \<Rightarrow> bool" where
  init: "plugin_reach (file, nsr_plugins_init config_path)"
| step: "plugin_reach s \<Longrightarrow> plugin_step s s' \<Longrightarrow> plugin_reach s'"

lemma reg_inv_entries: "reg_inv reg \<longleftrightarrow> (\<exists>n. n \<le> NSR_MAX_PLUGINS \<and> entries_ok n (reg_entries reg))"
  by (auto simp: reg_inv_def entries_ok_def)

lemma reg_inv_map:
  "reg_inv reg \<Longrightarrow> (\<And>e. entry_inv e \<Longrightarrow> entry_inv (f e)) \<Longrightarrow> reg_inv (reg\<lparr>reg_entries := map f (reg_entries reg)\<rparr>)"
  by (auto simp: reg_inv_def)

lemma plugin_step_inv: "plugin_step s s' \<Longrightarrow> reg_inv (snd s) \<Longrightarrow> reg_inv (snd s')"
proof (induction rule: plugin_step.induct)
  case (load cfg reg ents dir)
  then show ?case using load_entries_ok [of "reg_entries reg" cfg "reg_config_path reg" dir]
    by (auto simp: nsr_plugins_load_dir_def reg_inv_def Let_def split: option.splits prod.splits)
next
  case (set_enabled cfg reg sp writable idx b)
  then show ?case
    using set_enabled_ok [of reg sp writable idx b cfg] by (cases "nsr_plugins_set_enabled sp writable idx b (cfg, reg)") simp
next
  case (telemetry cfg reg tel topo)
  then show ?case by (simp add: nsr_plugins_update_telemetry_def reg_inv_map entry_inv_notify)
next
  case (render cfg reg mode focused topo yxhw sh sw)
  then show ?case by (simp add: nsr_plugins_render_def Let_def o_def reg_inv_map entry_inv_render)
next
  case (render_hops cfg reg hops n max_out)
  then show ?case using entries_ok_hops
    by (auto simp: nsr_plugins_render_hops_def reg_inv_entries split: prod.splits) (metis snd_conv)
next
  case (on_key cfg reg ch)
  then show ?case using entries_ok_on_key by (auto simp: reg_inv_entries)
next
  case (modal_active cfg reg)
  then show ?case using entries_ok_modal
    by (auto simp: nsr_plugins_modal_active_def reg_inv_entries split: prod.splits) (metis snd_conv)
next
  case (cleanup cfg reg)
  then show ?case by (simp add: nsr_plugins_cleanup_def reg_inv_def)
next
  case (edited cfg reg cfg')
  then show ?case by simp
qed

section \<open>Who gets a key\<close>

definition takes_key :: "(nsr_plugin_entry \<Rightarrow> bool) \<Rightarrow> nsr_plugin_entry \<Rightarrow> bool" where
  "takes_key sel e \<longleftrightarrow> plugin_active (plugin_check_alive e) \<and> sel (plugin_check_alive e)"

lemma key_pass_handled [simp]: "key_pass sel give True es = (True, False, es)"
  by (cases es) auto

text \<open>A pass whose plugins always take the key stops at the first one that is picked.\<close>

lemma key_pass_first:
  assumes "\<And>e. fst (give e)" "takes_key sel e" "\<forall>e \<in> set xs. \<not> takes_key sel e"
  shows "key_pass sel give False (xs @ e # ys) =
    (True, True, map plugin_check_alive xs @ snd (give (plugin_check_alive e)) # ys)"
  using assms(2,3) assms(1) [of "plugin_check_alive e"]
  by (induction xs) (auto simp: takes_key_def Let_def split: prod.splits)

lemma key_pass_none:
  assumes "\<forall>e \<in> set es. \<not> takes_key sel e"
  shows "key_pass sel give False es = (False, False, map plugin_check_alive es)"
  using assms by (induction es) (auto simp: takes_key_def Let_def)

lemma key_pass_taken:
  assumes "\<And>e. fst (give e)"
  shows "fst (key_pass sel give False es) \<longleftrightarrow> (\<exists>e \<in> set es. takes_key sel e)"
proof (cases "\<exists>e \<in> set es. takes_key sel e")
  case True
  then obtain xs e ys where "es = xs @ e # ys" "takes_key sel e" "\<forall>e \<in> set xs. \<not> takes_key sel e"
    using split_list_first_prop [of es "takes_key sel"] by blast
  with key_pass_first [of give sel e xs ys, OF assms] True show ?thesis by simp
next
  case False
  with key_pass_none [of es sel give] show ?thesis by simp
qed

lemma key_pass_refused:
  assumes "\<And>e. \<not> fst (give e)"
  shows "\<not> fst (key_pass sel give False es)"
proof (induction es)
  case (Cons e es)
  obtain h e1 where g: "give (plugin_check_alive e) = (h, e1)" by force
  with assms [of "plugin_check_alive e"] have "h = False" by simp
  with Cons g show ?case by (auto simp: Let_def split: prod.splits)
qed simp

lemma try_on_key_result: "fst (plugin_try_on_key e ch m r) \<longleftrightarrow> m \<or> r"
  by (auto simp: plugin_try_on_key_def Let_def split: prod.splits)

section \<open>Properties\<close>

text \<open>
  C29: From the empty registry, whatever directories are loaded, plugins enabled, disabled or
  dying, telemetry, render, annotation and key calls are made, and whatever the plugins answer:
  there are at most 32 plugins; each key queue is well formed; the reserved keys of each are at
  most 32 lower-case letters and digits in strictly increasing order; the requests that wait for
  an answer have, on every channel whose counter \<open>next_id\<close> has not overflowed the range of \<open>int\<close>,
  different identifiers below the next one, so that an answer is routed to one request; and a
  plugin that is not enabled waits for none.
\<close>

theorem plugin_invariant:
  assumes "plugin_reach (file, reg)"
  shows "reg_inv reg"
proof -
  have "plugin_reach s \<Longrightarrow> reg_inv (snd s)" for s
  proof (induction rule: plugin_reach.induct)
    case (step s s')
    then show ?case by (simp add: plugin_step_inv)
  qed (simp add: nsr_plugins_init_def reg_inv_def)
  from this [OF assms] show ?thesis by simp
qed

theorem plugin_invariant_witness:
  "reg_inv (snd (snd (nsr_plugins_on_key
     (snd (nsr_plugins_load_dir None (Some [(''geoip'', True, Spawn_failed), (''README'', False, Spawn_failed)]) ''plugins''
        (nsr_plugins_init ''nsr.conf''))) 113)))"
  by (rule plugin_invariant [of None], rule plugin_reach.step [OF plugin_reach.step [OF plugin_reach.init]],
      rule plugin_step.load, rule plugin_step.on_key)

text \<open>
  C30: Which keys the plugins keep from the host.  Once every active plugin has been drained, a
  key is reported as handled exactly when a plugin has asked for the editor, or some live, active
  plugin is modal, or some live, active plugin reserved the key; otherwise it is broadcast and
  left to the host.
\<close>

theorem on_key_handled_iff:
  assumes "0 \<le> ch"
  shows "fst (snd (nsr_plugins_on_key reg ch)) \<longleftrightarrow>
     (\<exists>e \<in> set (reg_entries reg). fst (drain_entry e) \<noteq> None) \<or>
     (\<exists>e \<in> set (reg_entries reg). takes_key pe_is_modal (snd (drain_entry e))) \<or>
     (\<exists>e \<in> set (reg_entries reg). takes_key (\<lambda>e. plugin_reserves_key e ch) (plugin_check_alive (snd (drain_entry e))))"
proof -
  let ?es = "map (snd \<circ> drain_entry) (reg_entries reg)"
  let ?h = "list_ex (\<lambda>d. fst d \<noteq> None) (map drain_entry (reg_entries reg))"
  let ?p = "\<lambda>m r sel h es. key_pass sel (\<lambda>e. plugin_try_on_key e ch m r) h es"
  let ?R = "\<lambda>e. plugin_reserves_key e ch"
  obtain h1 t1 es1 where 1: "?p True False pe_is_modal ?h ?es = (h1, t1, es1)" by (metis prod_cases3)
  obtain h2 t2 es2 where 2: "?p False True ?R h1 es1 = (h2, t2, es2)" by (metis prod_cases3)
  obtain h3 t3 es3 where 3: "?p False False (\<lambda>_. True) h2 es2 = (h3, t3, es3)" by (metis prod_cases3)
  have res: "fst (snd (nsr_plugins_on_key reg ch)) = (if t2 then h2 else h3)"
    using assms 1 2 3 by (simp add: nsr_plugins_on_key_def Let_def)
  have h3: "h3 = h2" using 3 key_pass_refused [of "\<lambda>e. plugin_try_on_key e ch False False" "\<lambda>_. True" es2]
    by (cases h2) (simp_all add: try_on_key_result)
  have h1: "h1 \<longleftrightarrow> ?h \<or> (\<exists>e \<in> set ?es. takes_key pe_is_modal e)"
    using 1 key_pass_taken [of "\<lambda>e. plugin_try_on_key e ch True False" pe_is_modal ?es] by (cases ?h) (simp_all add: try_on_key_result)
  have h2: "h2 \<longleftrightarrow> h1 \<or> (\<exists>e \<in> set es1. takes_key ?R e)"
    using 2 key_pass_taken [of "\<lambda>e. plugin_try_on_key e ch False True" ?R es1] by (cases h1) (simp_all add: try_on_key_result)
  have "es1 = map plugin_check_alive ?es" if "\<not> h1"
    using that 1 h1 key_pass_none [of ?es pe_is_modal "\<lambda>e. plugin_try_on_key e ch True False"] by simp
  then show ?thesis unfolding res h3 using h1 h2 by (auto simp: list_ex_iff)
qed

text \<open>Two plugins, the second of which reserved \<open>g\<close>.\<close>

definition ex_reg :: nsr_plugin_registry where
  "ex_reg = \<lparr>reg_entries = [entry_zero\<lparr>pe_name := ''percentile'', pe_enabled := True, pe_initialized := True\<rparr>,
       entry_zero\<lparr>pe_name := ''geoip'', pe_enabled := True, pe_initialized := True, pe_reserved_keys := ''g''\<rparr>],
     reg_config_path = [], reg_plugin_dir = []\<rparr>"

lemma ex_reg_takes:
  "takes_key (\<lambda>e. plugin_reserves_key e 71) (plugin_check_alive (snd (drain_entry (reg_entries ex_reg ! 1))))"
  by code_simp

theorem on_key_handled_iff_witness: "fst (snd (nsr_plugins_on_key ex_reg 71))"
proof -
  have "reg_entries ex_reg ! 1 \<in> set (reg_entries ex_reg)" by (simp add: ex_reg_def)
  with ex_reg_takes on_key_handled_iff [of 71 ex_reg] show ?thesis by auto
qed

definition key_doc :: "int \<Rightarrow> bool \<Rightarrow> json" where
  "key_doc ch modal_input = JObj ((''key'', JInt ch) # (if modal_input then [(''modal_input'', JBool True)] else []))"

lemma build_key_params_doc: "build_key_params ch m = build_doc_buf (key_doc ch m)"
proof -
  obtain jb where jb: "nsr_json_init = Some jb" using nsr_json_init_ok by blast
  show ?thesis
    unfolding build_key_params_def build_doc_buf_def key_doc_def jb by (cases m) (simp_all add: bind_assoc)
qed

text \<open>
  C31: A plugin gets its keys one at a time and in order.  When no key request is waiting and the
  channel is open, sending takes the oldest queued key and writes a prefix of its \<open>on_key\<close> request
  line; if all of it went out, that request is now the one waiting, under the identifier it was
  sent with, and otherwise the plugin is marked dead.  While a request is waiting, nothing is
  sent.
\<close>

theorem next_key_sent:
  assumes "key_queue_ok e" "queued_keys e = (ch, m) # evs" "\<bar>ch\<bar> < 2 ^ 31"
    and "\<not> rpc_dead (pe_rpc e)" "0 \<le> rpc_in (pe_rpc e)" "0 \<le> rpc_next_id (pe_rpc e)" "rpc_next_id (pe_rpc e) < 2 ^ 31"
  shows "if pe_on_key_pending e then plugin_send_next_key e = e
     else let e' = plugin_send_next_key e; n = rpc_next_id (pe_rpc e);
              line = render (request_doc ''on_key'' (key_doc ch m) n) @ [CHR 0x0A];
              before = os_sent (rpc_os (pe_rpc e)); after = os_sent (rpc_os (pe_rpc e'))
          in queued_keys e' = evs \<and>
             (if pe_on_key_pending e' then pe_pending_on_key_id e' = n \<and> after = before @ line
              else pe_dead e' \<and> (\<exists>k. after = before @ take k line))"
proof (cases "pe_on_key_pending e")
  case True
  then show ?thesis by (simp add: plugin_send_next_key_def)
next
  case False
  let ?n = "rpc_next_id (pe_rpc e)" let ?t = "render (request_doc ''on_key'' (key_doc ch m) ?n)"
  let ?r0 = "(pe_rpc e)\<lparr>rpc_next_id := c_int (?n + 1), rpc_overflowed := rpc_overflowed (pe_rpc e) \<or> c_int (?n + 1) \<noteq> ?n + 1, rpc_pending_id := ?n\<rparr>"
  obtain e1 where d: "plugin_key_queue_dequeue e = (Some (ch, m), e1)" "queued_keys e1 = evs" "key_queue_ok e1"
    using dequeue_head [OF assms(1,2)] by (metis prod.collapse)
  have r1: "pe_rpc e1 = pe_rpc e" by (rule dequeue_rpc [OF d(1)])
  have p1: "\<not> pe_on_key_pending e1" using dequeue_pending [of e] d(1) False by simp
  have "ints_ok (key_doc ch m)" using assms(3) by (auto simp: key_doc_def)
  then have p: "params_ok (build_key_params ch m) (key_doc ch m)" unfolding build_key_params_doc by (rule build_doc_buf_ok)
  have doc: "doc_cstr (build_request ''on_key'' (build_key_params ch m) ?n) = ?t"
    using assms(6,7) by (intro build_request_doc [OF p]) simp_all
  obtain ok r where s: "rpc_send ?r0 ?t = (ok, r)" by force
  from rpc_send_sent(1) [OF s] obtain k where
    k: "os_sent (rpc_os r) = os_sent (rpc_os (pe_rpc e)) @ take k (?t @ [CHR 0x0A])" "ok \<longrightarrow> length ?t < k" by auto
  have req: "nsr_json_rpc_send_request (pe_rpc e1) ''on_key'' (build_key_params ch m) =
      (ok, Some ?n, if ok then r else r\<lparr>rpc_pending_id := -1\<rparr>)"
    using assms(4,5) s by (cases ok) (simp_all add: nsr_json_rpc_send_request_def r1 doc Let_def)
  have q: "queued_keys (e1\<lparr>pe_rpc := x, pe_on_key_pending := b, pe_pending_on_key_id := i\<rparr>) = evs"
    "queued_keys (e1\<lparr>pe_rpc := x, pe_dead := b\<rparr>) = evs" for x b i
    using d(2) by (simp_all add: queued_keys_def)
  show ?thesis
  proof (cases ok)
    case True
    then have "plugin_send_next_key e = e1\<lparr>pe_rpc := r, pe_on_key_pending := True, pe_pending_on_key_id := ?n\<rparr>"
      using False assms(4,5) d(1) req by (simp add: plugin_send_next_key_def)
    then show ?thesis using False True k q by (simp add: Let_def)
  next
    case nok: False
    have in_r: "rpc_in r = rpc_in (pe_rpc e)" using rpc_send_frame [OF s] by auto
    have "rpc_dead r" using rpc_send_sent(3) [OF s] nok in_r assms(5) by simp
    then have "plugin_send_next_key e = e1\<lparr>pe_rpc := r\<lparr>rpc_pending_id := -1\<rparr>, pe_dead := True\<rparr>"
      using False assms(4,5) d(1) req nok by (simp add: plugin_send_next_key_def Let_def)
    then show ?thesis using False k(1) q p1 by (auto simp: Let_def)
  qed
qed

definition ex_entry :: nsr_plugin_entry where
  "ex_entry = entry_zero\<lparr>pe_enabled := True, pe_initialized := True, pe_rpc := ex_rpc [] [],
     pe_key_queue := (113, False) # replicate 7 (0, False), pe_key_queue_count := 1\<rparr>"

theorem next_key_sent_witness:
  "queued_keys (plugin_send_next_key ex_entry) = []"
proof -
  have "key_queue_ok ex_entry" "queued_keys ex_entry = (113, False) # []"
    by (simp_all add: ex_entry_def entry_zero_def key_queue_ok_def queued_keys_def NSR_PLUGIN_KEY_QUEUE_def)
  from next_key_sent [OF this] show ?thesis
    by (simp add: ex_entry_def ex_rpc_def entry_zero_def Let_def)
qed

end
