(* ===== verification/Key_Slots.thy ===== *)
theory Key_Slots
  imports Plugin
begin

text \<open>
  Key remapping, \<open>src/ui/key_slots.c\<close>: built-in keys that a plugin reserved are moved to a pool
  of fallback keys.  The 256-entry table is a function from characters, where the NUL character
  means that the key is not remapped.
\<close>

section \<open>Functions\<close>

definition RESERVED_KEYS :: string where
  "RESERVED_KEYS = ''qngmtzspd''"

definition slots :: string where
  "slots = ''QWERTYUIOP''"

definition nsr_tolower_char :: "char \<Rightarrow> char" where
  "nsr_tolower_char c = (if CHR ''A'' \<le> c \<and> c \<le> CHR ''Z'' then char_of (of_char c + 32 :: nat) else c)"

definition nsr_toupper_char :: "char \<Rightarrow> char" where
  "nsr_toupper_char c = (if CHR ''a'' \<le> c \<and> c \<le> CHR ''z'' then char_of (of_char c - 32 :: nat) else c)"

type_synonym nsr_key_manager = "char \<Rightarrow> char"

definition unmapped :: nsr_key_manager where
  "unmapped = (\<lambda>_. CHR 0x00)"

text \<open>One reserved key; the state is the table and \<open>slot_idx\<close>.\<close>

definition assign_slot :: "char \<Rightarrow> nsr_key_manager \<times> nat \<Rightarrow> nsr_key_manager \<times> nat" where
  "assign_slot rk st =
     (case st of (remap, slot_idx) \<Rightarrow>
        if rk \<notin> nsr_tolower_char ` set RESERVED_KEYS then (remap, slot_idx)
        else if remap rk \<noteq> CHR 0x00 then (remap, slot_idx)
        else if slot_idx \<ge> length slots then (remap, slot_idx)
        else (remap(rk := slots ! slot_idx, nsr_toupper_char rk := slots ! slot_idx), slot_idx + 1))"

definition assign_plugin :: "nsr_plugin_entry \<Rightarrow> nsr_key_manager \<times> nat \<Rightarrow> nsr_key_manager \<times> nat" where
  "assign_plugin e st =
     (if \<not> pe_enabled e \<or> \<not> pe_initialized e \<or> pe_dead e then st
      else fold assign_slot (pe_reserved_keys e) st)"

definition key_mgr_init :: "nsr_plugin_registry option \<Rightarrow> nsr_key_manager" where
  "key_mgr_init plugins =
     (case plugins of
        None \<Rightarrow> unmapped
      | Some reg \<Rightarrow> fst (fold assign_plugin (reg_entries reg) (unmapped, 0)))"

definition key_mgr_label_char :: "nsr_key_manager \<Rightarrow> char \<Rightarrow> char" where
  "key_mgr_label_char remap original = (if remap original \<noteq> CHR 0x00 then remap original else original)"

definition key_mgr_matches :: "nsr_key_manager \<Rightarrow> char \<Rightarrow> int \<Rightarrow> bool" where
  "key_mgr_matches remap original ch =
     (if ch < 0 \<or> ch > 255 then False
      else nsr_tolower_char (char_of (nat ch)) = nsr_tolower_char (key_mgr_label_char remap original))"

section \<open>Slots are handed out once\<close>

text \<open>
  The keys remapped so far are different built-in keys; the \<open>i\<close>-th has the \<open>i\<close>-th slot, as has its
  upper-case form, and nothing else is remapped.
\<close>

definition slots_inv :: "char list \<Rightarrow> nsr_key_manager \<times> nat \<Rightarrow> bool" where
  "slots_inv ks st \<longleftrightarrow>
     (case st of (remap, n) \<Rightarrow>
        distinct ks \<and> set ks \<subseteq> set RESERVED_KEYS \<and> n = length ks \<and>
        (\<forall>i < n. remap (ks ! i) = slots ! i \<and> remap (nsr_toupper_char (ks ! i)) = slots ! i) \<and>
        (\<forall>c. c \<notin> set ks \<union> nsr_toupper_char ` set ks \<longrightarrow> remap c = CHR 0x00))"

lemma reserved_lower: "nsr_tolower_char ` set RESERVED_KEYS = set RESERVED_KEYS"
  by code_simp

lemma reserved_upper:
  "inj_on nsr_toupper_char (set RESERVED_KEYS)" "nsr_toupper_char ` set RESERVED_KEYS \<inter> set RESERVED_KEYS = {}"
  by (code_simp+)

lemma slots_nonzero: "i < 10 \<Longrightarrow> slots ! i \<noteq> CHR 0x00" "distinct slots" "length slots = 10"
  by (simp_all add: slots_def nth_Cons' split: if_splits)

lemma slots_inv_room:
  assumes "slots_inv ks (remap, n)"
  shows "n < length slots"
proof -
  have "length ks = card (set ks)" using assms by (simp add: slots_inv_def distinct_card)
  also have "\<dots> \<le> card (set RESERVED_KEYS)" using assms by (intro card_mono) (auto simp: slots_inv_def)
  also have "\<dots> \<le> 9" using card_length [of RESERVED_KEYS] by (simp add: RESERVED_KEYS_def)
  finally show ?thesis using assms by (simp add: slots_inv_def slots_nonzero(3))
qed

lemma slots_inv_mapped:
  assumes "slots_inv ks (remap, n)" "rk \<in> set RESERVED_KEYS"
  shows "remap rk \<noteq> CHR 0x00 \<longleftrightarrow> rk \<in> set ks"
proof
  assume "rk \<in> set ks"
  then obtain i where "i < length ks" "rk = ks ! i" by (metis in_set_conv_nth)
  then show "remap rk \<noteq> CHR 0x00"
    using assms(1) slots_inv_room [OF assms(1)] slots_nonzero(1) [of i] slots_nonzero(3) by (auto simp: slots_inv_def)
next
  assume "remap rk \<noteq> CHR 0x00"
  then have "rk \<in> set ks \<union> nsr_toupper_char ` set ks" using assms(1) by (auto simp: slots_inv_def)
  moreover have "set ks \<subseteq> set RESERVED_KEYS" using assms(1) by (simp add: slots_inv_def)
  ultimately show "rk \<in> set ks" using assms(2) reserved_upper(2) by blast
qed

lemma slots_inv_snoc:
  assumes "slots_inv ks (remap, n)" "rk \<in> set RESERVED_KEYS" "rk \<notin> set ks"
  shows "slots_inv (ks @ [rk]) (remap(rk := slots ! n, nsr_toupper_char rk := slots ! n), n + 1)"
proof -
  have sub: "set ks \<subseteq> set RESERVED_KEYS" and n: "n = length ks" using assms(1) by (auto simp: slots_inv_def)
  have other: "c \<noteq> rk" "c \<noteq> nsr_toupper_char rk" "nsr_toupper_char c \<noteq> rk" "nsr_toupper_char c \<noteq> nsr_toupper_char rk"
    if "c \<in> set ks" for c
    using that sub assms(2,3) reserved_upper(2) inj_onD [OF reserved_upper(1), of c rk] by blast+
  have "rk \<noteq> nsr_toupper_char rk" using assms(2) reserved_upper(2) by blast
  then show ?thesis
    using assms other n by (auto simp: slots_inv_def nth_append less_Suc_eq)
qed

definition claimed :: "nsr_plugin_entry list \<Rightarrow> char set" where
  "claimed es = {k \<in> set RESERVED_KEYS. \<exists>e \<in> set es. plugin_active e \<and> k \<in> set (pe_reserved_keys e)}"

text \<open>The built-in keys that active plugins reserved, in the order the code meets them first.\<close>

definition builtin_claims :: "nsr_plugin_entry list \<Rightarrow> string" where
  "builtin_claims es = filter (\<lambda>k. k \<in> set RESERVED_KEYS) (concat (map pe_reserved_keys (filter plugin_active es)))"

definition add_new :: "string \<Rightarrow> string \<Rightarrow> string" where
  "add_new ks xs = fold (\<lambda>k ks. if k \<in> set ks then ks else ks @ [k]) xs ks"

definition claim_order :: "nsr_plugin_entry list \<Rightarrow> string" where
  "claim_order es = add_new [] (builtin_claims es)"

lemma assign_slot_order:
  assumes "slots_inv ks st"
  shows "slots_inv (add_new ks (filter (\<lambda>k. k \<in> set RESERVED_KEYS) [rk])) (assign_slot rk st)"
proof -
  obtain remap n where st: "st = (remap, n)" by force
  show ?thesis
    using slots_inv_snoc [of ks remap n rk] slots_inv_mapped [of ks remap n rk] slots_inv_room [of ks remap n] assms
    by (auto simp: assign_slot_def st reserved_lower add_new_def)
qed

lemma add_new_append: "add_new ks (xs @ ys) = add_new (add_new ks xs) ys"
  by (simp add: add_new_def)

lemma assign_slots_order:
  "slots_inv ks st \<Longrightarrow> slots_inv (add_new ks (filter (\<lambda>k. k \<in> set RESERVED_KEYS) rks)) (fold assign_slot rks st)"
proof (induction rks arbitrary: ks st)
  case (Cons rk rks)
  from Cons.IH [OF assign_slot_order [OF Cons.prems, of rk]] show ?case
    using add_new_append [of ks "filter (\<lambda>k. k \<in> set RESERVED_KEYS) [rk]", symmetric] by (simp split: if_splits)
qed (simp add: add_new_def)

lemma assign_plugins_order:
  "slots_inv ks st \<Longrightarrow> slots_inv (add_new ks (builtin_claims es)) (fold assign_plugin es st)"
proof (induction es arbitrary: ks st)
  case (Cons e es)
  show ?case
  proof (cases "plugin_active e")
    case True
    from Cons.IH [OF assign_slots_order [OF Cons.prems, of "pe_reserved_keys e"]] True show ?thesis
      by (simp add: assign_plugin_def plugin_active_def builtin_claims_def add_new_append)
  next
    case False
    with Cons.IH [OF Cons.prems] show ?thesis by (auto simp: assign_plugin_def plugin_active_def builtin_claims_def)
  qed
qed (simp add: add_new_def builtin_claims_def)

lemma key_mgr_init_inv:
  obtains n where "slots_inv (claim_order (reg_entries reg)) (key_mgr_init (Some reg), n)"
proof -
  have "slots_inv [] (unmapped, 0)" by (simp add: slots_inv_def unmapped_def)
  from assign_plugins_order [OF this, of "reg_entries reg"] that show thesis
    by (simp add: claim_order_def key_mgr_init_def) (metis prod.collapse)
qed

text \<open>The slots in lower case: keys are compared without regard to case.\<close>

abbreviation slot_key :: "nat \<Rightarrow> char" where
  "slot_key i \<equiv> ''qwertyuiop'' ! i"

lemma slot_key_lower: "i < 10 \<Longrightarrow> nsr_tolower_char (slots ! i) = slot_key i"
proof -
  have "map nsr_tolower_char slots = ''qwertyuiop''" by code_simp
  moreover assume "i < 10"
  ultimately show ?thesis using nth_map [of i slots nsr_tolower_char] slots_nonzero(3) by simp
qed

lemma reserved_lower_id: "k \<in> set RESERVED_KEYS \<Longrightarrow> nsr_tolower_char k = k"
proof -
  have "\<forall>k \<in> set RESERVED_KEYS. nsr_tolower_char k = k" by code_simp
  then show "k \<in> set RESERVED_KEYS \<Longrightarrow> nsr_tolower_char k = k" by blast
qed

lemma add_new_set: "set (add_new ks xs) = set ks \<union> set xs"
  by (induction xs arbitrary: ks) (auto simp: add_new_def)

lemma claim_order_set: "set (claim_order es) = claimed es"
  by (auto simp: claim_order_def add_new_set builtin_claims_def claimed_def)

text \<open>The key \<open>k\<close>, in either case, is the one that was pressed.\<close>

definition pressed :: "int \<Rightarrow> char \<Rightarrow> bool" where
  "pressed ch k \<longleftrightarrow> 0 \<le> ch \<and> ch \<le> 255 \<and> nsr_tolower_char (char_of (nat ch)) = k"

lemma pressed_unique: "pressed ch k \<Longrightarrow> pressed ch k' \<Longrightarrow> k = k'"
  by (simp add: pressed_def)

lemma pressed_exists:
  assumes "nsr_tolower_char k = k"
  shows "\<exists>ch. pressed ch k"
proof -
  have "int (of_char k) \<le> 255" using nat_of_char_less_256 [of k] by linarith
  then show ?thesis using assms by (intro exI [of _ "int (of_char k)"]) (simp add: pressed_def)
qed

text \<open>
  The built-in key \<open>k\<close> was moved onto \<open>k'\<close>, which is another built-in key and was not moved itself.
\<close>

definition slot_clash :: "string \<Rightarrow> char \<Rightarrow> char \<Rightarrow> bool" where
  "slot_clash ks k k' \<longleftrightarrow> k' \<in> set RESERVED_KEYS - set ks \<and> (\<exists>i < length ks. ks ! i = k \<and> slot_key i = k')"

lemma slot_key_inj: "i < 10 \<Longrightarrow> j < 10 \<Longrightarrow> slot_key i = slot_key j \<longleftrightarrow> i = j"
  using nth_eq_iff_index_eq [of "''qwertyuiop''" i j] by simp

section \<open>Properties\<close>



text \<open>
  The first reserved built-in key always lands on \<open>q\<close>: reserving \<open>q\<close> first moves it nowhere, and
  reserving other keys only leaves two actions on \<open>q\<close>, one of them to quit.
\<close>

lemma first_slot_is_quit:
  assumes "claim_order (reg_entries reg) = k # ks"
  shows "key_mgr_matches (key_mgr_init (Some reg)) k 113"
    "CHR ''q'' \<notin> set (k # ks) \<Longrightarrow> key_mgr_matches (key_mgr_init (Some reg)) (CHR ''q'') 113"
proof -
  obtain n where inv: "slots_inv (k # ks) (key_mgr_init (Some reg), n)" using key_mgr_init_inv [of reg] assms by metis
  have low: "nsr_tolower_char (char_of (113 :: nat)) = nsr_tolower_char (slots ! 0)"
    "nsr_tolower_char (char_of (113 :: nat)) = nsr_tolower_char (CHR ''q'')" by code_simp+
  have "key_mgr_init (Some reg) k = slots ! 0" using inv by (auto simp: slots_inv_def)
  then show "key_mgr_matches (key_mgr_init (Some reg)) k 113"
    using low(1) slots_nonzero(1) [of 0] by (simp add: key_mgr_matches_def key_mgr_label_char_def)
  assume "CHR ''q'' \<notin> set (k # ks)"
  then have "key_mgr_init (Some reg) (CHR ''q'') = CHR 0x00"
    using slots_inv_mapped [OF inv, of "CHR ''q''"] by (simp add: RESERVED_KEYS_def)
  then show "key_mgr_matches (key_mgr_init (Some reg)) (CHR ''q'') 113"
    using low(2) by (simp add: key_mgr_matches_def key_mgr_label_char_def)
qed

text \<open>
  With the reservation \<open>t,q\<close> of the documentation the action of \<open>t\<close> is moved onto \<open>q\<close>, which the
  plugin reserved as well.
\<close>

lemma documented_reservation:
  assumes "plugin_active e" "pe_reserved_keys e = ''tq''" "reg_entries reg = [e]"
  shows "key_mgr_matches (key_mgr_init (Some reg)) (CHR ''t'') 113" "plugin_reserves_key e 113"
proof -
  have "claim_order (reg_entries reg) = CHR ''t'' # ''q''"
    using assms by (simp add: claim_order_def add_new_def builtin_claims_def RESERVED_KEYS_def)
  then show "key_mgr_matches (key_mgr_init (Some reg)) (CHR ''t'') 113" by (rule first_slot_is_quit(1))
  have "to_lower (char_of (113 :: nat)) = CHR ''q''" by code_simp
  then show "plugin_reserves_key e 113" using assms(2) by (simp add: plugin_reserves_key_def)
qed

end
