(* ===== verification/Tui.thy ===== *)
theory Tui
  imports Key_Slots
begin

text \<open>
  The state of the terminal interface and its key handling, \<open>src/ui/tui.c\<close> and
  \<open>include/nsr/ui/tui.h\<close>: the navigation stack, the message, the cursors, and \<open>nsr_tui_update\<close>.

  A key is the \<open>int\<close> that \<open>getch\<close> returns, negative for \<open>ERR\<close>; the codes of the special keys belong
  to ncurses and are an argument.  A node is named by its index in the table.  What an operation
  reads and changes beside the interface itself (topology, plugins, the configuration file, the
  tree built by the last frame) is in one record.  The fields of \<open>nsr_tui_state_t\<close> that no function
  uses (\<open>grid_scroll_x\<close>, \<open>last_max_y\<close>, \<open>last_max_x\<close>) are left out.
\<close>

section \<open>State\<close>

definition NSR_UI_STACK_DEPTH :: nat where
  "NSR_UI_STACK_DEPTH = 8"

record nsr_tui_state =
  current_mode :: nsr_ui_mode
  nav_modes :: "nsr_ui_mode list"
  nav_count :: nat
  grid_cursor :: int
  tree_cursor :: int
  tree_scroll :: int
  grid_scroll_y :: int
  tools_cursor :: int
  tools_scroll :: int
  focused_node_id :: u32
  show_stats :: bool
  show_dashboard :: bool
  frozen :: bool
  msg :: string
  msg_until :: int
  ui_keys :: nsr_key_manager

record world =
  w_tui :: nsr_tui_state
  w_topo :: nsr_topology_state
  w_plugins :: "nsr_plugin_registry option"
  w_config :: "string option"
  w_tree :: "nat list"

definition tui_zero :: nsr_tui_state where
  "tui_zero = \<lparr>current_mode = NSR_UI_NORMAL, nav_modes = replicate NSR_UI_STACK_DEPTH NSR_UI_NORMAL, nav_count = 0,
     grid_cursor = 0, tree_cursor = 0, tree_scroll = 0, grid_scroll_y = 0, tools_cursor = 0, tools_scroll = 0,
     focused_node_id = 0, show_stats = False, show_dashboard = False, frozen = False, msg = [], msg_until = 0,
     ui_keys = unmapped\<rparr>"

section \<open>Navigation\<close>

definition push_nav :: "nsr_ui_mode \<Rightarrow> nsr_tui_state \<Rightarrow> nsr_tui_state" where
  "push_nav mode tui =
     (let tui = (if nav_count tui < NSR_UI_STACK_DEPTH
                 then tui\<lparr>nav_modes := (nav_modes tui)[nav_count tui := current_mode tui], nav_count := nav_count tui + 1\<rparr>
                 else tui)
      in tui\<lparr>current_mode := mode\<rparr>)"

definition pop_nav :: "nsr_tui_state \<Rightarrow> nsr_tui_state" where
  "pop_nav tui =
     (if nav_count tui > 0
      then tui\<lparr>nav_count := nav_count tui - 1, current_mode := nav_modes tui ! (nav_count tui - 1)\<rparr>
      else tui\<lparr>current_mode := NSR_UI_NORMAL\<rparr>)"

definition goto_normal :: "nsr_tui_state \<Rightarrow> nsr_tui_state" where
  "goto_normal tui = tui\<lparr>nav_count := 0, current_mode := NSR_UI_NORMAL\<rparr>"

definition show_tui_msg :: "int \<Rightarrow> string \<Rightarrow> int \<Rightarrow> nsr_tui_state \<Rightarrow> nsr_tui_state" where
  "show_tui_msg now txt seconds tui = tui\<lparr>msg := c_strncpy 127 txt, msg_until := now + seconds\<rparr>"

definition nsr_tui_toggle_dashboard :: "nsr_tui_state \<Rightarrow> nsr_tui_state" where
  "nsr_tui_toggle_dashboard tui = tui\<lparr>show_dashboard := \<not> show_dashboard tui\<rparr>"

section \<open>Nodes\<close>

fun visual_loop :: "nsr_topology_node list \<Rightarrow> nat \<Rightarrow> int \<Rightarrow> int \<Rightarrow> nat option" where
  "visual_loop [] i idx index = None"
| "visual_loop (n # ns) i idx index =
     (if \<not> nd_active n then visual_loop ns (i + 1) idx index
      else if idx = index then Some i
      else visual_loop ns (i + 1) (idx + 1) index)"

definition node_by_visual_index :: "nsr_topology_state \<Rightarrow> int \<Rightarrow> nat option" where
  "node_by_visual_index topo index = visual_loop (tp_nodes topo) 0 0 index"

definition tree_node_by_index :: "nat list \<Rightarrow> int \<Rightarrow> nat option" where
  "tree_node_by_index tree index = (if index < 0 \<or> index \<ge> int (length tree) then None else Some (tree ! nat index))"

definition toggle_control_plane :: "nat \<Rightarrow> nsr_topology_state \<Rightarrow> nsr_topology_state" where
  "toggle_control_plane i topo =
     topo\<lparr>tp_nodes := (tp_nodes topo)[i := (tp_nodes topo ! i)\<lparr>nd_control_plane := \<not> nd_control_plane (tp_nodes topo ! i)\<rparr>]\<rparr>"

section \<open>Keys\<close>

record keycodes =
  KEY_UP :: int
  KEY_DOWN :: int
  KEY_LEFT :: int
  KEY_RIGHT :: int
  KEY_ENTER :: int

text \<open>The code of a character key.\<close>

abbreviation code :: "char \<Rightarrow> int" where
  "code c \<equiv> of_char c"

definition is_up :: "keycodes \<Rightarrow> int \<Rightarrow> bool" where
  "is_up kc ch \<longleftrightarrow> ch = code (CHR ''k'') \<or> ch = KEY_UP kc"

definition is_down :: "keycodes \<Rightarrow> int \<Rightarrow> bool" where
  "is_down kc ch \<longleftrightarrow> ch = code (CHR ''j'') \<or> ch = KEY_DOWN kc"

definition is_left :: "keycodes \<Rightarrow> int \<Rightarrow> bool" where
  "is_left kc ch \<longleftrightarrow> ch = code (CHR ''h'') \<or> ch = KEY_LEFT kc"

definition is_right :: "keycodes \<Rightarrow> int \<Rightarrow> bool" where
  "is_right kc ch \<longleftrightarrow> ch = code (CHR ''l'') \<or> ch = KEY_RIGHT kc"

definition is_enter :: "keycodes \<Rightarrow> int \<Rightarrow> bool" where
  "is_enter kc ch \<longleftrightarrow> ch = 10 \<or> ch = KEY_ENTER kc"

definition plugin_count :: "world \<Rightarrow> int" where
  "plugin_count w = (case w_plugins w of None \<Rightarrow> 0 | Some reg \<Rightarrow> int (length (reg_entries reg)))"

text \<open>
  The plugin menu.  Toggling a plugin writes the configuration file when it is \<open>writable\<close>, and may
  start a process (\<open>sp\<close>).
\<close>

definition tools_toggle :: "spawn_res \<Rightarrow> bool \<Rightarrow> world \<Rightarrow> world" where
  "tools_toggle sp writable w =
     (let cur = tools_cursor (w_tui w)
      in case w_plugins w of
           None \<Rightarrow> w
         | Some reg \<Rightarrow>
             if cur \<ge> 0 \<and> cur < plugin_count w then
               (case nsr_plugins_set_enabled sp writable cur (\<not> nsr_plugins_enabled reg cur) (w_config w, reg) of
                  (file', reg') \<Rightarrow> w\<lparr>w_config := file', w_plugins := Some reg'\<rparr>)
             else w)"

definition tools_move :: "keycodes \<Rightarrow> int \<Rightarrow> int \<Rightarrow> int \<Rightarrow> int" where
  "tools_move kc count ch cur =
     (if is_up kc ch then (if cur > 0 then cur - 1 else cur)
      else if is_down kc ch then (if cur < count - 1 then cur + 1 else cur)
      else if is_left kc ch then (if cur > 0 then cur - 5 else cur)
      else if is_right kc ch then (if cur < count - 1 then cur + 5 else cur)
      else cur)"

definition clamp_tools :: "int \<Rightarrow> int \<Rightarrow> int" where
  "clamp_tools count cur =
     (let cur = (if cur < 0 then 0 else cur) in if cur \<ge> count then (if count > 0 then count - 1 else 0) else cur)"

definition tools_key :: "keycodes \<Rightarrow> spawn_res \<Rightarrow> bool \<Rightarrow> int \<Rightarrow> world \<Rightarrow> world" where
  "tools_key kc sp writable ch w =
     (let tui = w_tui w; count = plugin_count w;
          w = w\<lparr>w_tui := tui\<lparr>tools_cursor := tools_move kc count ch (tools_cursor tui)\<rparr>\<rparr>;
          w = (if is_enter kc ch \<or> ch = 13 then tools_toggle sp writable w
               else if ch = 27 \<or> (ch = code (CHR ''t'') \<or> ch = code (CHR ''T'')) \<and> key_mgr_matches (ui_keys tui) (CHR ''t'') ch
                    then w\<lparr>w_tui := pop_nav (w_tui w)\<rparr>
               else w)
      in w\<lparr>w_tui := (w_tui w)\<lparr>tools_cursor := clamp_tools count (tools_cursor (w_tui w))\<rparr>\<rparr>)"

text \<open>Focusing a node and the control-plane mark, shared by the grid and the tree.\<close>

definition focus_node :: "nat option \<Rightarrow> world \<Rightarrow> world" where
  "focus_node n w =
     (let tui = w_tui w;
          tui = (case n of None \<Rightarrow> tui | Some i \<Rightarrow> tui\<lparr>focused_node_id := nd_id (tp_nodes (w_topo w) ! i)\<rparr>)
      in w\<lparr>w_tui := push_nav NSR_UI_NORMAL tui\<rparr>)"

definition mark_node :: "nat option \<Rightarrow> world \<Rightarrow> world" where
  "mark_node n w = (case n of None \<Rightarrow> w | Some i \<Rightarrow> w\<lparr>w_topo := toggle_control_plane i (w_topo w)\<rparr>)"

definition grid_cols :: "int \<Rightarrow> int" where
  "grid_cols width = (let cols = width sdiv 14 in if cols < 1 then 1 else cols)"

text \<open>The clamp behind the switch: a cursor of an empty topology becomes \<open>-1\<close>.\<close>

definition clamp_cursor :: "int \<Rightarrow> int \<Rightarrow> int" where
  "clamp_cursor n cur = (let cur = (if cur < 0 then 0 else cur) in if cur \<ge> n then n - 1 else cur)"

definition grid_key :: "keycodes \<Rightarrow> int \<Rightarrow> int \<Rightarrow> world \<Rightarrow> world" where
  "grid_key kc screen_cols ch w =
     (let tui = w_tui w; total = nsr_topology_active_count (w_topo w); cols = grid_cols screen_cols; cur = grid_cursor tui;
          node = node_by_visual_index (w_topo w) cur
      in if is_enter kc ch then (if cur \<ge> 0 \<and> cur < total then focus_node node w else w)
         else if ch = code (CHR ''c'') \<or> ch = code (CHR ''C'') then mark_node node w
         else let cur = (if is_left kc ch then cur - 1 else if is_right kc ch then cur + 1
                         else if is_up kc ch then cur - cols else if is_down kc ch then cur + cols else cur)
              in w\<lparr>w_tui := tui\<lparr>grid_cursor := clamp_cursor total cur\<rparr>\<rparr>)"

definition tree_key :: "keycodes \<Rightarrow> int \<Rightarrow> world \<Rightarrow> world" where
  "tree_key kc ch w =
     (let tui = w_tui w; total = nsr_topology_active_count (w_topo w); cur = tree_cursor tui;
          node = tree_node_by_index (w_tree w) cur
      in if is_enter kc ch then (if cur \<ge> 0 \<and> cur < total then focus_node node w else w)
         else if ch = code (CHR ''c'') \<or> ch = code (CHR ''C'') then mark_node node w
         else let cur = (if is_up kc ch then (if cur > 0 then cur - 1 else cur)
                         else if is_down kc ch then (if cur < total - 1 then cur + 1 else cur)
                         else if is_left kc ch then (if cur > 0 then cur - 5 else cur)
                         else if is_right kc ch then (if cur < total - 1 then cur + 5 else cur) else cur)
              in w\<lparr>w_tui := tui\<lparr>tree_cursor := clamp_cursor total cur\<rparr>\<rparr>)"

definition normal_key :: "int \<Rightarrow> world \<Rightarrow> int \<times> world" where
  "normal_key ch w =
     (let tui = w_tui w
      in if key_mgr_matches (ui_keys tui) (CHR ''z'') ch then (2, w)
         else if ch = code (CHR ''S'') then (3, w\<lparr>w_tui := tui\<lparr>show_stats := \<not> show_stats tui\<rparr>\<rparr>)
         else if show_dashboard tui \<and> ch = code (CHR ''k'') then (4, w)
         else if show_dashboard tui \<and> ch = code (CHR ''j'') then (5, w)
         else (0, w))"

text \<open>The keys that change the mode, for all modes but the plugin menu.\<close>

definition enter_mode :: "nsr_ui_mode \<Rightarrow> nsr_tui_state \<Rightarrow> nsr_tui_state" where
  "enter_mode mode tui = (if current_mode tui \<noteq> mode then push_nav mode tui else tui)"

definition mode_key :: "int \<Rightarrow> nsr_tui_state \<Rightarrow> nsr_tui_state option" where
  "mode_key ch tui =
     (let matches = (\<lambda>c. key_mgr_matches (ui_keys tui) c ch)
      in if matches (CHR ''n'') then Some (goto_normal tui)
         else if matches (CHR ''g'') then Some (enter_mode NSR_UI_GRID tui)
         else if matches (CHR ''m'') then Some (enter_mode NSR_UI_TOOLS tui)
         else if matches (CHR ''t'') then Some (enter_mode NSR_UI_TREE tui)
         else if ch = 27 then Some (pop_nav tui)
         else if matches (CHR ''p'') then Some (tui\<lparr>frozen := \<not> frozen tui\<rparr>)
         else None)"

definition plugin_on_key :: "int \<Rightarrow> world \<Rightarrow> string list \<times> bool \<times> world" where
  "plugin_on_key ch w =
     (case w_plugins w of
        None \<Rightarrow> ([], False, w)
      | Some reg \<Rightarrow> (case nsr_plugins_on_key reg ch of (files, handled, reg') \<Rightarrow> (files, handled, w\<lparr>w_plugins := Some reg'\<rparr>)))"

definition plugin_modal :: "world \<Rightarrow> bool \<times> world" where
  "plugin_modal w =
     (case w_plugins w of
        None \<Rightarrow> (False, w)
      | Some reg \<Rightarrow> (case nsr_plugins_modal_active reg of (b, reg') \<Rightarrow> (b, w\<lparr>w_plugins := Some reg'\<rparr>)))"

text \<open>What a call may find in its environment.\<close>

record tui_env =
  te_codes :: keycodes
  te_cols :: int
  te_now :: int
  te_spawn :: spawn_res
  te_writable :: bool

text \<open>
  \<open>nsr_tui_update\<close>: the command for the main loop, the files plugins asked to edit, and the new
  state.
\<close>

definition nsr_tui_update :: "tui_env \<Rightarrow> int \<Rightarrow> world \<Rightarrow> int \<times> string list \<times> world" where
  "nsr_tui_update env ch w =
     (if ch < 0 then (0, [], w)
      else case plugin_modal w of (modal, w) \<Rightarrow>
        if modal then (case plugin_on_key ch w of (files, _, w) \<Rightarrow> (0, files, w))
        else let tui = w_tui w; kc = te_codes env
        in if key_mgr_matches (ui_keys tui) (CHR ''q'') ch then (1, [], w)
           else if key_mgr_matches (ui_keys tui) (CHR ''d'') ch then
             (if current_mode tui \<noteq> NSR_UI_NORMAL
              then (0, [], w\<lparr>w_tui := show_tui_msg (te_now env) ''Please enter a dashboard at Normal Mode'' 3 tui\<rparr>)
              else (6, [], w))
           else if current_mode tui = NSR_UI_TOOLS then (0, [], tools_key kc (te_spawn env) (te_writable env) ch w)
           else (case mode_key ch tui of
             Some tui' \<Rightarrow> (0, [], w\<lparr>w_tui := tui'\<rparr>)
           | None \<Rightarrow>
               (case plugin_on_key ch w of (files, handled, w) \<Rightarrow>
                  if handled then (0, files, w)
                  else if current_mode tui = NSR_UI_GRID then (0, files, grid_key kc (te_cols env) ch w)
                  else if current_mode tui = NSR_UI_TREE then (0, files, tree_key kc ch w)
                  else (case normal_key ch w of (cmd, w) \<Rightarrow> (cmd, files, w)))))"

end
