(* ===== verification/C_Format.thy ===== *)
theory C_Format
  imports Json_Encoder Float32
begin

text \<open>
  The conversions of \<open>printf\<close> that the interface and the plugins use beyond plain strings: field
  widths, and \<open>%f\<close> with a precision, which rounds the exact value of the binary number to nearest
  even.
\<close>

definition pad_left :: "nat \<Rightarrow> string \<Rightarrow> string" where
  "pad_left n s = replicate (n - length s) (CHR '' '') @ s"

definition pad_right :: "nat \<Rightarrow> string \<Rightarrow> string" where
  "pad_right n s = s @ replicate (n - length s) (CHR '' '')"

definition print_fixed :: "nat \<Rightarrow> rat \<Rightarrow> string" where
  "print_fixed k x =
     (let m = nat (round_even (\<bar>x\<bar> * 10 ^ k)); d = nat_str (m mod 10 ^ k)
      in (if x < 0 then ''-'' else '''') @ nat_str (m div 10 ^ k) @
         (if k = 0 then '''' else ''.'' @ replicate (k - length d) (CHR ''0'') @ d))"

lemma length_pad: "length (pad_left n s) = max n (length s)" "length (pad_right n s) = max n (length s)"
  by (simp_all add: pad_left_def pad_right_def)

end
