(* ===== verification/Tui_Render.thy ===== *)
theory Tui_Render
  imports Tui C_Format
begin

text \<open>
  The frames the interface draws, \<open>src/ui/tui.c\<close>.  A frame is the sequence of calls to ncurses it
  makes, in order; the size of the screen, which \<open>getmaxyx\<close> gives, is an argument.  The frame
  functions also move cursors and scroll positions into range, talk to the plugins, and build
  the tree that key handling refers to.
\<close>

section \<open>Calls\<close>

datatype attr = Color_pair nat | Bold | Underline

datatype corner = ACS_ULCORNER | ACS_URCORNER | ACS_LLCORNER | ACS_LRCORNER

datatype colour = COLOR_CYAN | COLOR_GREEN | COLOR_YELLOW | COLOR_RED | COLOR_MAGENTA | COLOR_BLUE | COLOR_WHITE | Default_colour

datatype curses = Attron "attr list" | Attroff "attr list" | Mvprintw int int string | Mvhline int int char int |
  Mvvline int int char int | Mvaddch int int char | Mvaddacs int int corner | Erase | Refresh |
  Initscr | Start_color | Use_default_colors | Cbreak | Noecho | Keypad bool | Nodelay bool | Curs_set int |
  Init_pair nat colour colour | Endwin

definition CP_ACCENT :: nat where "CP_ACCENT = 1"
definition CP_HEALTH_GOOD :: nat where "CP_HEALTH_GOOD = 2"
definition CP_HEALTH_DEGRADED :: nat where "CP_HEALTH_DEGRADED = 3"
definition CP_HEALTH_POOR :: nat where "CP_HEALTH_POOR = 4"
definition CP_HEALTH_CRITICAL :: nat where "CP_HEALTH_CRITICAL = 5"
definition CP_HEALTH_UNREACHABLE :: nat where "CP_HEALTH_UNREACHABLE = 6"
definition CP_CTRL_PLANE :: nat where "CP_CTRL_PLANE = 7"
definition CP_HIGHLIGHT :: nat where "CP_HIGHLIGHT = 8"

definition nsr_tui_init :: "curses list" where
  "nsr_tui_init =
     [Initscr, Start_color, Use_default_colors, Cbreak, Noecho, Keypad True, Nodelay True, Curs_set 0,
      Init_pair CP_ACCENT COLOR_CYAN Default_colour, Init_pair CP_HEALTH_GOOD COLOR_GREEN Default_colour,
      Init_pair CP_HEALTH_DEGRADED COLOR_YELLOW Default_colour, Init_pair CP_HEALTH_POOR COLOR_RED Default_colour,
      Init_pair CP_HEALTH_CRITICAL COLOR_RED Default_colour, Init_pair CP_HEALTH_UNREACHABLE COLOR_MAGENTA Default_colour,
      Init_pair CP_CTRL_PLANE COLOR_BLUE Default_colour, Init_pair CP_HIGHLIGHT COLOR_WHITE COLOR_BLUE]"

definition nsr_tui_cleanup :: "curses list" where
  "nsr_tui_cleanup = [Endwin]"

text \<open>Calls made under an attribute.\<close>

definition under :: "attr list \<Rightarrow> curses list \<Rightarrow> curses list" where
  "under attrs cs = Attron attrs # cs @ [Attroff attrs]"

section \<open>Boxes, footer and message\<close>

text \<open>
  The screen is \<open>(max_y, max_x)\<close>.  The sums that are compared with it are additions of C \<open>int\<close>s, which
  wrap around in \<open>c_int\<close>.
\<close>

type_synonym screen = "int \<times> int"

definition tui_print_clipped :: "screen \<Rightarrow> int \<Rightarrow> int \<Rightarrow> int \<Rightarrow> string \<Rightarrow> curses list" where
  "tui_print_clipped scr y x width txt =
     (case scr of (max_y, max_x) \<Rightarrow>
        if y < 0 \<or> x < 0 \<or> width \<le> 0 then []
        else if y \<ge> max_y \<or> x \<ge> max_x then []
        else let width = (if c_int (x + width) > max_x then max_x - x else width)
             in if width \<le> 0 then [] else [Mvprintw y x (take (nat width) txt)])"

definition draw_box :: "screen \<Rightarrow> int \<Rightarrow> int \<Rightarrow> int \<Rightarrow> int \<Rightarrow> string option \<Rightarrow> curses list" where
  "draw_box scr y x h w title =
     (case scr of (max_y, max_x) \<Rightarrow>
        if y < 0 \<or> x < 0 \<or> h < 1 \<or> w < 1 \<or> y \<ge> max_y \<or> x \<ge> max_x then []
        else let h = (if c_int (y + h) \<ge> max_y then max_y - y - 1 else h);
                 w = (if c_int (x + w) \<ge> max_x then max_x - x - 1 else w)
             in if h < 1 \<or> w < 1 then []
                else under [Color_pair CP_ACCENT]
                  ([Mvhline y x (CHR 0x00) w, Mvhline (y + h) x (CHR 0x00) w, Mvvline y x (CHR 0x00) h, Mvvline y (x + w) (CHR 0x00) h,
                    Mvaddacs y x ACS_ULCORNER, Mvaddacs y (x + w) ACS_URCORNER, Mvaddacs (y + h) x ACS_LLCORNER,
                    Mvaddacs (y + h) (x + w) ACS_LRCORNER] @
                   (case title of None \<Rightarrow> [] | Some t \<Rightarrow> under [Bold] (tui_print_clipped scr y (x + 2) (w - 3) t))))"

text \<open>What the footer shows depends on the plugins: whether one is modal, whether the sniffer is on.\<close>

definition shows_modal :: "nsr_plugin_entry \<Rightarrow> bool" where
  "shows_modal e \<longleftrightarrow>
     pe_enabled e \<and> pe_initialized e \<and> \<not> pe_dead e \<and> pe_last_render_resp e \<noteq> [] \<and>
     (case get_sub (c_text (pe_last_render_resp e)) ''result'' of None \<Rightarrow> False | Some res \<Rightarrow> get_bool res ''is_modal'' = Some True)"

definition sniffer_enabled :: "nsr_plugin_entry list \<Rightarrow> bool" where
  "sniffer_enabled es = foldl (\<lambda>on e. if pe_name e = ''sniffer'' then pe_enabled e else on) False es"

definition key_label :: "nsr_tui_state \<Rightarrow> char \<Rightarrow> string" where
  "key_label tui c = ''['' @ [key_mgr_label_char (ui_keys tui) c] @ '']''"

definition footer_keys :: "nsr_tui_state \<Rightarrow> int \<Rightarrow> bool \<Rightarrow> string" where
  "footer_keys tui max_x sniffer =
     (let k = key_label tui;
          buf = take 511 (k (CHR ''n'') @ '' Normal  '' @ k (CHR ''g'') @ '' Grid  '' @ k (CHR ''m'') @ '' Tools  '' @ k (CHR ''t'') @
                  (if max_x < 110 then '' Tree  '' else '' Tree  [h/j/k/l] Move  [Enter] Focus  '') @
                  k (CHR ''p'') @ '' Freeze  '' @ k (CHR ''q'') @ '' Quit'')
      in if sniffer \<and> max_x - int (length buf) > 50
         then buf @ take (512 - length buf - 1) ''  [a] Inspect settings  [s] Last packet  [f] Sniff'' else buf)"

definition draw_footer :: "nsr_tui_state \<Rightarrow> nsr_plugin_registry option \<Rightarrow> screen \<Rightarrow> curses list" where
  "draw_footer tui plugins scr =
     (case scr of (max_y, max_x) \<Rightarrow>
        if max_y < 1 \<or> max_x < 4 then []
        else let es = (case plugins of None \<Rightarrow> [] | Some reg \<Rightarrow> reg_entries reg);
                 right_w = (if max_x \<ge> 22 then 20 else 0)
             in under [Color_pair CP_HIGHLIGHT]
               (Mvhline (max_y - 1) 0 (CHR '' '') max_x #
                (if list_ex shows_modal es
                 then tui_print_clipped scr (max_y - 1) 2 (max_x - 4)
                        ''[Up/Down] Focus Field  [Left/Right] Protocol  [Enter][Enter] Apply & Close  [Esc] Cancel''
                 else tui_print_clipped scr (max_y - 1) 2 (max_x - right_w - 4) (footer_keys tui max_x (sniffer_enabled es)) @
                      (if right_w > 0
                       then tui_print_clipped scr (max_y - 1) (max_x - right_w) right_w
                              (''['' @ key_label tui (CHR ''d'') @ (if show_dashboard tui then '' Close Settings'' else '' Settings''))
                       else []))))"

definition draw_notice :: "int \<Rightarrow> screen \<Rightarrow> nsr_tui_state \<Rightarrow> curses list \<times> nsr_tui_state" where
  "draw_notice now scr tui =
     (if msg tui = [] \<or> now \<ge> msg_until tui then ([], tui\<lparr>msg := []\<rparr>)
      else case scr of (max_y, max_x) \<Rightarrow>
        let w = int (length (msg tui)) + 4; h = 3;
            w = (if w > max_x then max_x else w); w = (if w < 5 then 5 else w);
            x = (max_x - w) sdiv 2; y = (max_y - h) sdiv 2;
            x = (if x < 0 then 0 else x); y = (if y < 0 then 0 else y)
        in (map (\<lambda>i. Mvhline (y + i) x (CHR '' '') w) [0, 1, 2] @ draw_box scr y x h w None @
            under [Bold] [Mvprintw (y + 1) (x + 2) (take (nat (w - 4)) (msg tui))], tui))"

definition frozen_mark :: "screen \<Rightarrow> curses list" where
  "frozen_mark scr = under [Color_pair CP_HEALTH_CRITICAL, Bold] [Mvprintw 0 (snd scr - 14) ''[FROZEN]'']"

definition health_pair_for_node :: "nsr_topology_node \<Rightarrow> nat" where
  "health_pair_for_node node =
     (let score = nsr_health_score (nd_health node)
      in if score < f32 (15/100) then CP_HEALTH_GOOD
         else if score < f32 (35/100) then CP_HEALTH_DEGRADED
         else if score < f32 (60/100) then CP_HEALTH_POOR
         else if score < f32 (85/100) then CP_HEALTH_CRITICAL
         else CP_HEALTH_UNREACHABLE)"

section \<open>Normal mode\<close>

text \<open>The uptime, computed with big integers of libttak, or why there is none.\<close>

datatype uptime = Uptime string | Mem_fault | Timeline_fault

fun uptime_text :: "uptime \<Rightarrow> string" where
  "uptime_text (Uptime s) = s @ '' s''"
| "uptime_text Mem_fault = ''[MEM_FAULT]''"
| "uptime_text Timeline_fault = ''[TIMELINE_FAULT]''"

definition print_int :: "u32 \<Rightarrow> string" where
  "print_int n = print_lld (sint n)"

definition print_u32 :: "u32 \<Rightarrow> string" where
  "print_u32 n = nat_str (unat n)"

text \<open>The loss of a hop in percent, in binary32.\<close>

definition hop_loss :: "nsr_hop_info \<Rightarrow> rat" where
  "hop_loss h =
     (if hop_sent h \<noteq> 0
      then f32 (f32 (1 - f32 (f32 (of_nat (unat (hop_recv h))) / f32 (of_nat (unat (hop_sent h))))) * 100) else 0)"

definition hop_status :: "int \<Rightarrow> nsr_hop_info \<Rightarrow> curses list" where
  "hop_status row h =
     (let addr = (if hop_addr h \<noteq> [] then hop_addr h else ''Reply Received''); ms = nat_str (unat (hop_rtt_us h) div 1000)
      in if hop_last_status h \<in> {NSR_OBS_REPLY, NSR_OBS_EXCEEDED, NSR_OBS_UNREACH} then
           under [Color_pair CP_HEALTH_GOOD]
             [Mvprintw row 9 (if hop_alias_count h > 0
                then pad_right 21 addr @ '' +'' @ pad_right 2 (nat_str (unat (hop_alias_count h))) @ '' '' @ pad_left 4 ms @ '' ms''
                else pad_right 25 addr @ '' '' @ pad_left 4 ms @ '' ms'')]
         else if hop_last_status h = NSR_OBS_TIMEOUT then
           under [Color_pair CP_HEALTH_CRITICAL] [Mvprintw row 9 ''* * * Request Timed Out'']
         else under [Color_pair CP_HEALTH_DEGRADED] [Mvprintw row 9 ''Probing...''])"

definition hop_annotation :: "int \<Rightarrow> nsr_hop_annotation list \<Rightarrow> int \<Rightarrow> curses list" where
  "hop_annotation row anns i =
     (case List.find (\<lambda>a. an_hop_idx a = i) anns of None \<Rightarrow> [] | Some a \<Rightarrow> [Mvprintw row 56 (an_text a)])"

definition draw_hop_row :: "nsr_hop_annotation list \<Rightarrow> nat \<Rightarrow> nsr_hop_info \<Rightarrow> curses list" where
  "draw_hop_row anns i h =
     (let row = 7 + int i
      in Mvprintw row 4 (pad_left 2 (nat_str i)) #
         (if hop_sent h = 0 then [Mvprintw row 9 ''-'']
          else hop_status row h @
            [Mvprintw row 44 (pad_left 4 (print_u32 (hop_sent h)) @ ''  '' @ pad_left 4 (print_u32 (hop_recv h)) @ ''  '' @
               pad_left 3 (print_fixed 0 (hop_loss h)) @ ''%'')] @
            hop_annotation row anns (int i)))"

text \<open>The rows of the hops, up to the first that would not fit.\<close>

definition draw_hop_rows :: "int \<Rightarrow> nsr_hop_annotation list \<Rightarrow> nsr_hop_info list \<Rightarrow> curses list" where
  "draw_hop_rows max_y anns hops =
     concat (map (\<lambda>i. draw_hop_row anns i (hops ! i)) (takeWhile (\<lambda>i. 7 + int i < max_y - 3) [1..<NSR_MAX_HOPS]))"

definition dashboard :: "screen \<Rightarrow> nsr_tui_state \<Rightarrow> u32 \<Rightarrow> curses list" where
  "dashboard scr tui interval =
     (let w = 50; h = 10; y = (fst scr - h) sdiv 2; x = (snd scr - w) sdiv 2
      in map (\<lambda>i. Mvhline (y + int i) x (CHR '' '') w) [0..<10] @
         draw_box scr y x h w (Some ''SETTINGS DASHBOARD'') @
         under [Bold] [Mvprintw (y + 2) (x + 2) ''Tracer Settings:''] @
         [Mvprintw (y + 4) (x + 2) (''[j/k] Minimum Round Duration (-i): '' @ print_int interval @ '' ms''),
          Mvprintw (y + 6) (x + 2) (''Press '' @ key_label tui (CHR ''d'') @ '' to close'')])"

text \<open>The calls that ask the plugins; without a manager nothing is asked.\<close>

definition ask_hops :: "nsr_hop_info list \<Rightarrow> nat \<Rightarrow> world \<Rightarrow> nsr_hop_annotation list \<times> world" where
  "ask_hops hops n w =
     (case w_plugins w of
        None \<Rightarrow> ([], w)
      | Some reg \<Rightarrow> (case nsr_plugins_render_hops hops n (int NSR_MAX_HOPS) reg of (anns, reg') \<Rightarrow> (anns, w\<lparr>w_plugins := Some reg'\<rparr>)))"

fun plugin_calls :: "drawn \<Rightarrow> curses list" where
  "plugin_calls (Drawn_text y x t pair) = (if pair \<noteq> 0 then under [Color_pair pair] [Mvprintw y x t] else [Mvprintw y x t])"
| "plugin_calls (Drawn_frame py px ph pw pair) =
     map (\<lambda>r. Mvhline (py + int r) px (CHR '' '') pw) [0..<nat ph] @
     under [Color_pair pair]
       [Mvhline py px (CHR 0x00) pw, Mvhline (py + ph - 1) px (CHR 0x00) pw, Mvvline py px (CHR 0x00) ph, Mvvline py (px + pw - 1) (CHR 0x00) ph,
        Mvaddacs py px ACS_ULCORNER, Mvaddacs py (px + pw - 1) ACS_URCORNER, Mvaddacs (py + ph - 1) px ACS_LLCORNER,
        Mvaddacs (py + ph - 1) (px + pw - 1) ACS_LRCORNER]"

definition ask_panels :: "screen \<Rightarrow> world \<Rightarrow> curses list \<times> world" where
  "ask_panels scr w =
     (case w_plugins w of
        None \<Rightarrow> ([], w)
      | Some reg \<Rightarrow>
          (case nsr_plugins_render (current_mode (w_tui w)) (focused_node_id (w_tui w)) (Some (w_topo w))
                  (9, snd scr - 55, fst scr - 12, 38) (fst scr) (snd scr) reg of
             (shown, reg') \<Rightarrow> (concat (map plugin_calls shown), w\<lparr>w_plugins := Some reg'\<rparr>)))"

definition header :: "screen \<Rightarrow> string \<Rightarrow> nsr_tui_state \<Rightarrow> curses list" where
  "header scr title tui =
     Erase # under [Color_pair CP_ACCENT, Bold] [Mvprintw 0 2 title] @ (if frozen tui then frozen_mark scr else [])"

definition render_normal :: "screen \<Rightarrow> uptime \<Rightarrow> nsr_telemetry_state \<Rightarrow> world \<Rightarrow> curses list \<times> world" where
  "render_normal scr up state w =
     (case scr of (max_y, max_x) \<Rightarrow>
      let tui = w_tui w;
          top = header scr ''NSR: the Network Diagnosis Tool'' tui @
            [Mvprintw 0 (max_x - 45) (''INTERVAL: '' @ print_int (tel_interval_ms state) @ '' ms  UPTIME: '' @ uptime_text up)] @
            draw_box scr 2 2 3 (max_x - 5) (Some ''TARGET INFO'') @
            [Mvprintw 3 4 (''DESTINATION: '' @ pad_right 40 (if tel_target_ip state \<noteq> [] then tel_target_ip state else ''Scanning...''))] @
            (if show_stats tui then under [Color_pair CP_HEALTH_GOOD] [Mvprintw 3 (max_x - 30) ''[STATS ACTIVE] SHM RING OK''] else []) @
            draw_box scr 6 2 (max_y - 9) (max_x - 5) (Some ''TRACEROUTE'') @
            under [Underline, Bold] [Mvprintw 7 4 ''HOP  ADDRESS / STATUS          RTT      SENT  RECV  LOSS'']
      in case ask_hops (tel_hops state) NSR_MAX_HOPS w of (anns, w) \<Rightarrow>
         case ask_panels scr w of (panels, w) \<Rightarrow>
           (top @ draw_hop_rows max_y anns (tel_hops state) @ panels @
            (if show_dashboard tui then dashboard scr tui (tel_interval_ms state) else []) @
            draw_footer tui (w_plugins w) scr @ [Refresh], w))"

section \<open>Grid\<close>

text \<open>Cursor and scroll position of the grid, brought into range.\<close>

definition clamp_low :: "int \<Rightarrow> int" where
  "clamp_low c = (if c < 0 then 0 else c)"

definition grid_range :: "screen \<Rightarrow> int \<Rightarrow> nsr_tui_state \<Rightarrow> nsr_tui_state" where
  "grid_range scr n tui =
     (let cols = grid_cols (snd scr); avail_rows = fst scr - 2 - 2;
          rows = (n + cols - 1) sdiv cols; rows = (if rows < 1 then 1 else rows);
          cur = clamp_low (grid_cursor tui); cur = clamp_low (if cur \<ge> n then n - 1 else cur);
          cursor_row = cur sdiv cols;
          scroll = grid_scroll_y tui;
          scroll = (if cursor_row < scroll then cursor_row else scroll);
          scroll = (if cursor_row \<ge> scroll + avail_rows then cursor_row - avail_rows + 1 else scroll);
          scroll = clamp_low scroll;
          scroll = (if rows > avail_rows \<and> scroll > rows - avail_rows then rows - avail_rows else scroll)
      in tui\<lparr>grid_cursor := cur, grid_scroll_y := clamp_low scroll\<rparr>)"

definition grid_cell :: "screen \<Rightarrow> nsr_tui_state \<Rightarrow> int \<Rightarrow> nsr_topology_node \<Rightarrow> curses list" where
  "grid_cell scr tui idx node =
     (let cols = grid_cols (snd scr); avail_rows = fst scr - 2 - 2; row = idx sdiv cols; col = idx smod cols
      in if row < grid_scroll_y tui \<or> row \<ge> grid_scroll_y tui + avail_rows then []
         else let y = 2 + (row - grid_scroll_y tui); x = 2 + col * 14;
                  pair = (if idx = grid_cursor tui then CP_HIGHLIGHT else health_pair_for_node node)
              in under [Color_pair pair]
                   (Mvprintw y x (take 13 (pad_right 12 (nd_addr node))) #
                    (if nd_control_plane node then [Mvaddch y (x + 12) (CHR ''*'')] else [])))"

fun grid_cells :: "screen \<Rightarrow> nsr_tui_state \<Rightarrow> int \<Rightarrow> int \<Rightarrow> nsr_topology_node list \<Rightarrow> curses list" where
  "grid_cells scr tui n idx [] = []"
| "grid_cells scr tui n idx (node # nodes) =
     (if idx \<ge> n then []
      else if \<not> nd_active node then grid_cells scr tui n idx nodes
      else grid_cell scr tui idx node @ grid_cells scr tui n (idx + 1) nodes)"

text \<open>\<open>render_grid\<close> is only called in grid mode, so the total is that of the topology.\<close>

definition render_grid :: "screen \<Rightarrow> world \<Rightarrow> curses list \<times> world" where
  "render_grid scr w =
     (let n = (if current_mode (w_tui w) = NSR_UI_TREE then int (length (w_tree w)) else nsr_topology_active_count (w_topo w));
          top = header scr ''TOPOLOGY GRID'' (w_tui w);
          tui = grid_range scr n (w_tui w);
          cells = grid_cells scr tui n 0 (tp_nodes (w_topo w));
          none = (if n = 0 then [Mvprintw 2 2 ''No nodes discovered yet.''] else [])
      in case ask_panels scr (w\<lparr>w_tui := tui\<rparr>) of (panels, w) \<Rightarrow>
           (top @ cells @ none @ panels @ draw_footer tui (w_plugins w) scr @ [Refresh], w))"

section \<open>Tree\<close>

definition NSR_MAX_TARGETS :: nat where
  "NSR_MAX_TARGETS = 8"

text \<open>
  The targets of the active nodes, in the order of the table, at most eight.  The copy is a string
  for targets of fewer than 47 characters, which the texts of addresses are; a longer one would be
  left without a terminating NUL.
\<close>

definition add_target :: "nsr_topology_node \<Rightarrow> string list \<Rightarrow> string list" where
  "add_target n targets =
     (if \<not> nd_active n then targets
      else if nd_target_ip n \<in> set targets then targets
      else if length targets < NSR_MAX_TARGETS then targets @ [c_strncpy 47 (nd_target_ip n)] else targets)"

definition tree_targets :: "nsr_topology_state \<Rightarrow> string list" where
  "tree_targets topo = fold add_target (tp_nodes topo) []"

text \<open>The nodes of a target, as indices, and the insertion sort by TTL in the array that holds them.\<close>

definition target_nodes :: "nsr_topology_state \<Rightarrow> string \<Rightarrow> nat list" where
  "target_nodes topo t =
     filter (\<lambda>i. nd_active (tp_nodes topo ! i) \<and> nd_target_ip (tp_nodes topo ! i) = t) [0..<length (tp_nodes topo)]"

fun shift_right :: "('a \<Rightarrow> 'b::linorder) \<Rightarrow> 'a \<Rightarrow> nat \<Rightarrow> 'a list \<Rightarrow> 'a list" where
  "shift_right ttl key 0 a = a[0 := key]"
| "shift_right ttl key (Suc j) a = (if ttl (a ! j) > ttl key then shift_right ttl key j (a[Suc j := a ! j]) else a[Suc j := key])"

definition sort_by_ttl :: "('a \<Rightarrow> 'b::linorder) \<Rightarrow> 'a list \<Rightarrow> 'a list" where
  "sort_by_ttl ttl a = fold (\<lambda>i a. shift_right ttl (a ! i) i a) [1..<length a] a"

definition node_ttl :: "nsr_topology_state \<Rightarrow> nat \<Rightarrow> u8" where
  "node_ttl topo i = nd_ttl (tp_nodes topo ! i)"

definition sorted_nodes :: "nsr_topology_state \<Rightarrow> string \<Rightarrow> nat list" where
  "sorted_nodes topo t = sort_by_ttl (node_ttl topo) (target_nodes topo t)"

text \<open>
  The lines of the tree: a title for each target and its nodes, each with the mark of the last of
  its TTL.
\<close>

datatype tree_line = Target string | Node nat bool

definition last_of_ttl :: "nsr_topology_state \<Rightarrow> nat list \<Rightarrow> nat \<Rightarrow> bool" where
  "last_of_ttl topo tn k =
     (let same = (\<lambda>i. node_ttl topo i = node_ttl topo (tn ! k))
      in length (filter same (take k tn)) = length (filter same tn) - 1)"

definition target_lines :: "nsr_topology_state \<Rightarrow> string \<Rightarrow> tree_line list" where
  "target_lines topo t =
     (let tn = sorted_nodes topo t in Target t # map (\<lambda>k. Node (tn ! k) (last_of_ttl topo tn k)) [0..<length tn])"

definition tree_lines :: "nsr_topology_state \<Rightarrow> tree_line list" where
  "tree_lines topo = concat (map (target_lines topo) (tree_targets topo))"

definition line_nodes :: "tree_line list \<Rightarrow> nat list" where
  "line_nodes ls = concat (map (\<lambda>l. case l of Target _ \<Rightarrow> [] | Node i _ \<Rightarrow> [i]) ls)"

definition tree_nodes :: "nsr_topology_state \<Rightarrow> nat list" where
  "tree_nodes topo = take NSR_TOPOLOGY_MAX_NODES (line_nodes (tree_lines topo))"

text \<open>The visible lines with their positions, and the hops made of the visible nodes for the plugins.\<close>

definition tree_visible :: "screen \<Rightarrow> nsr_tui_state \<Rightarrow> tree_line list \<Rightarrow> (nat \<times> tree_line) list" where
  "tree_visible scr tui ls =
     filter (\<lambda>(p, _). int p \<ge> tree_scroll tui \<and> int p < tree_scroll tui + (fst scr - 2 - 2)) (zip [0..<length ls] ls)"

definition temp_hop :: "nsr_topology_node \<Rightarrow> nsr_hop_info" where
  "temp_hop n =
     hop_zero\<lparr>hop_addr := c_strncpy 47 (nd_addr n), hop_rtt_us := word_of_int (trunc_rat (nh_rtt_us (nd_health n))),
       hop_sent := (if nh_sent (nd_health n) > 0 then nh_sent (nd_health n) else 1),
       hop_recv := nh_recv (nd_health n), hop_last_status := NSR_OBS_REPLY\<rparr>"

definition temp_hops :: "nsr_topology_state \<Rightarrow> nat list \<Rightarrow> nsr_hop_info list" where
  "temp_hops topo is = map (\<lambda>i. temp_hop (tp_nodes topo ! i)) (take (NSR_MAX_HOPS - 1) is)"

definition bar :: string where "bar = [CHR 0xE2, CHR 0x94, CHR 0x82, CHR '' '', CHR '' '']"
definition last_branch :: string where
  "last_branch = [CHR 0xE2, CHR 0x94, CHR 0x94, CHR 0xE2, CHR 0x94, CHR 0x80, CHR 0xE2, CHR 0x94, CHR 0x80, CHR '' '']"
definition mid_branch :: string where
  "mid_branch = [CHR 0xE2, CHR 0x94, CHR 0x9C, CHR 0xE2, CHR 0x94, CHR 0x80, CHR 0xE2, CHR 0x94, CHR 0x80, CHR '' '']"

definition tree_prefix :: "nat \<Rightarrow> bool \<Rightarrow> string" where
  "tree_prefix ttl is_last =
     (let depth = min ttl 15
      in concat (replicate (depth - 1) bar) @ (if depth > 0 then (if is_last then last_branch else mid_branch) else []))"

definition node_annotation :: "nsr_hop_info list \<Rightarrow> nsr_hop_annotation list \<Rightarrow> string \<Rightarrow> string option" where
  "node_annotation hops anns addr =
     map_option an_text (List.find (\<lambda>a. an_hop_idx a > 0 \<and> an_hop_idx a < int (length hops) + 1 \<and>
                                         hop_addr (hops ! (nat (an_hop_idx a) - 1)) = addr) anns)"

definition node_label :: "nsr_hop_info list \<Rightarrow> nsr_hop_annotation list \<Rightarrow> int \<Rightarrow> nsr_topology_node \<Rightarrow> string" where
  "node_label hops anns remain n =
     (let label = take 255 ([if nd_control_plane n then CHR ''*'' else CHR '' ''] @ (if nd_is_destination n then ''[DEST] '' else '''') @ nd_addr n @
            ''  rtt:'' @ pad_left 4 (print_fixed 1 (f32 (nh_rtt_us (nd_health n) / 1000))) @
            ''ms loss:'' @ pad_left 3 (print_fixed 0 (f32 (nh_loss_rate (nd_health n) * 100))) @ ''%'');
          label = (case node_annotation hops anns (nd_addr n) of None \<Rightarrow> label | Some t \<Rightarrow> take 255 (label @ ''  '' @ t))
      in take (nat remain) label)"

definition node_line :: "screen \<Rightarrow> nsr_hop_info list \<Rightarrow> nsr_hop_annotation list \<Rightarrow> bool \<Rightarrow> bool \<Rightarrow> int \<Rightarrow> nsr_topology_node \<Rightarrow> curses list" where
  "node_line scr hops anns is_cursor is_last y n =
     (let prefix = tree_prefix (unat (nd_ttl n)) is_last; remain = snd scr - 2 - int (length prefix) - 2;
          remain = (if remain < 10 then 10 else remain)
      in under [Color_pair (if is_cursor then CP_HIGHLIGHT else health_pair_for_node n)]
           [Mvprintw y 2 (prefix @ node_label hops anns remain n)])"

definition tree_row :: "screen \<Rightarrow> nsr_tui_state \<Rightarrow> nsr_topology_state \<Rightarrow> nsr_hop_info list \<Rightarrow> nsr_hop_annotation list \<Rightarrow>
    tree_line list \<Rightarrow> nat \<times> tree_line \<Rightarrow> curses list" where
  "tree_row scr tui topo hops anns ls pl =
     (let y = 2 + (int (fst pl) - tree_scroll tui)
      in if y \<ge> fst scr - 2 then []
         else case snd pl of
           Target t \<Rightarrow> under [Color_pair CP_ACCENT, Bold] [Mvprintw y 2 (''# '' @ t)]
         | Node i is_last \<Rightarrow>
             node_line scr hops anns (int (length (line_nodes (take (fst pl) ls))) = tree_cursor tui) is_last y (tp_nodes topo ! i))"

definition tree_range :: "screen \<Rightarrow> int \<Rightarrow> nsr_tui_state \<Rightarrow> nsr_tui_state" where
  "tree_range scr n tui =
     (let avail_rows = fst scr - 2 - 2;
          cur = clamp_low (tree_cursor tui); cur = clamp_low (if cur \<ge> n then n - 1 else cur);
          scroll = tree_scroll tui;
          scroll = (if cur < scroll then cur else scroll);
          scroll = (if cur \<ge> scroll + avail_rows then cur - avail_rows + 1 else scroll)
      in tui\<lparr>tree_cursor := cur, tree_scroll := clamp_low scroll\<rparr>)"

definition render_tree :: "screen \<Rightarrow> world \<Rightarrow> curses list \<times> world" where
  "render_tree scr w =
     (let tui = w_tui w; topo = w_topo w; ls = tree_lines topo; visible = tree_visible scr tui ls;
          top = header scr ''TOPOLOGY TREE'' tui;
          hops = temp_hops topo (line_nodes (map snd visible))
      in case (if hops = [] then ([], w) else ask_hops (hop_zero # hops @ replicate (NSR_MAX_HOPS - 1 - length hops) hop_zero) (length hops + 1) w) of
           (anns, w) \<Rightarrow>
             let rows = concat (map (tree_row scr tui topo hops anns ls) visible);
                 tree = tree_nodes topo;
                 tui = tree_range scr (int (length tree)) tui;
                 none = (if tree = [] then [Mvprintw 2 2 ''No nodes discovered yet.''] else [])
             in case ask_panels scr (w\<lparr>w_tui := tui, w_tree := tree\<rparr>) of
                  (panels, w) \<Rightarrow> (top @ rows @ none @ panels @ draw_footer tui (w_plugins w) scr @ [Refresh], w))"

section \<open>Plugin menu\<close>

definition tools_range :: "int \<Rightarrow> int \<Rightarrow> nsr_tui_state \<Rightarrow> nsr_tui_state" where
  "tools_range avail count tui =
     (let cur = clamp_low (tools_cursor tui); cur = clamp_low (if count > 0 \<and> cur \<ge> count then count - 1 else cur);
          scroll = tools_scroll tui;
          scroll = (if cur < scroll then cur else scroll);
          scroll = (if cur \<ge> scroll + avail then cur - avail + 1 else scroll)
      in tui\<lparr>tools_cursor := cur, tools_scroll := clamp_low scroll\<rparr>)"

definition tools_row :: "nsr_tui_state \<Rightarrow> nsr_plugin_registry \<Rightarrow> int \<Rightarrow> int \<Rightarrow> int \<Rightarrow> curses list" where
  "tools_row tui reg y x i =
     (let idx = i + tools_scroll tui;
          line = [Mvprintw (y + 2 + i) (x + 2) (''['' @ (if nsr_plugins_enabled reg idx then ''x'' else '' '') @ ''] '' @
                    pad_right 30 (case nsr_plugins_name reg idx of None \<Rightarrow> '''' | Some s \<Rightarrow> s))]
      in if idx = tools_cursor tui then under [Color_pair CP_HIGHLIGHT] line else line)"

definition tools_rows :: "nsr_tui_state \<Rightarrow> nsr_plugin_registry option \<Rightarrow> int \<Rightarrow> int \<Rightarrow> int \<Rightarrow> curses list" where
  "tools_rows tui plugins y x h =
     (case plugins of
        None \<Rightarrow> [Mvprintw (y + 2) (x + 2) ''No plugins loaded.'']
      | Some reg \<Rightarrow>
          let count = int (length (reg_entries reg))
          in if count = 0 then [Mvprintw (y + 2) (x + 2) ''No plugins loaded.'']
             else concat (map (tools_row tui reg y x) (takeWhile (\<lambda>i. i + tools_scroll tui < count) (map int [0..<nat (h - 4)]))) @
                  (case nsr_plugins_description reg (tools_cursor tui) of
                     None \<Rightarrow> [] | Some desc \<Rightarrow> under [Bold] [Mvprintw (y + h - 2) (x + 2) (''% '' @ desc)]))"

definition render_tools :: "screen \<Rightarrow> world \<Rightarrow> curses list \<times> world" where
  "render_tools scr w =
     (case scr of (max_y, max_x) \<Rightarrow>
      let h = max_y - 8; h = (if h < 10 then 10 else h); y = (max_y - h) sdiv 2; x = (max_x - 64) sdiv 2;
          tui = tools_range (h - 4) (plugin_count w) (w_tui w)
      in (Erase # under [Color_pair CP_ACCENT, Bold] [Mvprintw 0 2 ''TOOLS MENU''] @
          map (\<lambda>i. Mvhline (y + int i) x (CHR '' '') 64) [0..<nat h] @
          draw_box scr y x h 64 (Some ''PLUGINS'') @
          tools_rows tui (w_plugins w) y x h @
          [Mvprintw (max_y - 3) x ''[j/k] Move  [Enter] Toggle  [Esc/q] Back''] @
          draw_footer tui (w_plugins w) scr @ [Refresh],
          w\<lparr>w_tui := tui\<rparr>))"

section \<open>A frame\<close>

definition nsr_tui_render :: "screen \<Rightarrow> uptime \<Rightarrow> int \<Rightarrow> nsr_telemetry_state \<Rightarrow> world \<Rightarrow> curses list \<times> world" where
  "nsr_tui_render scr up now tel w =
     (if frozen (w_tui w) \<and> current_mode (w_tui w) \<noteq> NSR_UI_TOOLS then (frozen_mark scr @ [Refresh], w)
      else case (case current_mode (w_tui w) of
                   NSR_UI_GRID \<Rightarrow> render_grid scr w
                 | NSR_UI_TREE \<Rightarrow> render_tree scr w
                 | NSR_UI_TOOLS \<Rightarrow> render_tools scr w
                 | NSR_UI_NORMAL \<Rightarrow> render_normal scr up tel w) of
             (calls, w) \<Rightarrow>
               (case draw_notice now scr (w_tui w) of (notice, tui) \<Rightarrow> (calls @ notice @ [Refresh], w\<lparr>w_tui := tui\<rparr>)))"

end
