(* ===== verification/Logic.thy ===== *)
theory Logic
  imports Telemetry Shm_Ring Float32
begin

text \<open>
  The logic engine, \<open>src/io/logic.c\<close>: per-hop statistics with aliases, the timeout sweep, the
  adaptive (AIMD) burst size, probe scheduling, and one iteration of \<open>nsr_logic_run\<close>.

  The file-scope variables and the locals of the main loop are one record.  \<open>g_addr_cache\<close> is
  cleared at start and never read again in the source, so it is left out.  The clock
  (\<open>ttak_get_tick_count_ns () / 1000\<close>, from a submodule) and \<open>inet_ntop\<close> are arguments.
\<close>

section \<open>State\<close>

record nsr_pacing =
  current_burst :: u32
  max_burst :: u32
  min_burst :: u32
  last_adjust_us :: u64
  last_sent :: u32
  last_recv :: u32
  ewma_loss :: rat

definition g_pacing_init :: nsr_pacing where
  "g_pacing_init = \<lparr>current_burst = 28, max_burst = 64, min_burst = 1,
     last_adjust_us = 0, last_sent = 0, last_recv = 0, ewma_loss = 0\<rparr>"

record logic =
  g_state :: nsr_telemetry_state
  g_paused :: bool
  g_last_recv_us :: "u64 list"
  g_pacing :: nsr_pacing
  current_ttl :: u8
  current_seq :: u16
  last_probe_us :: u64
  last_tui_us :: u64

section \<open>Functions\<close>

definition handle_sigusr1 :: "logic \<Rightarrow> logic" where
  "handle_sigusr1 st = st\<lparr>g_paused := \<not> g_paused st\<rparr>"

definition compute_integrity_fast :: "u8 \<Rightarrow> u16 \<Rightarrow> u64" where
  "compute_integrity_fast ttl seq = push_bit 16 (ucast ttl) OR ucast seq"

text \<open>\<open>ntop is_v6 bytes\<close> stands for \<open>inet_ntop\<close>; IPv4 passes the first 4 of the 16 bytes.\<close>

definition addr_bin_to_str :: "(bool \<Rightarrow> u8 list \<Rightarrow> string) \<Rightarrow> u8 list \<Rightarrow> bool \<Rightarrow> string" where
  "addr_bin_to_str ntop addr_bin is_v6 =
     (if is_v6 then ntop True addr_bin else ntop False (take 4 addr_bin))"

fun alias_index :: "nsr_hop_alias list \<Rightarrow> string \<Rightarrow> nat option" where
  "alias_index [] addr_str = None"
| "alias_index (a # as) addr_str =
     (if al_addr a = addr_str then Some 0 else map_option Suc (alias_index as addr_str))"

fun least_alias :: "nsr_hop_alias list \<Rightarrow> nat \<Rightarrow> u32 \<Rightarrow> nat \<Rightarrow> nat" where
  "least_alias [] i min_recv min_idx = min_idx"
| "least_alias (a # as) i min_recv min_idx =
     (if al_recv a < min_recv then least_alias as (Suc i) (al_recv a) i
      else least_alias as (Suc i) min_recv min_idx)"

definition set_alias :: "nsr_hop_info \<Rightarrow> nat \<Rightarrow> nsr_hop_alias \<Rightarrow> nsr_hop_info" where
  "set_alias h i a = h\<lparr>hop_aliases := (hop_aliases h)[i := a]\<rparr>"

definition add_or_update_alias :: "nsr_hop_info \<Rightarrow> string \<Rightarrow> nsr_hop_info" where
  "add_or_update_alias h addr_str =
     (if hop_addr h = [] then h\<lparr>hop_addr := c_strncpy 47 addr_str, hop_primary_recv := 1\<rparr>
      else if hop_addr h = addr_str then h\<lparr>hop_primary_recv := hop_primary_recv h + 1\<rparr>
      else case alias_index (live_aliases h) addr_str of
        Some i \<Rightarrow> set_alias h i ((hop_aliases h ! i)\<lparr>al_recv := al_recv (hop_aliases h ! i) + 1\<rparr>)
      | None \<Rightarrow>
          if unat (hop_alias_count h) < NSR_MAX_HOP_ALIASES then
            (set_alias h (unat (hop_alias_count h)) \<lparr>al_addr = c_strncpy 47 addr_str, al_recv = 1\<rparr>)
              \<lparr>hop_alias_count := hop_alias_count h + 1\<rparr>
          else
            let min_idx = least_alias (tl (hop_aliases h)) 1 (al_recv (hop_aliases h ! 0)) 0
            in set_alias h min_idx \<lparr>al_addr = c_strncpy 47 addr_str, al_recv = 1\<rparr>)"

definition upd_hop :: "nat \<Rightarrow> (nsr_hop_info \<Rightarrow> nsr_hop_info) \<Rightarrow> logic \<Rightarrow> logic" where
  "upd_hop i f st =
     st\<lparr>g_state := (g_state st)\<lparr>tel_hops := (tel_hops (g_state st))[i := f (tel_hops (g_state st) ! i)]\<rparr>\<rparr>"

text \<open>\<open>now\<close> is the clock read inside the call.\<close>

definition update_state ::
    "(bool \<Rightarrow> u8 list \<Rightarrow> string) \<Rightarrow> u64 \<Rightarrow> u8 \<Rightarrow> nsr_observation \<Rightarrow> logic \<Rightarrow> logic" where
  "update_state ntop now ttl obs st =
     (if unat ttl \<ge> NSR_MAX_HOPS \<or> ttl = 0 then st
      else if ob_type obs \<in> {NSR_OBS_REPLY, NSR_OBS_EXCEEDED, NSR_OBS_UNREACH} then
        (upd_hop (unat ttl)
           (\<lambda>h. add_or_update_alias
                  (h\<lparr>hop_recv := hop_recv h + 1, hop_rtt_us := ob_rtt_us obs, hop_last_status := ob_type obs\<rparr>)
                  (addr_bin_to_str ntop (ob_addr_bin obs) (ob_is_v6 obs))) st)
          \<lparr>g_last_recv_us := (g_last_recv_us st)[unat ttl := now]\<rparr>
      else if ob_type obs = NSR_OBS_TIMEOUT then
        upd_hop (unat ttl) (\<lambda>h. h\<lparr>hop_last_status := NSR_OBS_TIMEOUT\<rparr>) st
      else st)"

definition sweep_hop :: "u64 \<Rightarrow> u64 \<Rightarrow> u64 \<Rightarrow> nsr_hop_info \<Rightarrow> nsr_hop_info" where
  "sweep_hop now_us start_us last_recv_us h =
     (if hop_sent h = 0 then h
      else if hop_last_status h = NSR_OBS_REPLY \<or> hop_last_status h = NSR_OBS_UNREACH then h
      else let last_activity = (if last_recv_us = 0 then start_us else last_recv_us)
           in if now_us - last_activity > 1500000 then h\<lparr>hop_last_status := NSR_OBS_TIMEOUT\<rparr> else h)"

definition sweep_timeouts :: "u64 \<Rightarrow> logic \<Rightarrow> logic" where
  "sweep_timeouts now_us st =
     fold (\<lambda>i st. upd_hop i (sweep_hop now_us (tel_start_time_us (g_state st)) (g_last_recv_us st ! i)) st)
       [1..<NSR_MAX_HOPS] st"

text \<open>
  \<open>for (i = 1; i < NSR_MAX_HOPS; i++)\<close> over the counters, with 32-bit wrap-around; then the
  pacing decision.  \<open>f32\<close> rounds after each \<open>float\<close> operation and conversion.
\<close>

definition sum_counter :: "(nsr_hop_info \<Rightarrow> u32) \<Rightarrow> logic \<Rightarrow> u32" where
  "sum_counter c st = fold (\<lambda>i acc. acc + c (tel_hops (g_state st) ! i)) [1..<NSR_MAX_HOPS] 0"

definition u32_to_float :: "u32 \<Rightarrow> rat" where
  "u32_to_float w = f32 (of_nat (unat w))"

definition pacing_step :: "u32 \<Rightarrow> u32 \<Rightarrow> nsr_pacing \<Rightarrow> nsr_pacing" where
  "pacing_step delta_sent delta_recv p =
     (let instant_loss = f32 (1 - f32 (u32_to_float delta_recv / u32_to_float delta_sent));
          loss = f32 (f32 (ewma_loss p * f32 (7/10)) + f32 (instant_loss * f32 (3/10)));
          p = p\<lparr>ewma_loss := loss\<rparr>
      in if loss > f32 (35/100) then
           let b = current_burst p * 3 div 4
           in p\<lparr>current_burst := if b < min_burst p then min_burst p else b\<rparr>
         else if loss < f32 (10/100) then
           if current_burst p < max_burst p then p\<lparr>current_burst := current_burst p + 1\<rparr> else p
         else p)"

definition adjust_pacing :: "u64 \<Rightarrow> logic \<Rightarrow> logic" where
  "adjust_pacing now_us st =
     (let p = g_pacing st in
      if now_us - last_adjust_us p < 250000 then st
      else let total_sent = sum_counter hop_sent st;
               total_recv = sum_counter hop_recv st;
               delta_sent = total_sent - last_sent p;
               delta_recv = total_recv - last_recv p;
               p' = p\<lparr>last_sent := total_sent, last_recv := total_recv, last_adjust_us := now_us\<rparr>
           in if delta_sent = 0 then st\<lparr>g_pacing := p'\<rparr>
              else st\<lparr>g_pacing := pacing_step delta_sent delta_recv p'\<rparr>)"

section \<open>One iteration of \<open>nsr_logic_run\<close>\<close>

text \<open>
  The probe loop: each intent takes the current TTL and sequence number, counts as sent, and
  advances both; the TTL wraps from 30 to 1.
\<close>

definition make_intent :: "u64 \<Rightarrow> logic \<Rightarrow> nsr_intent" where
  "make_intent now_us st =
     \<lparr>it_ttl = current_ttl st, it_seq = current_seq st, it_action = 0, it_timestamp_us = now_us,
      it_integrity = compute_integrity_fast (current_ttl st) (current_seq st)\<rparr>"

definition advance_probe :: "logic \<Rightarrow> logic" where
  "advance_probe st =
     (let st = upd_hop (unat (current_ttl st)) (\<lambda>h. h\<lparr>hop_sent := hop_sent h + 1\<rparr>) st;
          ttl = current_ttl st + 1
      in st\<lparr>current_seq := current_seq st + 1, current_ttl := if ttl > 30 then 1 else ttl\<rparr>)"

fun emit_burst :: "u64 \<Rightarrow> nat \<Rightarrow> logic \<Rightarrow> nsr_intent list \<times> logic" where
  "emit_burst now_us 0 st = ([], st)"
| "emit_burst now_us (Suc n) st =
     (case emit_burst now_us n (advance_probe st) of
        (is, st') \<Rightarrow> (make_intent now_us st # is, st'))"

definition MAX_BURST :: u32 where
  "MAX_BURST = 64"

text \<open>
  The head of an iteration: publish the interval, adjust, sweep, and emit a burst unless
  paused or too early.  The result is the list of intents the loop pushes to the gatekeeper,
  empty in the two sleeping branches.
\<close>

definition logic_tick :: "u64 \<Rightarrow> u32 \<Rightarrow> logic \<Rightarrow> nsr_intent list \<times> logic" where
  "logic_tick now_us interval_ms st =
     (let st = st\<lparr>g_state := (g_state st)\<lparr>tel_interval_ms := interval_ms\<rparr>\<rparr>;
          st = sweep_timeouts now_us (adjust_pacing now_us st)
      in if \<not> g_paused st \<and> now_us - last_probe_us st \<ge> ucast interval_ms * 1000 then
           let burst = (if current_burst (g_pacing st) > MAX_BURST then MAX_BURST
                        else current_burst (g_pacing st))
           in case emit_burst now_us (unat burst) st of
                (is, st') \<Rightarrow> (is, st'\<lparr>last_probe_us := now_us\<rparr>)
         else ([], st))"

text \<open>
  Each intent is pushed alone, in a loop that spins while the ring is full.  With no consumer
  running in between, a full ring spins forever: \<open>None\<close>.
\<close>

fun push_intents :: "nsr_intent list \<Rightarrow> nsr_intent nsr_shm_ring \<Rightarrow> nsr_intent nsr_shm_ring option" where
  "push_intents [] l2g = Some l2g"
| "push_intents (i # is) l2g =
     (case nsr_shm_ring_push_batch l2g [i] of
        (True, l2g') \<Rightarrow> push_intents is l2g'
      | (False, _) \<Rightarrow> None)"

text \<open>
  The drain loop: batches of at most 1024 observations until the ring is empty.  The clock is
  read once per observation: \<open>clock k\<close> is what the \<open>k\<close>-th read of the iteration returns.
\<close>

fun apply_observations ::
    "(bool \<Rightarrow> u8 list \<Rightarrow> string) \<Rightarrow> (nat \<Rightarrow> u64) \<Rightarrow> nat \<Rightarrow> nsr_observation list \<Rightarrow> logic \<Rightarrow> logic" where
  "apply_observations ntop clock k [] st = st"
| "apply_observations ntop clock k (ob # obs) st =
     apply_observations ntop clock (Suc k) obs (update_state ntop (clock k) (ob_ttl ob) ob st)"

definition LOGIC_BATCH :: u32 where
  "LOGIC_BATCH = 1024"

text \<open>A non-empty batch shortens the queue, whatever the two ring words hold.\<close>

lemma pop_batch_decreases:
  assumes "fst (nsr_shm_ring_pop_batch r n) \<noteq> []"
  shows "ring_used (snd (nsr_shm_ring_pop_batch r n)) < ring_used r"
proof -
  let ?av = "ring_mask (head r - tail r)"
  let ?c = "if ?av < n then ?av else n"
  have av: "?av \<noteq> 0" using assms by (auto simp: nsr_shm_ring_pop_batch_def Let_def)
  then have r': "nsr_shm_ring_pop_batch r n =
      (ring_read (data r) (tail r) (unat ?c), r\<lparr>tail := ring_mask (tail r + ?c)\<rparr>)"
    by (simp add: nsr_shm_ring_pop_batch_def Let_def)
  with assms have "0 < unat ?c" by (auto simp: ring_read_def)
  moreover have "?c \<le> ?av" by auto
  ultimately show ?thesis
    using ring_used_popped [of ?c r] r' by (auto simp: ring_used_def word_le_nat_alt split: if_splits)
qed

function drain_observations ::
    "(bool \<Rightarrow> u8 list \<Rightarrow> string) \<Rightarrow> (nat \<Rightarrow> u64) \<Rightarrow> nat \<Rightarrow> nsr_observation nsr_shm_ring \<Rightarrow> logic \<Rightarrow>
     nsr_observation nsr_shm_ring \<times> logic" where
  "drain_observations ntop clock k g2l st =
     (case nsr_shm_ring_pop_batch g2l LOGIC_BATCH of
        (obs, g2l') \<Rightarrow>
          if obs = [] then (g2l', st)
          else drain_observations ntop clock (k + length obs) g2l' (apply_observations ntop clock k obs st))"
  by pat_completeness auto
termination drain_observations
proof (relation "measure (\<lambda>(ntop, clock, k, g2l, st). ring_used g2l)", goal_cases)
  case 1
  show ?case by simp
next
  case (2 ntop clock k g2l st obs g2l')
  then show ?case using pop_batch_decreases [of g2l LOGIC_BATCH] by (cases "nsr_shm_ring_pop_batch g2l LOGIC_BATCH") auto
qed

declare drain_observations.simps [simp del]

text \<open>
  \<open>nsr_logic_run\<close>: the state before the loop (the static pacing and \<open>last_tui_us\<close> as the
  program starts with them), and one whole iteration.  \<open>None\<close> stands for the endless spin on a full intent ring or an index outside
  the snapshot ring.
\<close>

definition nsr_logic_init :: "u64 \<Rightarrow> nsr_config \<Rightarrow> logic" where
  "nsr_logic_init now config =
     \<lparr>g_state = telemetry_zero
        \<lparr>tel_target_ip := (if cfg_target_ip config \<noteq> [] then c_strncpy 47 (cfg_target_ip config) else []),
         tel_target_host := (if cfg_target_host config \<noteq> [] then c_strncpy 127 (cfg_target_host config) else []),
         tel_start_time_us := now\<rparr>,
      g_paused = False, g_last_recv_us = replicate NSR_MAX_HOPS 0, g_pacing = g_pacing_init,
      current_ttl = 1, current_seq = 0, last_probe_us = 0, last_tui_us = 0\<rparr>"

definition publish_telemetry ::
    "u64 \<Rightarrow> nsr_telemetry_state nsr_shm_ring_large \<Rightarrow> logic \<Rightarrow>
     (nsr_telemetry_state nsr_shm_ring_large \<times> logic) option" where
  "publish_telemetry now_us l2t st =
     (if now_us - last_tui_us st > 16666 then
        case nsr_shm_ring_large_push l2t (g_state st) of
          None \<Rightarrow> None
        | Some (_, l2t') \<Rightarrow> Some (l2t', st\<lparr>last_tui_us := now_us\<rparr>)
      else Some (l2t, st))"

record logic_io =
  io_g2l :: "nsr_observation nsr_shm_ring"
  io_l2g :: "nsr_intent nsr_shm_ring"
  io_l2t :: "nsr_telemetry_state nsr_shm_ring_large"

definition nsr_logic_iteration ::
    "(bool \<Rightarrow> u8 list \<Rightarrow> string) \<Rightarrow> u64 \<Rightarrow> (nat \<Rightarrow> u64) \<Rightarrow> u32 \<Rightarrow> logic_io \<Rightarrow> logic \<Rightarrow> (logic_io \<times> logic) option" where
  "nsr_logic_iteration ntop now_us clock interval_ms io st =
     (case logic_tick now_us interval_ms st of (is, st) \<Rightarrow>
      case push_intents is (io_l2g io) of None \<Rightarrow> None | Some l2g \<Rightarrow>
      case drain_observations ntop clock 0 (io_g2l io) st of (g2l, st) \<Rightarrow>
      case publish_telemetry now_us (io_l2t io) st of None \<Rightarrow> None | Some (l2t, st) \<Rightarrow>
        Some (\<lparr>io_g2l = g2l, io_l2g = l2g, io_l2t = l2t\<rparr>, st))"

section \<open>The address table of a hop\<close>

text \<open>
  Abstractly a hop keeps up to four addresses with the number of answers seen from each: the
  primary address first, then the aliases.
\<close>

definition hop_counts :: "nsr_hop_info \<Rightarrow> (string \<times> u32) list" where
  "hop_counts h = (if hop_addr h = [] then [] else [(hop_addr h, hop_primary_recv h)]) @
     map (\<lambda>a. (al_addr a, al_recv a)) (live_aliases h)"

text \<open>\<open>see_address\<close>: one more answer from \<open>a\<close>; \<open>m\<close> is the alias to replace in a full table.\<close>

definition see_address :: "string \<Rightarrow> nat \<Rightarrow> (string \<times> u32) list \<Rightarrow> (string \<times> u32) list" where
  "see_address a m cs =
     (if a \<in> fst ` set cs then map (\<lambda>(b, c). (b, if b = a then c + 1 else c)) cs
      else if length cs < 4 then cs @ [(a, 1)]
      else cs[Suc m := (a, 1)])"

definition first_least :: "nat \<Rightarrow> u32 list \<Rightarrow> bool" where
  "first_least m cs \<longleftrightarrow> m < length cs \<and> (\<forall>j < length cs. cs ! m \<le> cs ! j) \<and> (\<forall>j < m. cs ! m < cs ! j)"

lemma map_fst_hop_counts: "map fst (hop_counts h) = hop_addrs h"
  by (simp add: hop_counts_def hop_addrs_def)

lemma alias_index_None: "alias_index as a = None \<longleftrightarrow> a \<notin> al_addr ` set as"
  by (induction as) auto

lemma alias_index_Some:
  "alias_index as a = Some i \<Longrightarrow> i < length as \<and> al_addr (as ! i) = a"
  by (induction as arbitrary: i) (auto split: if_splits simp: nth_Cons')

lemma least_alias_spec:
  assumes "length pre = i" "k < i" "al_recv (pre ! k) = m"
    and "\<And>j. j < i \<Longrightarrow> m \<le> al_recv (pre ! j)" "\<And>j. j < k \<Longrightarrow> m < al_recv (pre ! j)"
  shows "first_least (least_alias as i m k) (map al_recv (pre @ as))"
  using assms
proof (induction as arbitrary: pre i m k)
  case Nil
  then show ?case by (auto simp: first_least_def)
next
  case (Cons a as)
  show ?case
  proof (cases "al_recv a < m")
    case True
    have lt: "al_recv a < al_recv (pre ! j)" if "j < i" for j
      using True Cons.prems(4) [OF that] by (rule less_le_trans)
    have "first_least (least_alias as (Suc i) (al_recv a) i) (map al_recv ((pre @ [a]) @ as))"
    proof (rule Cons.IH)
      show "al_recv a \<le> al_recv ((pre @ [a]) ! j)" if "j < Suc i" for j
        using that lt [of j] Cons.prems(1) by (cases "j = i") (simp_all add: nth_append)
    qed (use Cons.prems(1) lt in \<open>simp_all add: nth_append\<close>)
    with True show ?thesis by simp
  next
    case False
    have "first_least (least_alias as (Suc i) m k) (map al_recv ((pre @ [a]) @ as))"
      using Cons.prems False
      by (intro Cons.IH) (auto simp: nth_append less_Suc_eq not_less)
    with False show ?thesis by simp
  qed
qed

lemma least_alias_first_least:
  assumes "xs \<noteq> []"
  shows "first_least (least_alias (tl xs) 1 (al_recv (xs ! 0)) 0) (map al_recv xs)"
  using assms least_alias_spec [of "[hd xs]" 1 0 "al_recv (hd xs)" "tl xs"]
  by (simp add: hd_conv_nth [symmetric])

lemma hop_wfD:
  assumes "hop_wf h"
  shows "length (hop_aliases h) = 3" "unat (hop_alias_count h) \<le> 3" "distinct (hop_addrs h)"
    "length (live_aliases h) = unat (hop_alias_count h)"
    "hop_addr h = [] \<Longrightarrow> hop_alias_count h = 0"
  using assms by (auto simp: hop_wf_def live_aliases_def)

lemma map_upd_unique:
  assumes "distinct (map f xs)" "i < length xs" "g (xs ! i) = y"
    and "\<And>x. x \<in> set xs \<Longrightarrow> f x \<noteq> f (xs ! i) \<Longrightarrow> g x = x"
  shows "map g xs = xs[i := y]"
proof (rule nth_equalityI)
  fix j assume "j < length (map g xs)"
  then have j: "j < length xs" by simp
  show "map g xs ! j = xs[i := y] ! j"
  proof (cases "j = i")
    case True with assms j show ?thesis by simp
  next
    case False
    with assms(1,2) j have "f (xs ! j) \<noteq> f (xs ! i)"
      by (metis length_map nth_eq_iff_index_eq nth_map)
    with assms(4) [of "xs ! j"] j False show ?thesis by simp
  qed
qed simp

definition evict_idx :: "nsr_hop_info \<Rightarrow> nat" where
  "evict_idx h = least_alias (tl (hop_aliases h)) 1 (al_recv (hop_aliases h ! 0)) 0"

lemma live_set_alias [simp]:
  "live_aliases (set_alias h i a) = (live_aliases h)[i := a]"
  "hop_addr (set_alias h i a) = hop_addr h"
  "hop_primary_recv (set_alias h i a) = hop_primary_recv h"
  "hop_alias_count (set_alias h i a) = hop_alias_count h"
  "hop_aliases (set_alias h i a) = (hop_aliases h)[i := a]"
  by (simp_all add: live_aliases_def set_alias_def take_update_swap)

lemma live_aliases_cong [simp]:
  "live_aliases (h\<lparr>hop_addr := x\<rparr>) = live_aliases h"
  "live_aliases (h\<lparr>hop_primary_recv := n\<rparr>) = live_aliases h"
  "live_aliases (h\<lparr>hop_recv := n\<rparr>) = live_aliases h"
  "live_aliases (h\<lparr>hop_sent := n\<rparr>) = live_aliases h"
  "live_aliases (h\<lparr>hop_rtt_us := r\<rparr>) = live_aliases h"
  "live_aliases (h\<lparr>hop_last_status := s\<rparr>) = live_aliases h"
  by (simp_all add: live_aliases_def)

lemma live_alias_append:
  assumes "length (hop_aliases h) = 3" "unat (hop_alias_count h) < 3"
  shows "live_aliases ((set_alias h (unat (hop_alias_count h)) a)\<lparr>hop_alias_count := hop_alias_count h + 1\<rparr>)
         = live_aliases h @ [a]"
proof -
  have "unat (hop_alias_count h + 1) = Suc (unat (hop_alias_count h))"
    using assms(2) by (simp add: unat_word_ariths)
  with assms show ?thesis
    by (simp add: live_aliases_def take_Suc_conv_app_nth)
qed

lemma distinct_fst_hop_counts: "hop_wf h \<Longrightarrow> distinct (map fst (hop_counts h))"
  by (simp add: map_fst_hop_counts hop_wfD)

lemma add_or_update_alias_counts:
  assumes wf: "hop_wf h" and a: "a \<noteq> []" "length a \<le> 47"
  shows "hop_counts (add_or_update_alias h a) = see_address a (evict_idx h) (hop_counts h)"
proof -
  note simps = add_or_update_alias_def see_address_def
  consider "hop_addr h = []" | "hop_addr h = a"
    | i where "hop_addr h \<noteq> []" "hop_addr h \<noteq> a" "alias_index (live_aliases h) a = Some i"
    | "hop_addr h \<noteq> []" "hop_addr h \<noteq> a" "alias_index (live_aliases h) a = None"
    by (cases "alias_index (live_aliases h) a") auto
  then show ?thesis
  proof cases
    case 1
    then have "live_aliases h = []" using hop_wfD [OF wf] by (simp add: live_aliases_def)
    with 1 a show ?thesis by (simp add: simps hop_counts_def)
  next
    case 2
    have "map (\<lambda>(b, c). (b, if b = a then c + 1 else c)) (hop_counts h) = (hop_counts h)[0 := (a, hop_primary_recv h + 1)]"
      by (rule map_upd_unique [where f = fst])
         (use 2 a distinct_fst_hop_counts [OF wf] in \<open>auto simp: hop_counts_def\<close>)
    with 2 a show ?thesis by (auto simp: simps hop_counts_def)
  next
    case (3 i)
    then have i: "i < length (live_aliases h)" "al_addr (live_aliases h ! i) = a"
      using alias_index_Some by blast+
    then have nth: "hop_aliases h ! i = live_aliases h ! i" by (simp add: live_aliases_def)
    have "map (\<lambda>(b, c). (b, if b = a then c + 1 else c)) (hop_counts h)
          = (hop_counts h)[Suc i := (a, al_recv (live_aliases h ! i) + 1)]"
      by (rule map_upd_unique [where f = fst])
         (use 3 i a distinct_fst_hop_counts [OF wf] in \<open>auto simp: hop_counts_def\<close>)
    moreover have "a \<in> fst ` set (hop_counts h)"
      using i by (force simp: hop_counts_def image_iff)
    ultimately show ?thesis
      using 3 i by (simp add: simps hop_counts_def nth map_update)
  next
    case 4
    then have new: "a \<notin> fst ` set (hop_counts h)"
      by (force simp: hop_counts_def alias_index_None image_iff)
    have len: "length (hop_counts h) = Suc (unat (hop_alias_count h))"
      using 4 hop_wfD [OF wf] by (simp add: hop_counts_def)
    show ?thesis
    proof (cases "unat (hop_alias_count h) < 3")
      case True
      with 4 new len a show ?thesis
        using live_alias_append [OF hop_wfD(1) [OF wf] True]
        by (simp add: simps hop_counts_def NSR_MAX_HOP_ALIASES_def)
    next
      case False
      with 4 new len a show ?thesis
        by (simp add: simps hop_counts_def NSR_MAX_HOP_ALIASES_def evict_idx_def map_update Let_def)
    qed
  qed
qed

lemma evict_idx_first_least:
  assumes wf: "hop_wf h" and full: "length (hop_counts h) = 4"
  shows "first_least (evict_idx h) (map snd (tl (hop_counts h)))" and "evict_idx h < 3"
proof -
  have "unat (hop_alias_count h) = 3" "hop_addr h \<noteq> []"
    using full hop_wfD [OF wf] by (auto simp: hop_counts_def split: if_splits)
  then have "map snd (tl (hop_counts h)) = map al_recv (hop_aliases h)"
    using hop_wfD [OF wf] by (simp add: hop_counts_def live_aliases_def)
  then show "first_least (evict_idx h) (map snd (tl (hop_counts h)))"
    using hop_wfD(1) [OF wf] least_alias_first_least [of "hop_aliases h"]
    by (cases "hop_aliases h") (simp_all add: evict_idx_def)
  then show "evict_idx h < 3" using full by (simp add: first_least_def)
qed

lemma map_fst_see_address:
  "map fst (see_address a m cs) =
     (if a \<in> set (map fst cs) then map fst cs
      else if length cs < 4 then map fst cs @ [a] else (map fst cs)[Suc m := a])"
  by (auto simp: see_address_def map_update)

lemma add_or_update_alias_shape:
  assumes "hop_wf h" "a \<noteq> []"
  shows "length (hop_aliases (add_or_update_alias h a)) = 3"
    and "unat (hop_alias_count (add_or_update_alias h a)) \<le> 3"
    and "hop_addr (add_or_update_alias h a) \<noteq> []"
  using assms hop_wfD [of h]
  by (auto simp: add_or_update_alias_def NSR_MAX_HOP_ALIASES_def Let_def unat_word_ariths split: option.splits)

lemma hop_wf_add_or_update_alias [intro]:
  assumes "hop_wf h" "a \<noteq> []" "length a \<le> 47"
  shows "hop_wf (add_or_update_alias h a)"
proof -
  have "distinct (map fst (see_address a (evict_idx h) (hop_counts h))) \<and>
        (\<forall>b \<in> set (map fst (see_address a (evict_idx h) (hop_counts h))). b \<noteq> [] \<and> length b \<le> 47)"
    using assms set_update_subset_insert [of "hop_addrs h" "Suc (evict_idx h)" a]
    by (auto simp: map_fst_see_address map_fst_hop_counts hop_wf_def intro!: distinct_list_update)
  with assms add_or_update_alias_shape [of h a] show ?thesis
    unfolding hop_wf_def map_fst_hop_counts [symmetric] add_or_update_alias_counts [OF assms] by simp
qed

section \<open>The invariant of the engine\<close>

text \<open>
  Well-formed telemetry, the arrays at their sizes, the burst within its limits and the next
  TTL in the range the scheduler cycles through.
\<close>

definition pacing_ok :: "nsr_pacing \<Rightarrow> bool" where
  "pacing_ok p \<longleftrightarrow> min_burst p = 1 \<and> max_burst p = 64 \<and> 1 \<le> current_burst p \<and> current_burst p \<le> 64"

definition logic_inv :: "logic \<Rightarrow> bool" where
  "logic_inv st \<longleftrightarrow> telemetry_wf (g_state st) \<and> length (g_last_recv_us st) = 64 \<and>
     pacing_ok (g_pacing st) \<and> 1 \<le> current_ttl st \<and> current_ttl st \<le> 30"

lemma hop_wf_cong [simp]:
  "hop_wf (h\<lparr>hop_primary_recv := n\<rparr>) = hop_wf h"
  "hop_wf (h\<lparr>hop_recv := n\<rparr>) = hop_wf h"
  "hop_wf (h\<lparr>hop_sent := n\<rparr>) = hop_wf h"
  "hop_wf (h\<lparr>hop_rtt_us := r\<rparr>) = hop_wf h"
  "hop_wf (h\<lparr>hop_last_status := s\<rparr>) = hop_wf h"
  by (simp_all add: hop_wf_def hop_addrs_def)

lemma upd_hop_simps [simp]:
  "tel_hops (g_state (upd_hop i f st)) = (tel_hops (g_state st))[i := f (tel_hops (g_state st) ! i)]"
  "tel_start_time_us (g_state (upd_hop i f st)) = tel_start_time_us (g_state st)"
  "tel_target_ip (g_state (upd_hop i f st)) = tel_target_ip (g_state st)"
  "tel_target_host (g_state (upd_hop i f st)) = tel_target_host (g_state st)"
  "tel_interval_ms (g_state (upd_hop i f st)) = tel_interval_ms (g_state st)"
  "g_paused (upd_hop i f st) = g_paused st" "g_last_recv_us (upd_hop i f st) = g_last_recv_us st"
  "g_pacing (upd_hop i f st) = g_pacing st" "current_ttl (upd_hop i f st) = current_ttl st"
  "current_seq (upd_hop i f st) = current_seq st" "last_probe_us (upd_hop i f st) = last_probe_us st"
  "last_tui_us (upd_hop i f st) = last_tui_us st"
  by (simp_all add: upd_hop_def)

lemma telemetry_wf_nth: "telemetry_wf t \<Longrightarrow> i < 64 \<Longrightarrow> hop_wf (tel_hops t ! i)"
  by (simp add: telemetry_wf_def)

lemma telemetry_wf_upd_hop:
  assumes "telemetry_wf (g_state st)" "i < 64 \<Longrightarrow> hop_wf (f (tel_hops (g_state st) ! i))"
  shows "telemetry_wf (g_state (upd_hop i f st))"
proof (cases "i < 64")
  case True
  with assms show ?thesis
    by (auto simp: telemetry_wf_def dest!: set_update_subset_insert [THEN subsetD])
next
  case False
  with assms(1) show ?thesis by (simp add: telemetry_wf_def list_update_beyond)
qed

lemma logic_inv_upd_hop [intro]:
  assumes "logic_inv st" "i < 64 \<Longrightarrow> hop_wf (f (tel_hops (g_state st) ! i))"
  shows "logic_inv (upd_hop i f st)"
  using assms telemetry_wf_upd_hop [of st i f] by (simp add: logic_inv_def)

text \<open>\<open>ntop_ok\<close>: \<open>inet_ntop\<close> writes a non-empty text of at most 45 characters.\<close>

definition ntop_ok :: "(bool \<Rightarrow> u8 list \<Rightarrow> string) \<Rightarrow> bool" where
  "ntop_ok ntop \<longleftrightarrow> (\<forall>v bs. ntop v bs \<noteq> [] \<and> length (ntop v bs) \<le> 45)"

lemma addr_bin_to_str_ok:
  assumes "ntop_ok ntop"
  shows "addr_bin_to_str ntop bs v \<noteq> []" "length (addr_bin_to_str ntop bs v) \<le> 47"
proof -
  have "ntop w cs \<noteq> [] \<and> length (ntop w cs) \<le> 47" for w cs
  proof -
    have "ntop w cs \<noteq> []" "length (ntop w cs) \<le> 45" using assms by (simp_all add: ntop_ok_def)
    then show ?thesis by simp
  qed
  then show "addr_bin_to_str ntop bs v \<noteq> []" "length (addr_bin_to_str ntop bs v) \<le> 47"
    by (simp_all add: addr_bin_to_str_def)
qed

lemma logic_inv_last_recv [simp]: "logic_inv (st\<lparr>g_last_recv_us := (g_last_recv_us st)[i := x]\<rparr>) = logic_inv st"
  by (simp add: logic_inv_def)

lemma logic_inv_last_recv_upd [simp]:
  "(upd_hop j f st)\<lparr>g_last_recv_us := xs\<rparr> = upd_hop j f (st\<lparr>g_last_recv_us := xs\<rparr>)"
  by (simp add: upd_hop_def)

lemma logic_inv_update_state:
  assumes "logic_inv st" "ntop_ok ntop"
  shows "logic_inv (update_state ntop now ttl ob st)"
  using assms addr_bin_to_str_ok [OF assms(2)]
  by (auto simp: update_state_def NSR_MAX_HOPS_def logic_inv_def
      intro!: telemetry_wf_upd_hop hop_wf_add_or_update_alias dest: telemetry_wf_nth)

lemma logic_inv_apply_observations:
  "logic_inv st \<Longrightarrow> ntop_ok ntop \<Longrightarrow> logic_inv (apply_observations ntop clock k obs st)"
  by (induction obs arbitrary: k st) (auto intro: logic_inv_update_state)

lemma logic_inv_drain:
  "logic_inv st \<Longrightarrow> ntop_ok ntop \<Longrightarrow> logic_inv (snd (drain_observations ntop clock k g2l st))"
proof (induction ntop clock k g2l st rule: drain_observations.induct)
  case (1 ntop clock k g2l st)
  obtain obs g2l' where "nsr_shm_ring_pop_batch g2l LOGIC_BATCH = (obs, g2l')" by (cases "nsr_shm_ring_pop_batch g2l LOGIC_BATCH")
  with 1 show ?case
    by (subst drain_observations.simps) (simp add: logic_inv_apply_observations)
qed

lemma hop_wf_sweep_hop [simp]: "hop_wf (sweep_hop now start recv h) = hop_wf h"
  by (simp add: sweep_hop_def Let_def)

definition sweep_one :: "u64 \<Rightarrow> nat \<Rightarrow> logic \<Rightarrow> logic" where
  "sweep_one now_us i st = upd_hop i (sweep_hop now_us (tel_start_time_us (g_state st)) (g_last_recv_us st ! i)) st"

lemma sweep_timeouts_eq: "sweep_timeouts now st = fold (sweep_one now) [1..<64] st"
  by (simp add: sweep_timeouts_def sweep_one_def [abs_def] NSR_MAX_HOPS_def)

lemma sweep_fold_simps:
  "tel_start_time_us (g_state (fold (sweep_one now) js st)) = tel_start_time_us (g_state st)"
  "g_last_recv_us (fold (sweep_one now) js st) = g_last_recv_us st"
  "g_pacing (fold (sweep_one now) js st) = g_pacing st"
  "g_paused (fold (sweep_one now) js st) = g_paused st"
  "current_ttl (fold (sweep_one now) js st) = current_ttl st"
  "current_seq (fold (sweep_one now) js st) = current_seq st"
  "last_probe_us (fold (sweep_one now) js st) = last_probe_us st"
  "last_tui_us (fold (sweep_one now) js st) = last_tui_us st"
  "tel_interval_ms (g_state (fold (sweep_one now) js st)) = tel_interval_ms (g_state st)"
  "length (tel_hops (g_state (fold (sweep_one now) js st))) = length (tel_hops (g_state st))"
  by (induction js arbitrary: st) (simp_all add: sweep_one_def)

lemma sweep_fold_frame:
  "fold (sweep_one now) js st = st\<lparr>g_state := (g_state st)\<lparr>tel_hops := tel_hops (g_state (fold (sweep_one now) js st))\<rparr>\<rparr>"
proof -
  have "\<exists>hs. fold (sweep_one now) js st = st\<lparr>g_state := (g_state st)\<lparr>tel_hops := hs\<rparr>\<rparr>"
  proof (induction js arbitrary: st)
    case Nil
    show ?case by (intro exI [of _ "tel_hops (g_state st)"]) simp
  next
    case (Cons j js)
    obtain hs where "fold (sweep_one now) js (sweep_one now j st) =
        (sweep_one now j st)\<lparr>g_state := (g_state (sweep_one now j st))\<lparr>tel_hops := hs\<rparr>\<rparr>"
      using Cons by blast
    moreover have "(sweep_one now j st)\<lparr>g_state := (g_state (sweep_one now j st))\<lparr>tel_hops := hs\<rparr>\<rparr> =
        st\<lparr>g_state := (g_state st)\<lparr>tel_hops := hs\<rparr>\<rparr>"
      by (simp add: sweep_one_def upd_hop_def)
    ultimately show ?case by auto
  qed
  then show ?thesis by auto
qed

lemmas sweep_timeouts_simps [simp] = sweep_fold_simps [where js = "[1..<64]", folded sweep_timeouts_eq]

lemma sweep_fold_nth:
  assumes "distinct js" "j < length (tel_hops (g_state st))"
  shows "tel_hops (g_state (fold (sweep_one now) js st)) ! j =
     (if j \<in> set js then sweep_hop now (tel_start_time_us (g_state st)) (g_last_recv_us st ! j) (tel_hops (g_state st) ! j)
      else tel_hops (g_state st) ! j)"
  using assms
proof (induction js arbitrary: st)
  case (Cons a js)
  have "tel_hops (g_state (sweep_one now a st)) ! j = tel_hops (g_state st) ! j" if "j \<noteq> a"
    using that by (simp add: sweep_one_def nth_list_update_neq)
  with Cons show ?case by (cases "j = a") (simp_all add: sweep_one_def)
qed simp

lemma logic_inv_sweep:
  assumes "logic_inv st"
  shows "logic_inv (sweep_timeouts now st)"
proof -
  have "\<forall>j < 64. hop_wf (tel_hops (g_state (sweep_timeouts now st)) ! j)"
    using assms telemetry_wf_nth [of "g_state st"]
    by (auto simp: logic_inv_def telemetry_wf_def sweep_timeouts_eq sweep_fold_nth)
  with assms show ?thesis
    by (auto simp: logic_inv_def telemetry_wf_def in_set_conv_nth)
qed

lemma pacing_step_simps [simp]:
  "min_burst (pacing_step ds dr p) = min_burst p" "max_burst (pacing_step ds dr p) = max_burst p"
  by (simp_all add: pacing_step_def Let_def)

lemma pacing_ok_step:
  assumes "pacing_ok p"
  shows "pacing_ok (pacing_step ds dr p)"
proof -
  have b: "1 \<le> unat (current_burst p)" "unat (current_burst p) \<le> 64" "min_burst p = 1" "max_burst p = 64"
    using assms by (auto simp: pacing_ok_def word_le_nat_alt)
  have "unat (current_burst p * 3 div 4) = unat (current_burst p) * 3 div 4"
    using b by (simp add: unat_div_distrib unat_word_ariths)
  then have dec: "current_burst p * 3 div 4 \<le> 64" "current_burst p * 3 div 4 < 1 \<or> 1 \<le> current_burst p * 3 div 4"
    using b by (auto simp: word_le_nat_alt word_less_nat_alt)
  have inc: "current_burst p < 64 \<Longrightarrow> 1 \<le> current_burst p + 1 \<and> current_burst p + 1 \<le> 64"
    using b by (auto simp: word_le_nat_alt word_less_nat_alt unat_word_ariths)
  show ?thesis
    using assms b dec inc by (auto simp: pacing_ok_def pacing_step_def Let_def)
qed

lemma logic_inv_adjust: "logic_inv st \<Longrightarrow> logic_inv (adjust_pacing now st)"
proof -
  assume inv: "logic_inv st"
  have "pacing_ok (p\<lparr>last_sent := a, last_recv := b, last_adjust_us := c\<rparr>) = pacing_ok p"
    "pacing_ok (p\<lparr>last_recv := b, last_adjust_us := c\<rparr>) = pacing_ok p" for p a b c
    by (simp_all add: pacing_ok_def)
  with inv show ?thesis
    by (auto simp: adjust_pacing_def Let_def logic_inv_def intro!: pacing_ok_step)
qed

lemma logic_inv_advance:
  assumes "logic_inv st"
  shows "logic_inv (advance_probe st)"
proof -
  have "1 \<le> current_ttl st + 1" if "current_ttl st + 1 \<le> 30" "current_ttl st \<le> 30"
    using that by (auto simp: word_le_nat_alt unat_word_ariths)
  with assms show ?thesis
    by (auto simp: advance_probe_def Let_def logic_inv_def not_less
        intro!: telemetry_wf_upd_hop dest: telemetry_wf_nth)
qed

lemma logic_inv_emit: "logic_inv st \<Longrightarrow> logic_inv (snd (emit_burst now n st))"
proof (induction n arbitrary: st)
  case (Suc n)
  from Suc.IH [OF logic_inv_advance [OF Suc.prems]] show ?case by (simp add: case_prod_beta)
qed simp

definition tick_state :: "u64 \<Rightarrow> u32 \<Rightarrow> logic \<Rightarrow> logic" where
  "tick_state now ms st = sweep_timeouts now (adjust_pacing now (st\<lparr>g_state := (g_state st)\<lparr>tel_interval_ms := ms\<rparr>\<rparr>))"

text \<open>What one tick emits, and the two reasons for it to emit nothing.\<close>

lemma logic_tick_eq:
  "logic_tick now ms st =
     (let s = tick_state now ms st
      in if g_paused st \<or> now - last_probe_us st < ucast ms * 1000 then ([], s)
         else (fst (emit_burst now (unat (min MAX_BURST (current_burst (g_pacing s)))) s),
               (snd (emit_burst now (unat (min MAX_BURST (current_burst (g_pacing s)))) s))\<lparr>last_probe_us := now\<rparr>))"
proof -
  have "g_paused (tick_state now ms st) = g_paused st" "last_probe_us (tick_state now ms st) = last_probe_us st"
    by (simp_all add: tick_state_def adjust_pacing_def Let_def)
  then show ?thesis
    unfolding logic_tick_def Let_def tick_state_def [symmetric]
    by (auto simp: case_prod_beta min_def not_le not_less)
qed

lemma logic_inv_tick_state: "logic_inv st \<Longrightarrow> logic_inv (tick_state now ms st)"
  unfolding tick_state_def
  by (intro logic_inv_sweep logic_inv_adjust) (simp add: logic_inv_def telemetry_wf_def)

lemma logic_inv_tick: "logic_inv st \<Longrightarrow> logic_inv (snd (logic_tick now ms st))"
  using logic_inv_emit [OF logic_inv_tick_state, of st]
  by (simp add: logic_tick_eq Let_def logic_inv_tick_state) (simp add: logic_inv_def)

section \<open>The probe schedule\<close>

text \<open>
  \<open>probes_sent k\<close>: the engine has emitted \<open>k\<close> probes.  The next TTL, the next sequence
  number and the send counter of every hop are functions of \<open>k\<close> alone: hop \<open>i\<close> has been probed by
  those of the first \<open>k\<close> probes whose TTL is \<open>i\<close>.
\<close>

definition hop_share :: "nat \<Rightarrow> nat \<Rightarrow> nat" where
  "hop_share k i = length (filter (\<lambda>j. j mod 30 + 1 = i) [0..<k])"

lemma hop_share_simps [simp]:
  "hop_share 0 i = 0" "hop_share (Suc k) i = hop_share k i + (if k mod 30 + 1 = i then 1 else 0)"
  by (simp_all add: hop_share_def)

definition probes_sent :: "nat \<Rightarrow> logic \<Rightarrow> bool" where
  "probes_sent k st \<longleftrightarrow> length (tel_hops (g_state st)) = 64 \<and>
     current_ttl st = of_nat (k mod 30 + 1) \<and> current_seq st = of_nat k \<and> sum_counter hop_sent st = of_nat k \<and>
     (\<forall>i < 64. hop_sent (tel_hops (g_state st) ! i) = of_nat (hop_share k i))"

definition scheduled_intent :: "u64 \<Rightarrow> nat \<Rightarrow> nsr_intent" where
  "scheduled_intent now k = \<lparr>it_ttl = of_nat (k mod 30 + 1), it_seq = of_nat k, it_action = 0,
     it_timestamp_us = now, it_integrity = of_nat ((k mod 30 + 1) * 65536 + k mod 65536)\<rparr>"

lemma fold_add_sum: "fold (\<lambda>i acc. acc + f i) [m..<n] 0 = (sum f {m..<n} :: u32)"
  by (induction n) (auto simp: atLeastLessThanSuc)

lemma sum_counter_eq: "sum_counter c st = (\<Sum>i \<in> {1..<64}. c (tel_hops (g_state st) ! i))"
  unfolding sum_counter_def NSR_MAX_HOPS_def fold_add_sum ..

lemma sum_counter_upd_hop:
  assumes "length (tel_hops (g_state st)) = 64" "1 \<le> i" "i < 64"
    and "c (f (tel_hops (g_state st) ! i)) = c (tel_hops (g_state st) ! i) + d"
  shows "sum_counter c (upd_hop i f st) = sum_counter c st + d"
proof -
  let ?h = "tel_hops (g_state st)"
  have i: "i \<in> {1..<64}" using assms by simp
  have "(\<Sum>j \<in> {1..<64} - {i}. c (?h[i := f (?h ! i)] ! j)) = (\<Sum>j \<in> {1..<64} - {i}. c (?h ! j))"
    by (rule sum.cong) (auto simp: nth_list_update_neq)
  then show ?thesis
    using assms sum.remove [OF _ i, of "\<lambda>j. c (?h[i := f (?h ! i)] ! j)"] sum.remove [OF _ i, of "\<lambda>j. c (?h ! j)"]
    by (simp add: sum_counter_eq algebra_simps)
qed

lemma integrity_eq:
  "compute_integrity_fast ttl seq = of_nat (unat ttl * 65536 + unat seq)"
proof -
  have "push_bit 16 (ucast ttl :: u64) AND ucast seq = 0"
    by (rule bit_eqI) (auto simp: bit_simps dest: bit_imp_le_length)
  then have "compute_integrity_fast ttl seq = push_bit 16 (ucast ttl) + ucast seq"
    unfolding compute_integrity_fast_def by (simp add: disjunctive_add_eq_or)
  also have "\<dots> = of_nat (unat ttl * 65536 + unat seq)"
    by (simp add: push_bit_eq_mult)
  finally show ?thesis .
qed

lemma ttl_next:
  "(let t = (of_nat (k mod 30 + 1) :: u8) + 1 in if t > 30 then 1 else t) = of_nat (Suc k mod 30 + 1)"
proof (cases "k mod 30 = 29")
  case True
  then show ?thesis by (simp add: mod_Suc)
next
  case False
  then have "k mod 30 < 29" using mod_less_divisor [of 30 k] by linarith
  then show ?thesis
    by (simp add: mod_Suc word_less_nat_alt unat_word_ariths unat_of_nat)
qed

lemma advance_probe_simps:
  "current_ttl (advance_probe st) = (let t = current_ttl st + 1 in if t > 30 then 1 else t)"
  "current_seq (advance_probe st) = current_seq st + 1"
  "length (tel_hops (g_state (advance_probe st))) = length (tel_hops (g_state st))"
  "sum_counter c (advance_probe st) = sum_counter c (upd_hop (unat (current_ttl st)) (\<lambda>h. h\<lparr>hop_sent := hop_sent h + 1\<rparr>) st)"
  "tel_hops (g_state (advance_probe st)) = (tel_hops (g_state st))
     [unat (current_ttl st) := (tel_hops (g_state st) ! unat (current_ttl st))\<lparr>hop_sent := hop_sent (tel_hops (g_state st) ! unat (current_ttl st)) + 1\<rparr>]"
  by (simp_all add: advance_probe_def Let_def sum_counter_def)

lemma probes_sent_advance:
  assumes "probes_sent k st"
  shows "probes_sent (Suc k) (advance_probe st)" and "make_intent now st = scheduled_intent now k"
proof -
  have ttl: "unat (of_nat (k mod 30 + 1) :: u8) = k mod 30 + 1"
    by (rule unat_of_nat_small) (simp add: less_Suc_eq_le trans_le_add1)
  have r: "1 \<le> k mod 30 + 1" "k mod 30 + 1 < 64" by (simp_all add: less_imp_le)
  have cur: "unat (current_ttl st) = k mod 30 + 1" using assms ttl by (simp add: probes_sent_def)
  have "hop_sent (tel_hops (g_state (advance_probe st)) ! i) = of_nat (hop_share (Suc k) i)" if "i < 64" for i
    using assms that unfolding advance_probe_simps(5) cur
    by (cases "i = k mod 30 + 1") (simp_all add: probes_sent_def nth_list_update add.commute)
  then show "probes_sent (Suc k) (advance_probe st)"
    using assms ttl r ttl_next [of k]
      sum_counter_upd_hop [where c = hop_sent and d = 1 and st = st and i = "k mod 30 + 1"]
    unfolding probes_sent_def advance_probe_simps(1-4) by (simp add: add.commute)
  show "make_intent now st = scheduled_intent now k"
    using assms ttl by (simp add: probes_sent_def make_intent_def scheduled_intent_def integrity_eq unat_of_nat)
qed

lemma emit_burst_schedule:
  "probes_sent k st \<Longrightarrow> fst (emit_burst now n st) = map (scheduled_intent now) [k..<k + n] \<and>
     probes_sent (k + n) (snd (emit_burst now n st))"
proof (induction n arbitrary: k st)
  case (Suc n)
  from Suc.IH [OF probes_sent_advance(1) [OF Suc.prems]] show ?case
    using probes_sent_advance(2) [OF Suc.prems] upt_conv_Cons [of k "k + Suc n"]
    by (simp add: case_prod_beta)
qed simp

section \<open>Draining and pushing\<close>

lemma apply_observations_append:
  "apply_observations ntop clock k (xs @ ys) st =
     apply_observations ntop clock (k + length xs) ys (apply_observations ntop clock k xs st)"
  by (induction xs arbitrary: k st) simp_all

text \<open>The batch loop leaves the ring empty and has applied every queued observation in order.\<close>

lemma drain_observations_all:
  "ring_inv g2l \<Longrightarrow> ring_contents (fst (drain_observations ntop clock k g2l st)) = [] \<and>
     ring_inv (fst (drain_observations ntop clock k g2l st)) \<and>
     snd (drain_observations ntop clock k g2l st) = apply_observations ntop clock k (ring_contents g2l) st"
proof (induction ntop clock k g2l st rule: drain_observations.induct)
  case (1 ntop clock k g2l st)
  obtain obs g2l' where pop: "nsr_shm_ring_pop_batch g2l LOGIC_BATCH = (obs, g2l')"
    by (cases "nsr_shm_ring_pop_batch g2l LOGIC_BATCH")
  have "fst (nsr_shm_ring_pop_batch g2l LOGIC_BATCH) = take 1024 (ring_contents g2l)"
    "ring_contents (snd (nsr_shm_ring_pop_batch g2l LOGIC_BATCH)) = drop 1024 (ring_contents g2l)"
    "ring_inv (snd (nsr_shm_ring_pop_batch g2l LOGIC_BATCH))"
    using ring.pop_batch [OF "1.prems", of 1024] by (simp_all add: LOGIC_BATCH_def)
  with pop have obs: "obs = take 1024 (ring_contents g2l)"
    and g2l': "ring_contents g2l' = drop 1024 (ring_contents g2l)" "ring_inv g2l'"
    by simp_all
  show ?case
  proof (cases "obs = []")
    case True
    then have "ring_contents g2l = []" using obs by simp
    with True pop g2l' show ?thesis by (subst (1 2 3) drain_observations.simps) simp
  next
    case False
    have "apply_observations ntop clock k (ring_contents g2l) st =
        apply_observations ntop clock (k + length obs) (ring_contents g2l') (apply_observations ntop clock k obs st)"
      unfolding apply_observations_append [symmetric] obs g2l' by simp
    with "1.IH" [OF pop [symmetric] False g2l'(2)] False pop show ?thesis
      by (subst (1 2 3) drain_observations.simps) simp
  qed
qed

lemma push_intents_room:
  assumes "ring_inv r" "ring_used r + length is \<le> 131070"
  shows "\<exists>r'. push_intents is r = Some r' \<and> ring_inv r' \<and> ring_contents r' = ring_contents r @ is"
  using assms
proof (induction "is" arbitrary: r)
  case (Cons i "is")
  obtain ok r1 where push: "nsr_shm_ring_push_batch r [i] = (ok, r1)" by (cases "nsr_shm_ring_push_batch r [i]")
  with ring.push_batch_room [OF Cons.prems(1), of "[i]"] Cons.prems(2)
  have r1: "ok" "ring_contents r1 = ring_contents r @ [i]" "ring_inv r1" by simp_all
  then have "ring_used r1 = Suc (ring_used r)" by (metis length_append_singleton length_ring_contents)
  with Cons.IH [OF r1(3)] Cons.prems(2) r1 push show ?case by simp
qed simp

lemma length_emit_burst: "length (fst (emit_burst now n st)) = n"
  by (induction n arbitrary: st) (simp_all add: case_prod_beta)

lemma length_logic_tick: "length (fst (logic_tick now ms st)) \<le> 64"
proof -
  have "unat (min MAX_BURST b) \<le> unat MAX_BURST" for b by (simp flip: word_le_nat_alt)
  then show ?thesis by (simp add: logic_tick_eq Let_def length_emit_burst MAX_BURST_def)
qed

lemma publish_telemetry_ok:
  assumes "large_inv l2t"
  shows "\<exists>l2t' x. publish_telemetry now l2t st = Some (l2t', st\<lparr>last_tui_us := x\<rparr>) \<and> large_inv l2t'"
proof (cases "now - last_tui_us st > 16666")
  case True
  obtain ok l2t' where push: "nsr_shm_ring_large_push l2t (g_state st) = Some (ok, l2t')" and "large_inv l2t'"
    using large_push_eq [OF assms, of "g_state st"] large_pushed(1) [OF assms, of "g_state st"] assms
      large_used_lt [of l2t] by (cases "large_used l2t = 15") auto
  then show ?thesis using True by (auto simp: publish_telemetry_def)
next
  case False
  with assms show ?thesis
    by (intro exI [of _ l2t] exI [of _ "last_tui_us st"]) (simp add: publish_telemetry_def)
qed

section \<open>Runs of the engine\<close>

text \<open>
  The states the engine can be in, with all intents it has emitted so far.  The contents of
  the three rings are whatever the other processes made of them.
\<close>

inductive logic_reach ::
    "(bool \<Rightarrow> u8 list \<Rightarrow> string) \<Rightarrow> nsr_config \<Rightarrow> nsr_intent list \<Rightarrow> logic \<Rightarrow> bool"
  for ntop config where
  start: "logic_reach ntop config [] (nsr_logic_init now config)"
| iteration: "logic_reach ntop config is st \<Longrightarrow>
    nsr_logic_iteration ntop now_us clock interval_ms io st = Some (io', st') \<Longrightarrow>
    logic_reach ntop config (is @ fst (logic_tick now_us interval_ms st)) st'"
| signal: "logic_reach ntop config is st \<Longrightarrow> logic_reach ntop config is (handle_sigusr1 st)"

lemma nsr_logic_iteration_state:
  assumes "nsr_logic_iteration ntop now clock ms io st = Some (io', st')"
  obtains x where "st' = (snd (drain_observations ntop clock 0 (io_g2l io) (snd (logic_tick now ms st))))\<lparr>last_tui_us := x\<rparr>"
proof -
  let ?s = "snd (drain_observations ntop clock 0 (io_g2l io) (snd (logic_tick now ms st)))"
  have "st' = ?s\<lparr>last_tui_us := now\<rparr> \<or> st' = ?s"
    using assms
    by (auto simp: nsr_logic_iteration_def publish_telemetry_def case_prod_beta split: option.splits if_splits)
  then show ?thesis using that [of now] that [of "last_tui_us ?s"] by auto
qed

lemma logic_inv_init [simp]: "logic_inv (nsr_logic_init now config)"
  using telemetry_wf_zero
  by (simp add: logic_inv_def nsr_logic_init_def g_pacing_init_def pacing_ok_def NSR_MAX_HOPS_def telemetry_wf_def)

lemma logic_reach_inv:
  assumes "logic_reach ntop config is st" "ntop_ok ntop"
  shows "logic_inv st"
  using assms
proof induction
  case (iteration "is" st now clock ms io io' st')
  have "logic_inv (snd (drain_observations ntop clock 0 (io_g2l io) (snd (logic_tick now ms st))))"
    using iteration by (intro logic_inv_drain logic_inv_tick)
  moreover obtain x where "st' = (snd (drain_observations ntop clock 0 (io_g2l io) (snd (logic_tick now ms st))))\<lparr>last_tui_us := x\<rparr>"
    using nsr_logic_iteration_state [OF iteration(2)] by blast
  ultimately show ?case by (simp add: logic_inv_def)
next
  case signal
  then show ?case by (simp add: handle_sigusr1_def logic_inv_def)
qed simp

lemma probes_sent_init: "probes_sent 0 (nsr_logic_init now config)"
proof -
  have "hop_sent (tel_hops (g_state (nsr_logic_init now config)) ! i) = 0" if "i < 64" for i
    using that by (simp add: nsr_logic_init_def telemetry_zero_def hop_zero_def)
  then have "sum_counter hop_sent (nsr_logic_init now config) = 0" "\<forall>i < 64. hop_sent (tel_hops (g_state (nsr_logic_init now config)) ! i) = 0"
    unfolding sum_counter_eq by (simp_all del: sum.cong add: sum.neutral)
  moreover have "length (tel_hops (g_state (nsr_logic_init now config))) = 64" "current_ttl (nsr_logic_init now config) = 1"
    "current_seq (nsr_logic_init now config) = 0"
    by (simp_all add: nsr_logic_init_def telemetry_zero_def)
  ultimately show ?thesis by (simp add: probes_sent_def)
qed

lemma probes_sent_cong:
  assumes "current_ttl st' = current_ttl st" "current_seq st' = current_seq st"
    and "map hop_sent (tel_hops (g_state st')) = map hop_sent (tel_hops (g_state st))"
  shows "probes_sent k st' = probes_sent k st"
proof -
  have len: "length (tel_hops (g_state st')) = length (tel_hops (g_state st))"
    using assms(3) by (metis length_map)
  then have "hop_sent (tel_hops (g_state st') ! i) = hop_sent (tel_hops (g_state st) ! i)"
    if "i < length (tel_hops (g_state st))" for i
    using assms(3) that by (metis nth_map)
  then show ?thesis
    using assms(1,2) len by (auto simp: probes_sent_def sum_counter_eq)
qed

lemma map_hop_sent_upd_hop:
  assumes "\<And>h. hop_sent (f h) = hop_sent h"
  shows "map hop_sent (tel_hops (g_state (upd_hop i f st))) = map hop_sent (tel_hops (g_state st))"
  using assms by (cases "i < length (tel_hops (g_state st))") (simp_all add: map_update list_update_same_conv list_update_beyond)

lemma hop_sent_add_or_update_alias [simp]: "hop_sent (add_or_update_alias h a) = hop_sent h"
  by (auto simp: add_or_update_alias_def set_alias_def Let_def split: option.splits)

lemma probes_sent_update_state: "probes_sent k (update_state ntop now ttl ob st) = probes_sent k st"
proof (rule probes_sent_cong)
  show "map hop_sent (tel_hops (g_state (update_state ntop now ttl ob st))) = map hop_sent (tel_hops (g_state st))"
    unfolding update_state_def by (auto simp: map_hop_sent_upd_hop simp del: upd_hop_simps(1))
qed (simp_all add: update_state_def)

lemma probes_sent_apply: "probes_sent k (apply_observations ntop clock j obs st) = probes_sent k st"
  by (induction obs arbitrary: j st) (simp_all add: probes_sent_update_state)

lemma probes_sent_drain: "probes_sent n (snd (drain_observations ntop clock k g2l st)) = probes_sent n st"
proof (induction ntop clock k g2l st rule: drain_observations.induct)
  case (1 ntop clock k g2l st)
  obtain obs g2l' where "nsr_shm_ring_pop_batch g2l LOGIC_BATCH = (obs, g2l')" by (cases "nsr_shm_ring_pop_batch g2l LOGIC_BATCH")
  with 1 show ?case
    by (subst drain_observations.simps) (simp add: probes_sent_apply)
qed

lemma probes_sent_sweep: "probes_sent k (sweep_timeouts now st) = probes_sent k st"
proof (rule probes_sent_cong)
  have "map hop_sent (tel_hops (g_state (fold (sweep_one now) js st))) = map hop_sent (tel_hops (g_state st))" for js
  proof (induction js arbitrary: st)
    case (Cons j js)
    have "map hop_sent (tel_hops (g_state (sweep_one now j st))) = map hop_sent (tel_hops (g_state st))"
      unfolding sweep_one_def by (rule map_hop_sent_upd_hop) (simp add: sweep_hop_def Let_def)
    with Cons show ?case by simp
  qed simp
  then show "map hop_sent (tel_hops (g_state (sweep_timeouts now st))) = map hop_sent (tel_hops (g_state st))"
    by (simp add: sweep_timeouts_eq)
qed simp_all

lemma probes_sent_adjust: "probes_sent k (adjust_pacing now st) = probes_sent k st"
  by (rule probes_sent_cong) (simp_all add: adjust_pacing_def Let_def)

lemma probes_sent_tick_state:
  assumes "probes_sent k st"
  shows "probes_sent k (tick_state now ms st)"
proof -
  have "probes_sent k (st\<lparr>g_state := (g_state st)\<lparr>tel_interval_ms := ms\<rparr>\<rparr>)"
    using assms by (subst probes_sent_cong [of _ st]) simp_all
  then show ?thesis by (simp add: tick_state_def probes_sent_sweep probes_sent_adjust)
qed

lemma logic_tick_schedule:
  assumes "probes_sent k st"
  obtains n where "fst (logic_tick now ms st) = map (scheduled_intent now) [k..<k + n]"
    and "probes_sent (k + n) (snd (logic_tick now ms st))"
proof -
  let ?s = "tick_state now ms st"
  let ?n = "if g_paused st \<or> now - last_probe_us st < ucast ms * 1000 then 0
            else unat (min MAX_BURST (current_burst (g_pacing ?s)))"
  have upd: "probes_sent j (s'\<lparr>last_probe_us := x\<rparr>) = probes_sent j s'" for j s' x
    by (rule probes_sent_cong) simp_all
  show ?thesis
    using emit_burst_schedule [OF probes_sent_tick_state [OF assms, of now ms], of now ?n]
    by (intro that [of ?n]) (auto simp: logic_tick_eq Let_def upd)
qed

lemma logic_reach_schedule:
  assumes "logic_reach ntop config is st"
  shows "probes_sent (length is) st \<and> (\<forall>k < length is. \<exists>now. is ! k = scheduled_intent now k)"
  using assms
proof induction
  case (start now)
  then show ?case by (simp add: probes_sent_init)
next
  case (iteration "is" st now clock ms io io' st')
  from iteration.IH obtain n where
    n: "fst (logic_tick now ms st) = map (scheduled_intent now) [length is..<length is + n]"
      "probes_sent (length is + n) (snd (logic_tick now ms st))"
    using logic_tick_schedule by blast
  obtain x where "st' = (snd (drain_observations ntop clock 0 (io_g2l io) (snd (logic_tick now ms st))))\<lparr>last_tui_us := x\<rparr>"
    using nsr_logic_iteration_state [OF iteration(2)] by blast
  moreover have "probes_sent j (s'\<lparr>last_tui_us := x\<rparr>) = probes_sent j s'" for j s'
    by (rule probes_sent_cong) simp_all
  ultimately show ?case
    using n iteration.IH by (auto simp: probes_sent_drain nth_append)
next
  case (signal "is" st)
  have "probes_sent k (handle_sigusr1 st) = probes_sent k st" for k
    by (rule probes_sent_cong) (simp_all add: handle_sigusr1_def)
  with signal.IH show ?case by simp
qed

lemma filter_as_upt: "length (filter P xs) = length (filter (\<lambda>j. P (xs ! j)) [0..<length xs])"
proof -
  have "filter P xs = filter P (map (\<lambda>j. xs ! j) [0..<length xs])" by (simp only: map_nth)
  then show ?thesis by (simp only: filter_map length_map comp_def)
qed

lemma reach_hop_share:
  assumes "logic_reach ntop config is st"
  shows "length (filter (\<lambda>p. unat (it_ttl p) = i) is) = hop_share (length is) i"
proof -
  have "unat (it_ttl (is ! j)) = j mod 30 + 1" if "j < length is" for j
  proof -
    have "\<exists>now. is ! j = scheduled_intent now j" using logic_reach_schedule [OF assms] \<open>j < length is\<close> by blast
    then obtain now where "is ! j = scheduled_intent now j" by blast
    moreover have "unat (of_nat (j mod 30 + 1) :: u8) = j mod 30 + 1"
      by (rule unat_of_nat_small) (simp add: less_Suc_eq_le trans_le_add1)
    ultimately show ?thesis by (simp add: scheduled_intent_def)
  qed
  then have "filter (\<lambda>j. unat (it_ttl (is ! j)) = i) [0..<length is] = filter (\<lambda>j. j mod 30 + 1 = i) [0..<length is]"
    by (intro filter_cong) auto
  then show ?thesis unfolding hop_share_def by (subst filter_as_upt) simp
qed

section \<open>The loss estimate and the burst size\<close>

lemma f32_unit: "0 \<le> x \<Longrightarrow> x \<le> 1 \<Longrightarrow> 0 \<le> f32 x \<and> f32 x \<le> 1"
  using f32_nonneg [of x] f32_mono [of x 1] by simp

lemma u32_to_float_mono: "a \<le> b \<Longrightarrow> u32_to_float a \<le> u32_to_float b"
  unfolding u32_to_float_def word_le_nat_alt by (intro f32_mono of_nat_mono)

lemma u32_to_float_0 [simp]: "u32_to_float 0 = 0"
  by (simp add: u32_to_float_def)

lemma u32_to_float_pos: "b \<noteq> 0 \<Longrightarrow> 1 \<le> u32_to_float b"
proof -
  assume "b \<noteq> 0"
  then have "1 \<le> unat b" by (simp add: Suc_le_eq unat_gt_0)
  then have "(of_nat 1 :: rat) \<le> of_nat (unat b)" by (rule of_nat_mono)
  then have "f32 1 \<le> u32_to_float b" unfolding u32_to_float_def by (intro f32_mono) simp
  then show ?thesis by simp
qed

text \<open>The new estimate, and the constants 0.7f, 0.3f, 0.35f and 0.10f.\<close>

definition next_loss :: "rat \<Rightarrow> rat \<Rightarrow> rat" where
  "next_loss e l = f32 (f32 (e * f32 (7/10)) + f32 (l * f32 (3/10)))"

definition instant_loss :: "u32 \<Rightarrow> u32 \<Rightarrow> rat" where
  "instant_loss ds dr = f32 (1 - f32 (u32_to_float dr / u32_to_float ds))"

lemma ewma_pacing_step: "ewma_loss (pacing_step ds dr p) = next_loss (ewma_loss p) (instant_loss ds dr)"
  by (simp add: pacing_step_def next_loss_def instant_loss_def Let_def)

lemma f32_consts:
  "f32 (f32 (7/10)) = f32 (7/10)" "f32 (f32 (3/10)) = f32 (3/10)" "f32 (f32 (7/10) + f32 (3/10)) = 1"
  "0 < f32 (7/10)" "0 < f32 (3/10)"
  by code_simp+

lemma next_loss_mono: "e \<le> e' \<Longrightarrow> l \<le> l' \<Longrightarrow> next_loss e l \<le> next_loss e' l'"
  unfolding next_loss_def
  by (intro f32_mono add_mono) (simp_all add: f32_mono mult_right_mono f32_consts less_imp_le)

lemma next_loss_unit:
  assumes "0 \<le> e" "e \<le> 1" "0 \<le> l" "l \<le> 1"
  shows "0 \<le> next_loss e l" "next_loss e l \<le> 1"
proof -
  have "next_loss 0 0 = 0" "next_loss 1 1 = 1" by (simp_all add: next_loss_def f32_consts)
  with assms next_loss_mono [of 0 e 0 l] next_loss_mono [of e 1 l 1]
  show "0 \<le> next_loss e l" "next_loss e l \<le> 1" by simp_all
qed

lemma instant_loss_unit:
  assumes "dr \<le> ds" "ds \<noteq> 0"
  shows "0 \<le> instant_loss ds dr" "instant_loss ds dr \<le> 1"
proof -
  have "0 \<le> u32_to_float dr / u32_to_float ds" "u32_to_float dr / u32_to_float ds \<le> 1"
    using assms u32_to_float_pos [of ds] u32_to_float_mono [of dr ds] u32_to_float_mono [of 0 dr]
    by (simp_all add: divide_le_eq_1)
  then have "0 \<le> f32 (u32_to_float dr / u32_to_float ds)" "f32 (u32_to_float dr / u32_to_float ds) \<le> 1"
    using f32_unit by blast+
  then show "0 \<le> instant_loss ds dr" "instant_loss ds dr \<le> 1"
    using f32_unit [of "1 - f32 (u32_to_float dr / u32_to_float ds)"] by (simp_all add: instant_loss_def)
qed

text \<open>Under total loss the estimate passes the back-off threshold at the second adjustment.\<close>

lemma total_loss_estimate:
  "0 \<le> e \<Longrightarrow> f32 (3/10) \<le> next_loss e 1"
  "f32 (3/10) \<le> e \<Longrightarrow> f32 (35/100) < next_loss e 1"
proof -
  have *: "next_loss 0 1 = f32 (3/10)" "f32 (35/100) < next_loss (f32 (3/10)) 1" by code_simp+
  show "0 \<le> e \<Longrightarrow> f32 (3/10) \<le> next_loss e 1" using next_loss_mono [of 0 e 1 1] * by simp
  show "f32 (3/10) \<le> e \<Longrightarrow> f32 (35/100) < next_loss e 1"
    using next_loss_mono [of "f32 (3/10)" e 1 1] * by (auto intro: less_le_trans)
qed

lemma instant_total_loss: "instant_loss ds 0 = 1"
  by (simp add: instant_loss_def)

definition back_off :: "nat \<Rightarrow> nat" where
  "back_off b = max 1 (b * 3 div 4)"

lemma back_off_mono: "a \<le> b \<Longrightarrow> back_off a \<le> back_off b"
proof -
  assume "a \<le> b"
  then have "a * 3 div 4 \<le> b * 3 div 4" by (intro div_le_mono) simp
  then show ?thesis by (auto simp: back_off_def max_def)
qed

lemma back_off_funpow_mono: "a \<le> b \<Longrightarrow> (back_off ^^ n) a \<le> (back_off ^^ n) b"
  by (induction n) (simp_all add: back_off_mono)

lemma back_off_12:
  assumes "a \<le> 64"
  shows "(back_off ^^ 12) a = 1"
proof (rule antisym)
  have 12: "12 = Suc (Suc (Suc (Suc (Suc (Suc (Suc (Suc (Suc (Suc (Suc (Suc 0)))))))))))" by simp
  have steps: "back_off 64 = 48" "back_off 48 = 36" "back_off 36 = 27" "back_off 27 = 20" "back_off 20 = 15"
    "back_off 15 = 11" "back_off 11 = 8" "back_off 8 = 6" "back_off 6 = 4" "back_off 4 = 3"
    "back_off 3 = 2" "back_off 2 = 1"
    by (simp_all add: back_off_def)
  have "(back_off ^^ 12) 64 = 1"
    unfolding 12 by (simp only: funpow_Suc_right funpow_0 o_apply steps)
  then show "(back_off ^^ 12) a \<le> 1" using back_off_funpow_mono [OF assms, of 12] by simp
  have "1 \<le> back_off b" for b by (simp add: back_off_def)
  then show "1 \<le> (back_off ^^ 12) a" unfolding 12 by (simp only: funpow.simps o_apply)
qed

lemma burst_backoff:
  assumes "pacing_ok p" "f32 (35/100) < next_loss (ewma_loss p) (instant_loss ds dr)"
  shows "unat (current_burst (pacing_step ds dr p)) = back_off (unat (current_burst p))"
proof -
  have b: "unat (current_burst p) \<le> 64" "min_burst p = 1" using assms(1) by (auto simp: pacing_ok_def word_le_nat_alt)
  have "unat (current_burst p * 3 div 4) = unat (current_burst p) * 3 div 4"
    using b by (simp add: unat_div_distrib unat_word_ariths)
  with b assms(2) show ?thesis
    by (auto simp: pacing_step_def Let_def next_loss_def instant_loss_def word_less_nat_alt max_def back_off_def)
qed

lemma total_loss_run:
  assumes "pacing_ok p" "f32 (3/10) \<le> ewma_loss p"
  defines "q \<equiv> \<lambda>dss. fold (\<lambda>ds. pacing_step ds 0) dss p"
  shows "pacing_ok (q dss) \<and> f32 (3/10) \<le> ewma_loss (q dss) \<and>
     unat (current_burst (q dss)) = (back_off ^^ length dss) (unat (current_burst p))"
proof (induction dss rule: rev_induct)
  case Nil
  then show ?case using assms by simp
next
  case (snoc ds dss)
  have q: "q (dss @ [ds]) = pacing_step ds 0 (q dss)" by (simp add: q_def)
  have hi: "f32 (35/100) < next_loss (ewma_loss (q dss)) (instant_loss ds 0)"
    unfolding instant_total_loss using snoc.IH total_loss_estimate(2) by blast
  have "f32 (3/10) \<le> f32 (35/100)" by (rule f32_mono) simp
  with hi snoc.IH show ?case
    unfolding q by (simp add: pacing_ok_step burst_backoff ewma_pacing_step)
qed

text \<open>
  More answers than probes in a period make the estimate negative, but a period has at most
  \<open>2^32\<close> answers, so the estimate never falls below \<open>- 2^33\<close>; from there 68 adjustments without an answer
  bring it above 0.3.
\<close>

lemma instant_loss_low: "ds \<noteq> 0 \<Longrightarrow> - (2 ^ 32) \<le> instant_loss ds dr"
proof -
  assume ds: "ds \<noteq> 0"
  have c: "f32 (2 ^ 32) = 2 ^ 32" "f32 (- (2 ^ 32)) = - (2 ^ 32)" by code_simp+
  have "unat dr < 2 ^ 32" using unsigned_less [of dr, where ?'a = nat] by simp
  then have "of_nat (unat dr) \<le> (of_nat (2 ^ 32) :: rat)" by (intro of_nat_mono) simp
  then have le: "u32_to_float dr \<le> 2 ^ 32" using f32_mono [of "of_nat (unat dr)" "2 ^ 32"] c by (simp add: u32_to_float_def)
  have "2 ^ 32 * 1 \<le> 2 ^ 32 * u32_to_float ds" using u32_to_float_pos [OF ds] by (intro mult_left_mono) simp_all
  with le have "u32_to_float dr / u32_to_float ds \<le> 2 ^ 32"
    using u32_to_float_pos [OF ds] by (simp add: divide_le_eq)
  then have "f32 (u32_to_float dr / u32_to_float ds) \<le> 2 ^ 32" using f32_mono c by metis
  then have "- (2 ^ 32) \<le> 1 - f32 (u32_to_float dr / u32_to_float ds)" by linarith
  then show ?thesis using f32_mono c unfolding instant_loss_def by metis
qed

lemma next_loss_low: "- (2 ^ 33) \<le> e \<Longrightarrow> - (2 ^ 32) \<le> l \<Longrightarrow> - (2 ^ 33) \<le> next_loss e l"
proof -
  have "- (2 ^ 33) \<le> next_loss (- (2 ^ 33)) (- (2 ^ 32))" by code_simp
  then show "- (2 ^ 33) \<le> e \<Longrightarrow> - (2 ^ 32) \<le> l \<Longrightarrow> - (2 ^ 33) \<le> next_loss e l" using next_loss_mono by (meson order_trans)
qed

lemma loss_step:
  assumes "- (2 ^ k * q) \<le> e" "pow2 (- 126) \<le> q * (3/4)" "f32 (q * (3/4)) = q * (3/4)"
  shows "- (2 ^ k * (q * (3/4))) \<le> next_loss e 1"
proof -
  have c: "0 < f32 (7/10)" "f32 (7/10) \<le> 3/4" "0 \<le> f32 (1 * f32 (3/10))" by code_simp+
  have q: "0 < q" using assms(2) pow2_pos [of "- 126"] by linarith
  have exact: "f32 (- (2 ^ k * (q * (3/4)))) = - (2 ^ k * (q * (3/4)))"
    using f32_scale [OF assms(2), of k] assms(3) by (simp add: f32_minus)
  have "2 ^ k * q * f32 (7/10) \<le> 2 ^ k * q * (3/4)" using c q by (intro mult_left_mono) auto
  moreover have "- (2 ^ k * q) * f32 (7/10) \<le> e * f32 (7/10)" using assms(1) c by (intro mult_right_mono) auto
  ultimately have "- (2 ^ k * (q * (3/4))) \<le> e * f32 (7/10)" unfolding mult.assoc mult_minus_left by linarith
  then have "- (2 ^ k * (q * (3/4))) \<le> f32 (e * f32 (7/10))" using f32_mono exact by metis
  then have "- (2 ^ k * (q * (3/4))) \<le> f32 (e * f32 (7/10)) + f32 (1 * f32 (3/10))" using c by linarith
  then show ?thesis unfolding next_loss_def using f32_mono exact by metis
qed

lemma loss_halves: "- (2 ^ Suc k) \<le> e \<Longrightarrow> - (2 ^ k) \<le> next_loss (next_loss (next_loss e 1) 1) 1"
proof -
  have c: "f32 (2 * (3/4)) = 2 * (3/4)" "f32 (3/2 * (3/4)) = 3/2 * (3/4)" "f32 (9/8 * (3/4)) = 9/8 * (3/4)"
    "pow2 (- 126) \<le> 2 * (3/4)" "pow2 (- 126) \<le> 3/2 * (3/4)" "pow2 (- 126) \<le> 9/8 * (3/4)" by code_simp+
  assume "- (2 ^ Suc k) \<le> e"
  then have "- (2 ^ k * 2) \<le> e" by (simp add: mult.commute)
  then have "- (2 ^ k * (3/2)) \<le> next_loss e 1" using loss_step [of k 2 e] c by simp
  then have "- (2 ^ k * (9/8)) \<le> next_loss (next_loss e 1) 1" using loss_step [of k "3/2"] c by simp
  then have "- (2 ^ k * (27/32)) \<le> next_loss (next_loss (next_loss e 1) 1) 1" using loss_step [of k "9/8"] c by simp
  moreover have "2 ^ k * (27/32) \<le> (2 ^ k :: rat)" by simp
  ultimately show ?thesis by linarith
qed

lemma loss_run: "- (2 ^ k) \<le> e \<Longrightarrow> - 1 \<le> ((\<lambda>e. next_loss e 1) ^^ (3 * k)) e"
proof (induction k arbitrary: e)
  case (Suc k)
  have "3 * Suc k = Suc (Suc (Suc (3 * k)))" by simp
  with Suc.IH [OF loss_halves [OF Suc.prems]] show ?case by (simp only: funpow_Suc_right comp_apply)
qed simp
lemma loss_recovers: "- (2 ^ 33) \<le> e \<Longrightarrow> f32 (3/10) \<le> ((\<lambda>e. next_loss e 1) ^^ 102) e"
proof -
  have c: "f32 (3/10) \<le> next_loss (next_loss (next_loss (- 1) 1) 1) 1" by code_simp
  have three: "102 = Suc (Suc (Suc (3 * 33 :: nat)))" by simp
  assume "- (2 ^ 33) \<le> e"
  then have "- 1 \<le> ((\<lambda>e. next_loss e 1) ^^ (3 * 33)) e" by (rule loss_run)
  then have "next_loss (next_loss (next_loss (- 1) 1) 1) 1 \<le> ((\<lambda>e. next_loss e 1) ^^ 102) e"
    unfolding three funpow.simps(2) comp_apply by (intro next_loss_mono order_refl)
  with c show ?thesis by (rule order_trans)
qed

lemma back_off_many: "a \<le> 64 \<Longrightarrow> 12 \<le> m \<Longrightarrow> (back_off ^^ m) a = 1"
proof -
  assume a: "a \<le> 64" and "12 \<le> m"
  then obtain n where m: "m = n + 12" by (metis add.commute le_Suc_ex)
  have "(back_off ^^ n) 1 = 1" by (induction n) (simp_all add: back_off_def)
  then show ?thesis unfolding m funpow_add comp_apply back_off_12 [OF a] .
qed

text \<open>Once \<open>n\<close> adjustments have lifted the estimate, twelve more bring the burst to 1.\<close>

lemma pacing_total_loss:
  assumes "pacing_ok p" "f32 (3/10) \<le> ((\<lambda>e. next_loss e 1) ^^ n) (ewma_loss p)" "n + 12 \<le> length dss"
  shows "current_burst (fold (\<lambda>delta_sent. pacing_step delta_sent 0) dss p) = 1"
  using assms
proof (induction n arbitrary: p dss)
  case 0
  from total_loss_run [OF 0(1), of dss] 0 back_off_many [of "unat (current_burst p)" "length dss"]
  have "unat (current_burst (fold (\<lambda>delta_sent. pacing_step delta_sent 0) dss p)) = unat (1 :: u32)"
    by (simp add: pacing_ok_def word_le_nat_alt)
  then show ?case by (simp only: word_unat_eq_iff)
next
  case (Suc n)
  obtain d ds where dss: "dss = d # ds" using Suc.prems(3) by (cases dss) auto
  have "ewma_loss (pacing_step d 0 p) = next_loss (ewma_loss p) 1" by (simp add: ewma_pacing_step instant_total_loss)
  then show ?case using Suc.IH [OF pacing_ok_step [OF Suc.prems(1)], of d 0 ds] Suc.prems(2,3)
    by (simp add: dss funpow_Suc_right del: funpow.simps)
qed

text \<open>The pacing of every reachable state; only \<open>adjust_pacing\<close> changes it.\<close>

definition pacing_low :: "nsr_pacing \<Rightarrow> bool" where
  "pacing_low p \<longleftrightarrow> pacing_ok p \<and> - (2 ^ 33) \<le> ewma_loss p"

lemma pacing_low_adjust: "pacing_low (g_pacing st) \<Longrightarrow> pacing_low (g_pacing (adjust_pacing now st))"
proof -
  have eq: "pacing_low (p\<lparr>last_sent := a, last_recv := b, last_adjust_us := c\<rparr>) = pacing_low p"
    "pacing_low (p\<lparr>last_recv := b, last_adjust_us := c\<rparr>) = pacing_low p" for p a b c
    by (simp_all add: pacing_low_def pacing_ok_def)
  have "pacing_low p \<Longrightarrow> ds \<noteq> 0 \<Longrightarrow> pacing_low (pacing_step ds dr p)" for p ds dr
    unfolding pacing_low_def ewma_pacing_step using pacing_ok_step next_loss_low instant_loss_low by blast
  with eq show "pacing_low (g_pacing st) \<Longrightarrow> pacing_low (g_pacing (adjust_pacing now st))"
    by (simp add: adjust_pacing_def Let_def)
qed

lemma g_pacing_apply: "g_pacing (apply_observations ntop clock k obs st) = g_pacing st"
  by (induction obs arbitrary: k st) (simp_all add: update_state_def)

lemma g_pacing_drain: "g_pacing (snd (drain_observations ntop clock k g2l st)) = g_pacing st"
proof (induction ntop clock k g2l st rule: drain_observations.induct)
  case (1 ntop clock k g2l st)
  obtain obs g2l' where "nsr_shm_ring_pop_batch g2l LOGIC_BATCH = (obs, g2l')" by (cases "nsr_shm_ring_pop_batch g2l LOGIC_BATCH")
  with 1 show ?case by (subst drain_observations.simps) (simp add: g_pacing_apply)
qed

lemma g_pacing_emit: "g_pacing (snd (emit_burst now n st)) = g_pacing st"
  by (induction n arbitrary: st) (simp_all add: case_prod_beta advance_probe_def Let_def)

lemma g_pacing_tick: "g_pacing (snd (logic_tick now ms st)) = g_pacing (adjust_pacing now (st\<lparr>g_state := (g_state st)\<lparr>tel_interval_ms := ms\<rparr>\<rparr>))"
  by (simp add: logic_tick_eq Let_def g_pacing_emit tick_state_def)

lemma logic_reach_pacing: "logic_reach ntop config is st \<Longrightarrow> pacing_low (g_pacing st)"
proof (induction rule: logic_reach.induct)
  case (iteration "is" st now clock ms io io' st')
  then obtain x where "st' = (snd (drain_observations ntop clock 0 (io_g2l io) (snd (logic_tick now ms st))))\<lparr>last_tui_us := x\<rparr>"
    using nsr_logic_iteration_state by blast
  with iteration.IH show ?case by (simp add: g_pacing_drain g_pacing_tick pacing_low_adjust)
qed (simp_all add: pacing_low_def pacing_ok_def nsr_logic_init_def g_pacing_init_def handle_sigusr1_def)

section \<open>An example run\<close>

definition ex_ntop :: "bool \<Rightarrow> u8 list \<Rightarrow> string" where
  "ex_ntop v bs = (if v then ''2001:db8::1'' else ''192.0.2.1'')"

definition ex_config :: nsr_config where
  "ex_config = \<lparr>cfg_interval_ms = 1000, cfg_target_ip = ''192.0.2.1'', cfg_target_host = ''example.org''\<rparr>"

definition ex_io :: logic_io where
  "ex_io = \<lparr>io_g2l = ring_zero (\<lambda>_. undefined), io_l2g = ring_zero (\<lambda>_. undefined),
     io_l2t = large_zero (replicate 16 telemetry_zero)\<rparr>"

lemma ntop_ok_ex [simp]: "ntop_ok ex_ntop"
  by (simp add: ntop_ok_def ex_ntop_def)

lemma ex_io_ok [simp]:
  "ring_inv (io_g2l ex_io)" "ring_inv (io_l2g ex_io)" "large_inv (io_l2t ex_io)" "ring_used (io_l2g ex_io) = 0"
  "ring_contents (io_g2l ex_io) = []" "ring_contents (io_l2g ex_io) = []"
  by (simp_all add: ex_io_def)

lemma ex_first_tick: "length (fst (logic_tick 1000000 1000 (nsr_logic_init 0 ex_config))) = 28"
proof -
  let ?st = "nsr_logic_init 0 ex_config"
  have "sum_counter hop_sent ?st = 0" using probes_sent_init [of 0 ex_config] by (simp add: probes_sent_def)
  moreover have "sum_counter c (?st\<lparr>g_state := (g_state ?st)\<lparr>tel_interval_ms := 1000\<rparr>\<rparr>) = sum_counter c ?st" for c
    by (simp add: sum_counter_def)
  moreover have "g_pacing ?st = g_pacing_init" by (simp add: nsr_logic_init_def)
  ultimately have "current_burst (g_pacing (tick_state 1000000 1000 ?st)) = 28"
    by (simp add: tick_state_def adjust_pacing_def Let_def g_pacing_init_def)
  moreover have "\<not> g_paused ?st" "last_probe_us ?st = 0" by (simp_all add: nsr_logic_init_def)
  ultimately show ?thesis
    by (simp add: logic_tick_eq Let_def length_emit_burst MAX_BURST_def min_def)
qed

lemma ex_iteration:
  "\<exists>st. logic_reach ex_ntop ex_config (fst (logic_tick 1000000 1000 (nsr_logic_init 0 ex_config))) st"
proof -
  let ?st = "nsr_logic_init 0 ex_config"
  have "length (fst (logic_tick 1000000 1000 ?st)) \<le> 64" by (rule length_logic_tick)
  then obtain l2g where "push_intents (fst (logic_tick 1000000 1000 ?st)) (io_l2g ex_io) = Some l2g"
    using push_intents_room [of "io_l2g ex_io" "fst (logic_tick 1000000 1000 ?st)"] by auto
  moreover obtain l2t x where "publish_telemetry 1000000 (io_l2t ex_io)
      (snd (drain_observations ex_ntop (\<lambda>_. 0) 0 (io_g2l ex_io) (snd (logic_tick 1000000 1000 ?st)))) = Some (l2t, x)"
    using publish_telemetry_ok [of "io_l2t ex_io"] by (metis ex_io_ok(3))
  ultimately have "nsr_logic_iteration ex_ntop 1000000 (\<lambda>_. 0) 1000 ex_io ?st =
      Some (\<lparr>io_g2l = fst (drain_observations ex_ntop (\<lambda>_. 0) 0 (io_g2l ex_io) (snd (logic_tick 1000000 1000 ?st))),
             io_l2g = l2g, io_l2t = l2t\<rparr>, x)"
    by (simp add: nsr_logic_iteration_def case_prod_beta)
  then have "logic_reach ex_ntop ex_config ([] @ fst (logic_tick 1000000 1000 ?st)) x"
    by (rule logic_reach.iteration [OF logic_reach.start])
  then show ?thesis by auto
qed

section \<open>Properties\<close>

text \<open>
  C6: Over every run of the engine, with any contents of its rings, any clock and any pause
  signals, the \<open>k\<close>-th probe it emits has TTL \<open>k mod 30 + 1\<close>, sequence number
  \<open>k mod 2^16\<close> and integrity tag TTL * 65536 + sequence.  Every hop counts, modulo \<open>2^32\<close>, exactly
  the probes that were sent with its TTL, and these counters add up to the number of probes.
\<close>

theorem logic_probe_schedule:
  assumes "logic_reach ntop config is st" "k < length is"
  shows "unat (it_ttl (is ! k)) = k mod 30 + 1 \<and> unat (it_seq (is ! k)) = k mod 2 ^ 16 \<and>
     unat (it_integrity (is ! k)) = (k mod 30 + 1) * 65536 + k mod 2 ^ 16 \<and>
     (\<forall>i < 64. unat (hop_sent (tel_hops (g_state st) ! i)) = length (filter (\<lambda>p. unat (it_ttl p) = i) is) mod 2 ^ 32) \<and>
     sum_counter hop_sent st = of_nat (length is)"
proof -
  have "length (filter (\<lambda>p. unat (it_ttl p) = i) is) = hop_share (length is) i" for i
    by (rule reach_hop_share [OF assms(1)])
  then have counted: "\<forall>i < 64. unat (hop_sent (tel_hops (g_state st) ! i)) = length (filter (\<lambda>p. unat (it_ttl p) = i) is) mod 2 ^ 32"
    using logic_reach_schedule [OF assms(1)] by (simp add: probes_sent_def unat_of_nat)
  from logic_reach_schedule [OF assms(1)] assms(2) obtain now
    where k: "is ! k = scheduled_intent now k" and n: "probes_sent (length is) st" by blast
  have r: "k mod 30 < 30" "k mod 65536 < 65536" by simp_all
  have "unat (of_nat (k mod 30 + 1) :: u8) = k mod 30 + 1"
    using r by (intro unat_of_nat_small) simp
  moreover have "unat (of_nat ((k mod 30 + 1) * 65536 + k mod 65536) :: u64) = (k mod 30 + 1) * 65536 + k mod 65536"
    using r by (intro unat_of_nat_small) simp
  ultimately show ?thesis
    using n counted unfolding k scheduled_intent_def probes_sent_def by (simp add: unat_of_nat)
qed

theorem logic_probe_schedule_witness:
  "\<exists>is st. logic_reach ex_ntop ex_config is st \<and> 27 < length is \<and> unat (it_ttl (is ! 27)) = 28 \<and>
     unat (it_seq (is ! 27)) = 27 \<and> unat (it_integrity (is ! 27)) = 28 * 65536 + 27 \<and>
     unat (hop_sent (tel_hops (g_state st) ! 28)) = length (filter (\<lambda>p. unat (it_ttl p) = 28) is) mod 2 ^ 32 \<and>
     sum_counter hop_sent st = of_nat (length is)"
proof -
  obtain "is" st where reach: "logic_reach ex_ntop ex_config is st" and len: "27 < length is"
    using ex_iteration ex_first_tick by force
  show ?thesis using logic_probe_schedule [OF reach len] reach len by (intro exI [of _ "is"] exI [of _ st]) simp
qed

text \<open>
  C9: In every reachable state of the engine the telemetry it publishes is well formed (each
  hop has at most three aliases, all its addresses are different, non-empty and fit their
  arrays), the burst size is between 1 and 64, and the next TTL is between 1 and 30.
\<close>

theorem logic_invariant:
  assumes "logic_reach ntop config is st" "ntop_ok ntop"
  shows "logic_inv st"
  using assms by (rule logic_reach_inv)

theorem logic_invariant_witness:
  "\<exists>is st. length is = 28 \<and> logic_reach ex_ntop ex_config is st \<and> ntop_ok ex_ntop \<and> logic_inv st"
proof -
  obtain "is" st where reach: "logic_reach ex_ntop ex_config is st" and len: "length is = 28"
    using ex_iteration ex_first_tick by force
  show ?thesis using logic_invariant [OF reach ntop_ok_ex] reach len by auto
qed

text \<open>
  C18: While the intent ring has room for a burst, an iteration of the engine returns.  It
  appends the intents of this tick to the intent ring in order, consumes every queued
  observation, in order, into the statistics, and leaves the observation ring empty.
\<close>

theorem logic_iteration_progress:
  assumes g2l: "ring_inv (io_g2l io)" and l2g: "ring_inv (io_l2g io)"
    and l2t: "large_inv (io_l2t io)" and room: "ring_used (io_l2g io) + 64 \<le> 131070"
  shows "\<exists>io' st'. nsr_logic_iteration ntop now clock ms io st = Some (io', st') \<and>
     ring_contents (io_l2g io') = ring_contents (io_l2g io) @ fst (logic_tick now ms st) \<and>
     ring_contents (io_g2l io') = [] \<and> ring_inv (io_g2l io') \<and> ring_inv (io_l2g io') \<and> large_inv (io_l2t io') \<and>
     g_state st' = g_state (apply_observations ntop clock 0 (ring_contents (io_g2l io)) (snd (logic_tick now ms st)))"
proof -
  let ?is = "fst (logic_tick now ms st)" and ?st = "snd (logic_tick now ms st)"
  have "length ?is \<le> 64" by (rule length_logic_tick)
  then obtain l2g' where push: "push_intents ?is (io_l2g io) = Some l2g'" "ring_inv l2g'"
      "ring_contents l2g' = ring_contents (io_l2g io) @ ?is"
    using push_intents_room [OF l2g, of ?is] room by auto
  let ?d = "drain_observations ntop clock 0 (io_g2l io) ?st"
  obtain l2t' x where pub: "publish_telemetry now (io_l2t io) (snd ?d) = Some (l2t', (snd ?d)\<lparr>last_tui_us := x\<rparr>)" "large_inv l2t'"
    using publish_telemetry_ok [OF l2t] by blast
  show ?thesis
    using push pub drain_observations_all [OF g2l, of ntop clock 0 ?st]
    by (simp add: nsr_logic_iteration_def case_prod_beta)
qed

theorem logic_iteration_progress_witness:
  "\<exists>io' st'. nsr_logic_iteration ex_ntop 1000000 (\<lambda>_. 0) 1000 ex_io (nsr_logic_init 0 ex_config) = Some (io', st') \<and>
     length (ring_contents (io_l2g io')) = 28 \<and> ring_contents (io_g2l io') = []"
  using logic_iteration_progress [of ex_io ex_ntop 1000000 "\<lambda>_. 0" 1000 "nsr_logic_init 0 ex_config"] ex_first_tick
  by (auto simp del: length_ring_contents)

text \<open>
  C20: The alias table of a hop implements its abstract table of at most four addresses with
  answer counts.  An answer from a known address adds one to its count, a new address is added
  with count one while there is room, and in a full table it replaces the first of the least
  often seen aliases, never the primary address; the result is well formed again.
\<close>

theorem alias_table_refines:
  assumes "hop_wf h" "a \<noteq> []" "length a \<le> 47"
  shows "\<exists>m. hop_counts (add_or_update_alias h a) = see_address a m (hop_counts h) \<and>
     (length (hop_counts h) = 4 \<longrightarrow> first_least m (map snd (tl (hop_counts h)))) \<and>
     hop_wf (add_or_update_alias h a) \<and> a \<in> set (hop_addrs (add_or_update_alias h a))"
proof -
  have "a \<in> set (map fst (hop_counts (add_or_update_alias h a)))"
  proof (cases "a \<in> set (map fst (hop_counts h)) \<or> length (hop_counts h) < 4")
    case True
    then show ?thesis unfolding add_or_update_alias_counts [OF assms] map_fst_see_address by auto
  next
    case False
    moreover have "length (hop_counts h) \<le> 4" using hop_wfD [OF assms(1)] by (simp add: hop_counts_def)
    ultimately have "length (hop_counts h) = 4" by simp
    with False evict_idx_first_least(2) [OF assms(1)] show ?thesis
      unfolding add_or_update_alias_counts [OF assms] map_fst_see_address by (auto intro!: set_update_memI)
  qed
  then have "a \<in> set (hop_addrs (add_or_update_alias h a))" by (simp only: map_fst_hop_counts)
  with assms add_or_update_alias_counts [OF assms] evict_idx_first_least(1) [OF assms(1)]
  show ?thesis
    by (intro exI [of _ "evict_idx h"]) (simp add: hop_wf_add_or_update_alias)
qed

definition ex_hop :: nsr_hop_info where
  "ex_hop = hop_zero\<lparr>hop_addr := ''10.0.0.1'', hop_primary_recv := 9, hop_alias_count := 3,
     hop_aliases := [\<lparr>al_addr = ''10.0.0.2'', al_recv = 4\<rparr>, \<lparr>al_addr = ''10.0.0.3'', al_recv = 2\<rparr>,
                     \<lparr>al_addr = ''10.0.0.4'', al_recv = 2\<rparr>]\<rparr>"

theorem alias_table_refines_witness:
  "hop_wf ex_hop \<and> length (hop_counts ex_hop) = 4 \<and>
   (\<exists>m. hop_counts (add_or_update_alias ex_hop ''10.0.0.5'') = see_address ''10.0.0.5'' m (hop_counts ex_hop) \<and>
     first_least m (map snd (tl (hop_counts ex_hop)))) \<and>
   map fst (hop_counts (add_or_update_alias ex_hop ''10.0.0.5'')) = [''10.0.0.1'', ''10.0.0.2'', ''10.0.0.5'', ''10.0.0.4'']"
proof -
  have wf: "hop_wf ex_hop" by code_simp
  have len: "length (hop_counts ex_hop) = 4" by code_simp
  have res: "map fst (hop_counts (add_or_update_alias ex_hop ''10.0.0.5'')) = [''10.0.0.1'', ''10.0.0.2'', ''10.0.0.5'', ''10.0.0.4'']"
    by code_simp
  show ?thesis using alias_table_refines [OF wf, of "''10.0.0.5''"] len wf res by auto
qed

text \<open>
  C23: The timeout sweep changes nothing but the status of hops 1 to 63, and sets it to
  TIMEOUT exactly for the hops that were probed, whose last status is neither REPLY nor
  UNREACH, and that have been silent for more than 1.5 s since their last answer, or since the
  start when they never answered.  Every other part of the engine's state is as before.
\<close>

theorem sweep_timeouts_exact:
  assumes "length (tel_hops (g_state st)) = 64"
  shows "sweep_timeouts now st = st\<lparr>g_state := (g_state st)\<lparr>tel_hops :=
    map (\<lambda>i. let h = tel_hops (g_state st) ! i;
                 active = (if g_last_recv_us st ! i = 0 then tel_start_time_us (g_state st) else g_last_recv_us st ! i)
             in if 1 \<le> i \<and> hop_sent h \<noteq> 0 \<and> hop_last_status h \<notin> {NSR_OBS_REPLY, NSR_OBS_UNREACH} \<and> 1500000 < now - active
                then h\<lparr>hop_last_status := NSR_OBS_TIMEOUT\<rparr> else h) [0..<64]\<rparr>\<rparr>"
proof -
  have "tel_hops (g_state (sweep_timeouts now st)) = map (\<lambda>i. let h = tel_hops (g_state st) ! i;
      active = (if g_last_recv_us st ! i = 0 then tel_start_time_us (g_state st) else g_last_recv_us st ! i)
      in if 1 \<le> i \<and> hop_sent h \<noteq> 0 \<and> hop_last_status h \<notin> {NSR_OBS_REPLY, NSR_OBS_UNREACH} \<and> 1500000 < now - active
         then h\<lparr>hop_last_status := NSR_OBS_TIMEOUT\<rparr> else h) [0..<64]"
    using assms by (intro nth_equalityI) (auto simp: Let_def sweep_timeouts_eq sweep_fold_simps sweep_fold_nth sweep_hop_def)
  then show ?thesis using sweep_fold_frame [of now "[1..<64]" st] by (simp add: sweep_timeouts_eq)
qed

definition ex_silent :: logic where
  "ex_silent = upd_hop 3 (\<lambda>h. h\<lparr>hop_sent := 5\<rparr>) (upd_hop 4 (\<lambda>h. h\<lparr>hop_sent := 5, hop_last_status := NSR_OBS_REPLY\<rparr>)
     (nsr_logic_init 1000 ex_config))"

theorem sweep_timeouts_exact_witness:
  "hop_last_status (tel_hops (g_state (sweep_timeouts 2000000 ex_silent)) ! 3) = NSR_OBS_TIMEOUT \<and>
   hop_last_status (tel_hops (g_state (sweep_timeouts 2000000 ex_silent)) ! 4) = NSR_OBS_REPLY"
proof -
  have st: "length (tel_hops (g_state ex_silent)) = 64" "g_last_recv_us ex_silent ! 3 = 0" "g_last_recv_us ex_silent ! 4 = 0"
    "tel_start_time_us (g_state ex_silent) = 1000"
    "hop_sent (tel_hops (g_state ex_silent) ! 3) = 5" "hop_last_status (tel_hops (g_state ex_silent) ! 3) = NSR_OBS_NONE"
    "hop_last_status (tel_hops (g_state ex_silent) ! 4) = NSR_OBS_REPLY"
    by (simp_all add: ex_silent_def nsr_logic_init_def telemetry_zero_def hop_zero_def NSR_MAX_HOPS_def nth_replicate)
  show ?thesis
    unfolding sweep_timeouts_exact [OF st(1)] using st by (simp add: Let_def)
qed

text \<open>
  In binary32 arithmetic the smoothed loss estimate stays within 0 and 1: an adjustment
  that saw no more answers than probes maps an estimate in that range to one in that range.
\<close>

lemma loss_estimate_bounds:
  assumes "0 \<le> ewma_loss p" "ewma_loss p \<le> 1" "delta_recv \<le> delta_sent" "delta_sent \<noteq> 0"
  shows "0 \<le> ewma_loss (pacing_step delta_sent delta_recv p) \<and> ewma_loss (pacing_step delta_sent delta_recv p) \<le> 1"
  using next_loss_unit [OF assms(1,2) instant_loss_unit [OF assms(3,4)]] by (simp add: ewma_pacing_step)

text \<open>
  C24: Under total loss the pacing of a running engine backs off to a single probe per interval.
  From every reachable state, 114 consecutive adjustments without an answer bring the burst to 1
  and keep it there; 13 are enough while the loss estimate is not negative.  (It is negative
  after a period with more answers than probes, and then has to recover first.)
\<close>

theorem total_loss_backs_off:
  assumes "logic_reach ntop config is st"
  defines "p \<equiv> \<lambda>dss. fold (\<lambda>delta_sent. pacing_step delta_sent 0) dss (g_pacing st)"
  shows "(114 \<le> length dss \<longrightarrow> current_burst (p dss) = 1) \<and>
     (0 \<le> ewma_loss (g_pacing st) \<longrightarrow> 13 \<le> length dss \<longrightarrow> current_burst (p dss) = 1)"
proof -
  have ok: "pacing_ok (g_pacing st)" and low: "- (2 ^ 33) \<le> ewma_loss (g_pacing st)"
    using logic_reach_pacing [OF assms(1)] by (simp_all add: pacing_low_def)
  show ?thesis
    using pacing_total_loss [OF ok loss_recovers [OF low], of dss] pacing_total_loss [OF ok, of 1 dss] total_loss_estimate(1)
    by (simp add: p_def)
qed

theorem total_loss_backs_off_witness:
  "current_burst (fold (\<lambda>delta_sent. pacing_step delta_sent 0) (replicate 13 28) (g_pacing (nsr_logic_init 0 ex_config))) = 1"
  using total_loss_backs_off [OF logic_reach.start [of ex_ntop ex_config 0], of "replicate 13 28"]
  by (simp add: nsr_logic_init_def g_pacing_init_def)

end
