(* ===== verification/Main_Program.thy ===== *)
theory Main_Program
  imports Tui_Render Logic
begin

text \<open>
  The main process, \<open>src/core/main.c\<close>: paths, options, one session per target, and the loop that
  supervises the child processes, merges their snapshots, feeds the plugins and runs the
  interface.

  What the process does to other processes is a list of actions.  The environment variables, the
  user database, \<open>getopt_long\<close>, \<open>getaddrinfo\<close>, the directories, and the results of \<open>mmap\<close>, \<open>fork\<close> and
  \<open>waitpid\<close> are arguments.
\<close>

section \<open>Paths and plugins\<close>

text \<open>\<open>HOME\<close>, the user id, \<open>SUDO_USER\<close> and the home directories of \<open>getpwnam\<close>.\<close>

record user_env =
  ue_home :: "string option"
  ue_uid :: nat
  ue_sudo_user :: "string option"
  ue_pw_dir :: "string \<Rightarrow> string option"

definition set_text :: "string option \<Rightarrow> string option" where
  "set_text s = (if s = Some [] then None else s)"

definition sudo_home :: "user_env \<Rightarrow> string option" where
  "sudo_home ue =
     (if ue_uid ue = 0
      then case set_text (ue_sudo_user ue) of None \<Rightarrow> None | Some user \<Rightarrow> set_text (ue_pw_dir ue user)
      else None)"

definition nsr_config_path :: "user_env \<Rightarrow> string" where
  "nsr_config_path ue =
     (let home = (case set_text (ue_home ue) of
                    Some home \<Rightarrow> home
                  | None \<Rightarrow> (case sudo_home ue of Some home \<Rightarrow> home | None \<Rightarrow> ''/tmp''))
      in take 255 (home @ ''/.nsrconfig''))"

text \<open>The contents of a directory, \<open>None\<close> when it cannot be opened.\<close>

type_synonym directories = "string \<Rightarrow> dir_entry list option"

definition nsr_plugins_load_from_home ::
    "directories \<Rightarrow> string option \<Rightarrow> string option \<Rightarrow> nsr_plugin_registry \<Rightarrow> nsr_plugin_registry" where
  "nsr_plugins_load_from_home dirs file home reg =
     (case set_text home of
        None \<Rightarrow> reg
      | Some home \<Rightarrow> let dir = take 511 (home @ ''/.nsr/plugins'') in snd (nsr_plugins_load_dir file (dirs dir) dir reg))"

definition nsr_plugins_load_user_dir :: "directories \<Rightarrow> string option \<Rightarrow> user_env \<Rightarrow> nsr_plugin_registry \<Rightarrow> nsr_plugin_registry" where
  "nsr_plugins_load_user_dir dirs file ue reg =
     (let reg = nsr_plugins_load_from_home dirs file (ue_home ue) reg
      in case sudo_home ue of None \<Rightarrow> reg | Some home \<Rightarrow> nsr_plugins_load_from_home dirs file (Some home) reg)"

section \<open>Options\<close>

datatype family = AF_UNSPEC | AF_INET | AF_INET6

text \<open>What \<open>getopt_long\<close> returns, one after the other; \<open>Opt_h\<close> stands for \<open>h\<close> and for an error.\<close>

datatype getopt = Opt_i string | Opt_s | Opt_4 | Opt_6 | Opt_h

record options =
  op_interval_ms :: u32
  op_silent :: bool
  op_family :: family

definition options_default :: options where
  "options_default = \<lparr>op_interval_ms = 100, op_silent = False, op_family = AF_UNSPEC\<rparr>"

definition clamp_interval :: "u32 \<Rightarrow> u32" where
  "clamp_interval ms = (if ms < 10 then 10 else if ms > 1000 then 1000 else ms)"

text \<open>\<open>None\<close>: the usage text and \<open>EXIT_FAILURE\<close>.\<close>

fun read_options :: "getopt list \<Rightarrow> options \<Rightarrow> options option" where
  "read_options [] op = Some op"
| "read_options (Opt_i optarg # gs) op = read_options gs (op\<lparr>op_interval_ms := clamp_interval (atoi optarg)\<rparr>)"
| "read_options (Opt_s # gs) op = read_options gs (op\<lparr>op_silent := True\<rparr>)"
| "read_options (Opt_4 # gs) op = read_options gs (op\<lparr>op_family := AF_INET\<rparr>)"
| "read_options (Opt_6 # gs) op = read_options gs (op\<lparr>op_family := AF_INET6\<rparr>)"
| "read_options (Opt_h # gs) op = None"

text \<open>\<open>gai\<close> is \<open>getaddrinfo\<close>: the first result as its family and address.\<close>

definition resolve_target ::
    "(string \<Rightarrow> family \<Rightarrow> (family \<times> u8 list) option) \<Rightarrow> (bool \<Rightarrow> u8 list \<Rightarrow> string) \<Rightarrow> string \<Rightarrow> family \<Rightarrow> string option" where
  "resolve_target gai ntop arg fam =
     (case gai arg fam of
        None \<Rightarrow> None
      | Some (AF_INET, addr) \<Rightarrow> Some (ntop False addr)
      | Some (AF_INET6, addr) \<Rightarrow> Some (ntop True addr)
      | Some (AF_UNSPEC, _) \<Rightarrow> None)"

section \<open>Sessions\<close>

definition intent_zero :: nsr_intent where
  "intent_zero = \<lparr>it_ttl = 0, it_seq = 0, it_action = 0, it_timestamp_us = 0, it_integrity = 0\<rparr>"

definition observation_zero :: nsr_observation where
  "observation_zero = \<lparr>ob_ttl = 0, ob_seq = 0, ob_rtt_us = 0, ob_type = NSR_OBS_NONE, ob_addr_bin = replicate 16 0, ob_is_v6 = False\<rparr>"

record nsr_session =
  se_l2g :: "nsr_intent nsr_shm_ring"
  se_g2l :: "nsr_observation nsr_shm_ring"
  se_l2t :: "nsr_telemetry_state nsr_shm_ring_large"
  gk_pid :: int
  logic_pid :: int
  se_target_ip :: string
  se_target_host :: string
  se_active :: bool

datatype signal = SIGTERM | SIGUSR1

text \<open>
  What the process does to others: a child, with its process number, that runs the gatekeeper or
  the engine; a signal; a wait.
\<close>

datatype action = Run_gatekeeper int string | Run_logic int nsr_config | Kill int signal | Wait int

text \<open>
  The results of \<open>fork\<close> in the parent, by the number of the call: the process number of the child,
  or -1 when there is none.  The parent stores either.
\<close>

type_synonym forks = "nat \<Rightarrow> int"

definition session_config :: "u32 \<Rightarrow> nsr_session \<Rightarrow> nsr_config" where
  "session_config interval_ms s =
     \<lparr>cfg_interval_ms = interval_ms, cfg_target_ip = c_strncpy 47 (se_target_ip s), cfg_target_host = c_strncpy 127 (se_target_host s)\<rparr>"

definition spawn_gatekeeper :: "forks \<Rightarrow> nat \<Rightarrow> nsr_session \<Rightarrow> action list \<times> nsr_session \<times> nat" where
  "spawn_gatekeeper fork n s =
     ((if fork n > 0 then [Run_gatekeeper (fork n) (se_target_ip s)] else []), s\<lparr>gk_pid := fork n\<rparr>, n + 1)"

definition spawn_logic :: "forks \<Rightarrow> nat \<Rightarrow> u32 \<Rightarrow> nsr_session \<Rightarrow> action list \<times> nsr_session \<times> nat" where
  "spawn_logic fork n interval_ms s =
     ((if fork n > 0 then [Run_logic (fork n) (session_config interval_ms s)] else []), s\<lparr>logic_pid := fork n\<rparr>, n + 1)"

definition new_session :: "string \<Rightarrow> string \<Rightarrow> nsr_session" where
  "new_session ip host =
     \<lparr>se_l2g = ring_zero (\<lambda>_. intent_zero), se_g2l = ring_zero (\<lambda>_. observation_zero),
      se_l2t = large_zero (replicate 16 telemetry_zero), gk_pid = 0, logic_pid = 0,
      se_target_ip = c_strncpy 63 ip, se_target_host = c_strncpy 127 host, se_active = True\<rparr>"

text \<open>What \<open>main\<close> finds on the system.\<close>

record system =
  sy_user :: user_env
  sy_dirs :: directories
  sy_gai :: "string \<Rightarrow> family \<Rightarrow> (family \<times> u8 list) option"
  sy_ntop :: "bool \<Rightarrow> u8 list \<Rightarrow> string"
  sy_mmap :: "nat \<Rightarrow> bool"
  sy_fork :: forks

text \<open>
  One session per target that resolves, at most eight.  \<open>None\<close>: the memory of a session cannot be
  mapped, and the program ends.
\<close>

fun start_sessions :: "system \<Rightarrow> options \<Rightarrow> string list \<Rightarrow> nsr_session list \<Rightarrow> nat \<Rightarrow> action list \<times> (nsr_session list \<times> nat) option" where
  "start_sessions sy op [] ss n = ([], Some (ss, n))"
| "start_sessions sy op (arg # args) ss n =
     (if length ss \<ge> NSR_MAX_TARGETS then ([], Some (ss, n))
      else case resolve_target (sy_gai sy) (sy_ntop sy) arg (op_family op) of
        None \<Rightarrow> start_sessions sy op args ss n
      | Some ip \<Rightarrow>
          if \<not> sy_mmap sy (length ss) then ([], None)
          else case spawn_gatekeeper (sy_fork sy) n (new_session ip arg) of (a1, s, n) \<Rightarrow>
               case spawn_logic (sy_fork sy) n (op_interval_ms op) s of (a2, s, n) \<Rightarrow>
               case start_sessions sy op args (ss @ [s]) n of (as, r) \<Rightarrow> (a1 @ a2 @ as, r))"

section \<open>Start\<close>

record main_state =
  ms_interval_ms :: u32
  ms_silent :: bool
  ms_sessions :: "nsr_session list"
  ms_running :: bool
  ms_world :: world
  ms_last :: nsr_telemetry_state
  ms_forks :: nat

text \<open>
  \<open>main\<close> up to the loop.  \<open>file\<close> is the configuration file, \<open>None\<close> an exit with \<open>EXIT_FAILURE\<close>.  Unless it is
  silent, the program then prepares the terminal (\<open>nsr_tui_init\<close>).
\<close>

definition main_start :: "system \<Rightarrow> string option \<Rightarrow> getopt list \<Rightarrow> string list \<Rightarrow> action list \<times> (curses list \<times> main_state) option" where
  "main_start sy file gs args =
     (case read_options gs options_default of
        None \<Rightarrow> ([], None)
      | Some op \<Rightarrow>
          if args = [] then ([], None)
          else let reg = nsr_plugins_load_user_dir (sy_dirs sy) file (sy_user sy) (nsr_plugins_init (nsr_config_path (sy_user sy)))
               in case start_sessions sy op args [] 0 of
                    (as, None) \<Rightarrow> (as, None)
                  | (as, Some (ss, n)) \<Rightarrow>
                      if ss = [] then (as, None)
                      else (as, Some (if op_silent op then [] else nsr_tui_init, \<lparr>ms_interval_ms = op_interval_ms op, ms_silent = op_silent op, ms_sessions = ss, ms_running = True,
                        ms_world = \<lparr>w_tui = (if op_silent op then tui_zero else tui_zero\<lparr>ui_keys := key_mgr_init (Some reg)\<rparr>),
                          w_topo = nsr_topology_init, w_plugins = Some reg, w_config = file, w_tree = []\<rparr>,
                        ms_last = telemetry_zero, ms_forks = n\<rparr>)))"

definition signal_handler :: "main_state \<Rightarrow> main_state" where
  "signal_handler m = m\<lparr>ms_running := False\<rparr>"

section \<open>The loop\<close>

datatype wait_status = Exited | Signaled

text \<open>What one session does about the end of a child.\<close>

definition supervise ::
    "forks \<Rightarrow> u32 \<Rightarrow> int \<Rightarrow> wait_status \<Rightarrow> nsr_session \<Rightarrow> nat \<Rightarrow> action list \<times> nsr_session \<times> nat" where
  "supervise fork interval_ms pid status s n =
     (if pid = gk_pid s then
        (case status of
           Exited \<Rightarrow> ((if logic_pid s > 0 then [Kill (logic_pid s) SIGTERM] else []), s\<lparr>se_active := False\<rparr>, n)
         | Signaled \<Rightarrow> spawn_gatekeeper fork n s)
      else if pid = logic_pid s then
        (if status = Exited \<or> \<not> se_active s then ([], s\<lparr>se_active := False\<rparr>, n)
         else spawn_logic fork n interval_ms s)
      else ([], s, n))"

fun supervise_all ::
    "forks \<Rightarrow> u32 \<Rightarrow> int \<Rightarrow> wait_status \<Rightarrow> nsr_session list \<Rightarrow> nat \<Rightarrow> action list \<times> nsr_session list \<times> nat" where
  "supervise_all fork interval_ms pid status [] n = ([], [], n)"
| "supervise_all fork interval_ms pid status (s # ss) n =
     (case supervise fork interval_ms pid status s n of (as, s, n) \<Rightarrow>
      case supervise_all fork interval_ms pid status ss n of (bs, ss, n) \<Rightarrow> (as @ bs, s # ss, n))"

text \<open>The clock of each update of the topology; the updates are numbered.\<close>

type_synonym clocks = "nat \<Rightarrow> nat \<Rightarrow> nat \<Rightarrow> u64"

partial_function (option) drain_l2t ::
    "clocks \<Rightarrow> nat \<Rightarrow> nsr_telemetry_state nsr_shm_ring_large \<Rightarrow> nsr_telemetry_state \<Rightarrow> nsr_topology_state \<Rightarrow>
     (nat \<times> nsr_telemetry_state nsr_shm_ring_large \<times> nsr_telemetry_state \<times> nsr_topology_state) option" where
  "drain_l2t clock k r last_state topo =
     (case nsr_shm_ring_large_pop r of
        None \<Rightarrow> None
      | Some (None, r) \<Rightarrow> Some (k, r, last_state, topo)
      | Some (Some new_state, r) \<Rightarrow> drain_l2t clock (k + 1) r new_state (nsr_topology_update_from_telemetry (clock k) new_state topo))"

text \<open>All sessions: whether one is active, and what they published.\<close>

fun drain_sessions ::
    "clocks \<Rightarrow> nat \<Rightarrow> nsr_session list \<Rightarrow> nsr_telemetry_state \<Rightarrow> nsr_topology_state \<Rightarrow>
     (bool \<times> nsr_session list \<times> nsr_telemetry_state \<times> nsr_topology_state) option" where
  "drain_sessions clock k [] last_state topo = Some (False, [], last_state, topo)"
| "drain_sessions clock k (s # ss) last_state topo =
     (if \<not> se_active s
      then (case drain_sessions clock k ss last_state topo of
              None \<Rightarrow> None | Some (any, ss, last_state, topo) \<Rightarrow> Some (any, s # ss, last_state, topo))
      else (case drain_l2t clock k (se_l2t s) last_state topo of
              None \<Rightarrow> None
            | Some (k, r, last_state, topo) \<Rightarrow>
                (case drain_sessions clock k ss last_state topo of
                   None \<Rightarrow> None | Some (_, ss, last_state, topo) \<Rightarrow> Some (True, s\<lparr>se_l2t := r\<rparr> # ss, last_state, topo))))"

text \<open>The commands of the interface; 3 asks for nothing.\<close>

definition change_interval :: "int \<Rightarrow> u32 \<Rightarrow> u32" where
  "change_interval cmd ms =
     (if cmd = 4 then (if ms < 1000 then ms + 10 else ms)
      else if cmd = 5 then (if ms > 10 then ms - 10 else if ms > 0 then 10 else ms)
      else ms)"

definition run_command :: "int \<Rightarrow> main_state \<Rightarrow> action list \<times> main_state" where
  "run_command cmd m =
     (if cmd = 1 then ([], m\<lparr>ms_running := False\<rparr>)
      else if cmd = 2 then
        (map (\<lambda>s. Kill (logic_pid s) SIGUSR1) (filter (\<lambda>s. logic_pid s > 0) (ms_sessions m)), m)
      else if cmd = 6 then ([], m\<lparr>ms_world := (ms_world m)\<lparr>w_tui := nsr_tui_toggle_dashboard (w_tui (ms_world m))\<rparr>\<rparr>)
      else ([], m\<lparr>ms_interval_ms := change_interval cmd (ms_interval_ms m)\<rparr>))"

text \<open>What one turn of the loop finds: the child that ended, the clocks, the screen, the key.\<close>

record turn =
  tn_wait :: "(int \<times> wait_status) option"
  tn_clock :: clocks
  tn_screen :: screen
  tn_uptime :: uptime
  tn_env :: tui_env
  tn_key :: int

definition main_turn :: "forks \<Rightarrow> turn \<Rightarrow> main_state \<Rightarrow> (action list \<times> curses list \<times> string list \<times> main_state) option" where
  "main_turn fork tn m =
     (case (case tn_wait tn of
              None \<Rightarrow> ([], ms_sessions m, ms_forks m)
            | Some (pid, status) \<Rightarrow> supervise_all fork (ms_interval_ms m) pid status (ms_sessions m) (ms_forks m)) of
        (as, ss, n) \<Rightarrow>
          case drain_sessions (tn_clock tn) 0 ss (ms_last m) (w_topo (ms_world m)) of
            None \<Rightarrow> None
          | Some (any, ss, last_state, topo) \<Rightarrow>
              let w = (ms_world m)\<lparr>w_topo := topo,
                        w_plugins := map_option (nsr_plugins_update_telemetry last_state (Some topo)) (w_plugins (ms_world m))\<rparr>;
                  m = m\<lparr>ms_sessions := ss, ms_forks := n, ms_running := ms_running m \<and> any, ms_last := last_state, ms_world := w\<rparr>
              in if ms_silent m then Some (as, [], [], m)
                 else case nsr_tui_render (tn_screen tn) (tn_uptime tn) (te_now (tn_env tn)) last_state w of (calls, w) \<Rightarrow>
                      case nsr_tui_update (tn_env tn) (tn_key tn) w of (cmd, files, w) \<Rightarrow>
                      case run_command cmd (m\<lparr>ms_world := w\<rparr>) of (bs, m) \<Rightarrow> Some (as @ bs, calls, files, m))"

section \<open>The end\<close>

definition main_stop :: "main_state \<Rightarrow> curses list \<times> action list \<times> main_state" where
  "main_stop m =
     (let pids = concat (map (\<lambda>s. filter (\<lambda>p. p > 0) [gk_pid s, logic_pid s]) (ms_sessions m))
      in ((if ms_silent m then [] else nsr_tui_cleanup),
          map (\<lambda>p. Kill p SIGTERM) pids @ map Wait pids,
          m\<lparr>ms_world := (ms_world m)\<lparr>w_plugins := map_option (\<lambda>reg. snd (nsr_plugins_cleanup reg)) (w_plugins (ms_world m))\<rparr>\<rparr>))"


end
