(* ===== verification/Tui_Laws.thy ===== *)
theory Tui_Laws
  imports Tui_Render "HOL-Library.Multiset" "HOL-Library.Sublist"
begin

text \<open>
  Laws of the terminal interface: the order of the tree, what stays on the screen, that the frame
  highlights the node a key would select, and that every reachable state is well formed.
\<close>

section \<open>The tree\<close>

text \<open>The insertion sort of the tree is the stable sort by TTL.\<close>

definition insert_right :: "('a \<Rightarrow> 'b::linorder) \<Rightarrow> 'a \<Rightarrow> 'a list \<Rightarrow> 'a list" where
  "insert_right f x xs = rev (dropWhile (\<lambda>y. f y > f x) (rev xs)) @ x # rev (takeWhile (\<lambda>y. f y > f x) (rev xs))"

lemma insert_right_snoc:
  "insert_right f x (xs @ [y]) = (if f y > f x then insert_right f x xs @ [y] else xs @ [y, x])"
  by (simp add: insert_right_def)

lemma shift_right_eq: "shift_right f x (length xs) (xs @ y # zs) = insert_right f x xs @ zs"
proof (induction xs arbitrary: y zs rule: rev_induct)
  case Nil
  show ?case by (simp add: insert_right_def)
next
  case (snoc z xs)
  have "(xs @ [z] @ y # zs)[Suc (length xs) := v] = xs @ z # v # zs" for v by (simp add: list_update_append)
  then show ?case using snoc.IH [of z "z # zs"] by (simp add: insert_right_snoc nth_append)
qed

lemma insert_right_props:
  "mset (insert_right f x xs) = add_mset x (mset xs)"
  "filter (\<lambda>y. f k = f y) (insert_right f x xs) = filter (\<lambda>y. f k = f y) (xs @ [x])"
  "sorted (map f xs) \<Longrightarrow> sorted (map f (insert_right f x xs))"
proof (induction xs rule: rev_induct)
  case Nil
  { case 1 show ?case by (simp add: insert_right_def) }
  { case 2 show ?case by (simp add: insert_right_def) }
  { case 3 show ?case by (simp add: insert_right_def) }
next
  case (snoc y xs)
  { case 1 show ?case using snoc(1) by (simp add: insert_right_snoc) }
  { case 2 show ?case using snoc(2) by (auto simp: insert_right_snoc) }
  { case 3
    have "set (insert_right f x xs) = insert x (set xs)" using snoc(1) by (metis set_mset_mset set_mset_add_mset_insert)
    with 3 snoc(3) show ?case by (auto simp: insert_right_snoc sorted_append) }
qed

lemma length_insert_right: "length (insert_right f x xs) = Suc (length xs)"
  using insert_right_props(1) [of f x xs] by (metis size_add_mset size_mset)

lemma sort_by_ttl_step:
  assumes "0 < k" "k \<le> length xs"
  shows "\<exists>ys. fold (\<lambda>i a. shift_right f (a ! i) i a) [1..<k] xs = ys @ drop k xs \<and> length ys = k \<and> mset ys = mset (take k xs) \<and>
    sorted (map f ys) \<and> (\<forall>k'. filter (\<lambda>y. f k' = f y) ys = filter (\<lambda>y. f k' = f y) (take k xs))"
  using assms
proof (induction k)
  case 0
  then show ?case by simp
next
  case (Suc k)
  show ?case
  proof (cases k)
    case 0
    then show ?thesis using Suc.prems by (cases xs) auto
  next
    case (Suc m)
    then obtain ys where ys: "fold (\<lambda>i a. shift_right f (a ! i) i a) [1..<k] xs = ys @ drop k xs" "length ys = k" "mset ys = mset (take k xs)"
      "sorted (map f ys)" "\<And>k'. filter (\<lambda>y. f k' = f y) ys = filter (\<lambda>y. f k' = f y) (take k xs)"
      using Suc.IH Suc.prems by auto
    have lt: "k < length xs" using Suc.prems by simp
    then have d: "drop k xs = xs ! k # drop (Suc k) xs" by (simp add: Cons_nth_drop_Suc)
    have t: "take (Suc k) xs = take k xs @ [xs ! k]" using lt by (simp add: take_Suc_conv_app_nth)
    have "fold (\<lambda>i a. shift_right f (a ! i) i a) [1..<Suc k] xs = shift_right f (xs ! k) k (ys @ drop k xs)"
      using ys(1,2) d Suc by (simp add: nth_append)
    also have "\<dots> = insert_right f (xs ! k) ys @ drop (Suc k) xs"
      unfolding d using shift_right_eq [of f "xs ! k" ys] by (simp add: ys(2))
    finally show ?thesis
      using insert_right_props(1) [of f "xs ! k" ys] insert_right_props(2) [of f _ "xs ! k" ys] insert_right_props(3) [of f ys "xs ! k"] ys t
      by (intro exI [of _ "insert_right f (xs ! k) ys"]) (auto simp: length_insert_right)
  qed
qed

lemma sort_by_ttl_sort_key: "sort_by_ttl f xs = sort_key f xs"
proof (cases "xs = []")
  case True
  then show ?thesis by (simp add: sort_by_ttl_def)
next
  case False
  then obtain ys where "sort_by_ttl f xs = ys" "mset ys = mset xs" "sorted (map f ys)" "\<And>k. filter (\<lambda>y. f k = f y) ys = filter (\<lambda>y. f k = f y) xs"
    using sort_by_ttl_step [of "length xs" xs f] by (auto simp: sort_by_ttl_def)
  then show ?thesis by (metis properties_for_sort_key)
qed

definition active_targets :: "nsr_topology_node list \<Rightarrow> string set" where
  "active_targets ns = nd_target_ip ` {n \<in> set ns. nd_active n}"

lemma active_targets_simps [simp]:
  "active_targets [] = {}"
  "active_targets (n # ns) = (if nd_active n then insert (nd_target_ip n) (active_targets ns) else active_targets ns)"
  "active_targets (replicate k node_zero) = {}"
  by (auto simp: active_targets_def node_zero_def)

lemma finite_active_targets [simp]: "finite (active_targets ns)"
  by (simp add: active_targets_def)

lemma fold_targets:
  assumes "\<forall>n \<in> set ns. nd_active n \<longrightarrow> length (nd_target_ip n) \<le> 47" "distinct ts" "card (set ts \<union> active_targets ns) \<le> NSR_MAX_TARGETS"
  shows "distinct (fold add_target ns ts) \<and> set (fold add_target ns ts) = set ts \<union> active_targets ns"
  using assms
proof (induction ns arbitrary: ts)
  case Nil
  then show ?case by simp
next
  case (Cons n ns)
  show ?case
  proof (cases "nd_active n \<and> nd_target_ip n \<notin> set ts")
    case False
    then have "add_target n ts = ts" by (auto simp: add_target_def)
    moreover have "set ts \<union> active_targets (n # ns) = set ts \<union> active_targets ns" using False by auto
    ultimately show ?thesis using Cons.IH [of ts] Cons.prems by simp
  next
    case True
    have "card (insert (nd_target_ip n) (set ts)) \<le> card (set ts \<union> active_targets (n # ns))"
      using True by (intro card_mono) auto
    then have "length ts < NSR_MAX_TARGETS" using Cons.prems(2,3) True by (simp add: distinct_card)
    then have "add_target n ts = ts @ [nd_target_ip n]" using True Cons.prems(1) by (simp add: add_target_def)
    moreover have "set (ts @ [nd_target_ip n]) \<union> active_targets ns = set ts \<union> active_targets (n # ns)" using True by auto
    ultimately show ?thesis using Cons.IH [of "ts @ [nd_target_ip n]"] Cons.prems True by simp
  qed
qed

lemma line_nodes_target: "line_nodes (target_lines topo t) = sorted_nodes topo t"
proof -
  have "concat (map (\<lambda>l. case l of Target _ \<Rightarrow> [] | Node i _ \<Rightarrow> [i]) (map (\<lambda>k. Node (tn ! k) (m k)) [0..<length tn])) = tn" for tn m
    by (simp add: comp_def map_nth)
  then show ?thesis by (simp add: line_nodes_def target_lines_def Let_def)
qed

lemma line_nodes_tree: "line_nodes (tree_lines topo) = concat (map (sorted_nodes topo) (tree_targets topo))"
proof -
  have "line_nodes (concat (map (target_lines topo) ts)) = concat (map (\<lambda>t. line_nodes (target_lines topo t)) ts)" for ts
    by (induction ts) (simp_all add: line_nodes_def)
  then show ?thesis by (simp add: tree_lines_def line_nodes_target)
qed

lemma sorted_nodes_mem:
  "set (sorted_nodes topo t) = {i. i < length (tp_nodes topo) \<and> nd_active (tp_nodes topo ! i) \<and> nd_target_ip (tp_nodes topo ! i) = t}"
  "distinct (sorted_nodes topo t)"
  by (auto simp: sorted_nodes_def sort_by_ttl_sort_key target_nodes_def)

lemma distinct_tree: "distinct ts \<Longrightarrow> distinct (concat (map (sorted_nodes topo) ts))"
  by (induction ts) (auto simp: sorted_nodes_mem)

lemma tree_nodes_eq:
  assumes len: "length (tp_nodes topo) = NSR_TOPOLOGY_MAX_NODES" and "distinct (tree_targets topo)"
  shows "tree_nodes topo = concat (map (sorted_nodes topo) (tree_targets topo))"
proof -
  let ?c = "concat (map (sorted_nodes topo) (tree_targets topo))"
  have "set ?c \<subseteq> {..< NSR_TOPOLOGY_MAX_NODES}" by (auto simp: sorted_nodes_mem len)
  then have "card (set ?c) \<le> NSR_TOPOLOGY_MAX_NODES" using card_mono [of "{..< NSR_TOPOLOGY_MAX_NODES}" "set ?c"] by simp
  then have "length ?c \<le> NSR_TOPOLOGY_MAX_NODES" using distinct_card [OF distinct_tree [OF assms(2)]] by simp
  then show ?thesis by (simp only: tree_nodes_def line_nodes_tree take_all)
qed

text \<open>
  C34: The tree shows every active node once, grouped by target and in the order of TTL: with at
  most eight targets, whose addresses fit their arrays, the list of the nodes the tree refers to
  is, target after target, the stable sort by TTL of the target's active nodes.
\<close>

theorem tree_order:
  assumes "length (tp_nodes topo) = NSR_TOPOLOGY_MAX_NODES" "card (active_targets (tp_nodes topo)) \<le> NSR_MAX_TARGETS"
    "\<forall>n \<in> set (tp_nodes topo). nd_active n \<longrightarrow> length (nd_target_ip n) \<le> 47"
  shows "tree_nodes topo = concat (map (\<lambda>t. sort_key (node_ttl topo) (target_nodes topo t)) (tree_targets topo)) \<and>
    distinct (tree_nodes topo) \<and>
    set (tree_nodes topo) = {i. i < length (tp_nodes topo) \<and> nd_active (tp_nodes topo ! i)} \<and>
    distinct (tree_targets topo) \<and> set (tree_targets topo) = active_targets (tp_nodes topo)"
proof -
  have targets: "distinct (tree_targets topo)" "set (tree_targets topo) = active_targets (tp_nodes topo)"
    using fold_targets [of "tp_nodes topo" "[]"] assms(2,3) by (simp_all add: tree_targets_def)
  have nodes: "tree_nodes topo = concat (map (sorted_nodes topo) (tree_targets topo))" by (rule tree_nodes_eq [OF assms(1) targets(1)])
  have "set (tree_nodes topo) = {i. i < length (tp_nodes topo) \<and> nd_active (tp_nodes topo ! i)}"
    unfolding nodes by (auto simp: sorted_nodes_mem targets(2) active_targets_def) (metis nth_mem)
  moreover have "sorted_nodes topo = (\<lambda>t. sort_key (node_ttl topo) (target_nodes topo t))"
    by (rule ext) (simp add: sorted_nodes_def sort_by_ttl_sort_key)
  ultimately show ?thesis using targets nodes distinct_tree [OF targets(1), of topo] by simp
qed

definition ex_tree_topo :: nsr_topology_state where
  "ex_tree_topo = nsr_topology_init\<lparr>tp_nodes :=
     node_zero\<lparr>nd_id := 1, nd_active := True, nd_target_ip := ''9.9.9.9'', nd_ttl := 3\<rparr> #
     node_zero\<lparr>nd_id := 2, nd_active := True, nd_target_ip := ''8.8.8.8'', nd_ttl := 2\<rparr> #
     node_zero\<lparr>nd_id := 3, nd_active := True, nd_target_ip := ''9.9.9.9'', nd_ttl := 1\<rparr> #
     replicate (NSR_TOPOLOGY_MAX_NODES - 3) node_zero\<rparr>"

theorem tree_order_witness:
  "tree_nodes ex_tree_topo = concat (map (\<lambda>t. sort_key (node_ttl ex_tree_topo) (target_nodes ex_tree_topo t)) (tree_targets ex_tree_topo)) \<and>
   distinct (tree_nodes ex_tree_topo) \<and> set (tree_targets ex_tree_topo) = {''9.9.9.9'', ''8.8.8.8''}"
proof -
  have act: "active_targets (tp_nodes ex_tree_topo) = {''9.9.9.9'', ''8.8.8.8''}"
    by (auto simp: ex_tree_topo_def)
  have "length (tp_nodes ex_tree_topo) = NSR_TOPOLOGY_MAX_NODES" by (simp add: ex_tree_topo_def NSR_TOPOLOGY_MAX_NODES_def)
  moreover have "card (active_targets (tp_nodes ex_tree_topo)) \<le> NSR_MAX_TARGETS" by (simp add: act NSR_MAX_TARGETS_def)
  moreover have "\<forall>n \<in> set (tp_nodes ex_tree_topo). nd_active n \<longrightarrow> length (nd_target_ip n) \<le> 47" by (auto simp: ex_tree_topo_def node_zero_def)
  ultimately show ?thesis using tree_order [of ex_tree_topo] act by blast
qed

section \<open>Well-formed states of the interface\<close>

text \<open>
  What the interface keeps by itself; the upper bounds of cursors and scroll positions depend on
  the topology and the plugins and are \<open>cursors_ok\<close> below.
\<close>

definition ui_ok :: "nsr_tui_state \<Rightarrow> bool" where
  "ui_ok tui \<longleftrightarrow> length (nav_modes tui) = NSR_UI_STACK_DEPTH \<and> nav_count tui \<le> NSR_UI_STACK_DEPTH \<and> length (msg tui) \<le> 127 \<and>
     - 1 \<le> grid_cursor tui \<and> - 1 \<le> tree_cursor tui \<and> 0 \<le> tools_cursor tui \<and>
     0 \<le> grid_scroll_y tui \<and> 0 \<le> tree_scroll tui \<and> 0 \<le> tools_scroll tui"

definition world_ok :: "world \<Rightarrow> bool" where
  "world_ok w \<longleftrightarrow> ui_ok (w_tui w) \<and> topo_inv (w_topo w) \<and> (\<forall>i \<in> set (w_tree w). i < NSR_TOPOLOGY_MAX_NODES) \<and>
     (case w_plugins w of None \<Rightarrow> True | Some reg \<Rightarrow> reg_inv reg)"

lemma ui_ok_ops [simp]:
  "ui_ok tui \<Longrightarrow> ui_ok (push_nav mode tui)"
  "ui_ok tui \<Longrightarrow> ui_ok (pop_nav tui)"
  "ui_ok tui \<Longrightarrow> ui_ok (goto_normal tui)"
  "ui_ok tui \<Longrightarrow> ui_ok (show_tui_msg now txt secs tui)"
  "ui_ok tui \<Longrightarrow> ui_ok (nsr_tui_toggle_dashboard tui)"
  "ui_ok tui \<Longrightarrow> ui_ok (enter_mode mode tui)"
  by (auto simp: ui_ok_def push_nav_def pop_nav_def goto_normal_def show_tui_msg_def nsr_tui_toggle_dashboard_def enter_mode_def Let_def)

lemma ui_ok_more [simp]:
  "ui_ok (tui\<lparr>frozen := b\<rparr>) = ui_ok tui" "ui_ok (tui\<lparr>show_stats := b\<rparr>) = ui_ok tui" "ui_ok (tui\<lparr>focused_node_id := f\<rparr>) = ui_ok tui"
  by (simp_all add: ui_ok_def)

lemma ui_ok_zero: "ui_ok tui_zero"
  by (simp add: ui_ok_def tui_zero_def)

lemma mode_key_ok: "ui_ok tui \<Longrightarrow> mode_key ch tui = Some tui' \<Longrightarrow> ui_ok tui'"
  by (auto simp: mode_key_def Let_def split: if_splits)

lemma ranges_ok [simp]:
  "ui_ok tui \<Longrightarrow> ui_ok (grid_range scr n tui)"
  "ui_ok tui \<Longrightarrow> ui_ok (tree_range scr n tui)"
  "ui_ok tui \<Longrightarrow> ui_ok (tools_range avail n tui)"
  by (simp_all add: ui_ok_def grid_range_def tree_range_def tools_range_def Let_def clamp_low_def)

lemma active_count_nonneg:
  assumes "topo_inv t"
  shows "0 \<le> nsr_topology_active_count t" "nsr_topology_active_count t = int (unat (tp_node_count t))"
proof -
  have "unat (tp_node_count t) \<le> 1024" using assms by (simp add: topo_inv_def nodes_inv_def)
  then have "int (unat (tp_node_count t)) \<le> 1024" by linarith
  then have "uint (tp_node_count t) \<le> 1024" by simp
  moreover have "- (2 ^ 31) \<le> uint (tp_node_count t)" by (rule order_trans [OF _ unsigned_greater_eq]) simp
  ultimately have "signed_take_bit 31 (uint (tp_node_count t)) = uint (tp_node_count t)"
    by (intro signed_take_bit_int_eq_self) simp_all
  then have "sint (tp_node_count t) = int (unat (tp_node_count t))" by (simp add: sint_uint)
  then show "0 \<le> nsr_topology_active_count t" "nsr_topology_active_count t = int (unat (tp_node_count t))"
    by (simp_all add: nsr_topology_active_count_def)
qed

lemma nodes_inv_cong:
  assumes "nodes_inv ns c" "length ns' = length ns"
    "\<And>j. j < length ns \<Longrightarrow> nd_active (ns' ! j) = nd_active (ns ! j) \<and> nd_id (ns' ! j) = nd_id (ns ! j) \<and> node_key (ns' ! j) = node_key (ns ! j)"
  shows "nodes_inv ns' c"
  using assms by (simp add: nodes_inv_def)

lemma topo_inv_toggle:
  assumes "topo_inv t"
  shows "topo_inv (toggle_control_plane i t)"
proof -
  have "nodes_inv (tp_nodes (toggle_control_plane i t)) (unat (tp_node_count t))"
  proof (rule nodes_inv_cong [of "tp_nodes t"])
    fix j assume "j < length (tp_nodes t)"
    then show "nd_active (tp_nodes (toggle_control_plane i t) ! j) = nd_active (tp_nodes t ! j) \<and>
        nd_id (tp_nodes (toggle_control_plane i t) ! j) = nd_id (tp_nodes t ! j) \<and>
        node_key (tp_nodes (toggle_control_plane i t) ! j) = node_key (tp_nodes t ! j)"
      by (cases "i = j") (simp_all add: toggle_control_plane_def node_key_def)
  qed (use assms in \<open>simp_all add: topo_inv_def toggle_control_plane_def\<close>)
  with assms show ?thesis by (simp add: topo_inv_def toggle_control_plane_def)
qed

lemma world_ok_parts:
  "world_ok w \<Longrightarrow> ui_ok (w_tui w)" "world_ok w \<Longrightarrow> topo_inv (w_topo w)"
  "world_ok w \<Longrightarrow> w_plugins w = Some reg \<Longrightarrow> reg_inv reg"
  by (simp_all add: world_ok_def)

lemma world_ok_upd [simp]:
  "world_ok w \<Longrightarrow> ui_ok tui \<Longrightarrow> world_ok (w\<lparr>w_tui := tui\<rparr>)"
  "world_ok w \<Longrightarrow> topo_inv t \<Longrightarrow> world_ok (w\<lparr>w_topo := t\<rparr>)"
  "world_ok w \<Longrightarrow> reg_inv reg \<Longrightarrow> world_ok (w\<lparr>w_plugins := Some reg\<rparr>)"
  "world_ok w \<Longrightarrow> \<forall>i \<in> set is. i < NSR_TOPOLOGY_MAX_NODES \<Longrightarrow> world_ok (w\<lparr>w_tree := is\<rparr>)"
  "world_ok (w\<lparr>w_config := f\<rparr>) = world_ok w"
  by (simp_all add: world_ok_def)

text \<open>Each use of the plugins is one of the steps of the registry.\<close>

lemma world_ok_step:
  assumes "world_ok w" "w_plugins w = Some reg" "plugin_step (f, reg) (f', reg')"
  shows "world_ok (w\<lparr>w_plugins := Some reg'\<rparr>)"
  using plugin_step_inv [OF assms(3)] assms(1,2) by (simp add: world_ok_parts)

lemma on_key_ok:
  assumes "world_ok w" "plugin_on_key ch w = (files, b, w')"
  shows "world_ok w'"
proof (cases "w_plugins w")
  case (Some reg)
  with world_ok_step [OF assms(1) Some plugin_step.on_key] assms(2) show ?thesis
    by (cases "nsr_plugins_on_key reg ch") (auto simp: plugin_on_key_def, metis snd_conv)
qed (use assms in \<open>simp add: plugin_on_key_def\<close>)

lemma modal_ok:
  assumes "world_ok w" "plugin_modal w = (b, w')"
  shows "world_ok w'"
proof (cases "w_plugins w")
  case (Some reg)
  with world_ok_step [OF assms(1) Some plugin_step.modal_active] assms(2) show ?thesis
    by (cases "nsr_plugins_modal_active reg") (auto simp: plugin_modal_def)
qed (use assms in \<open>simp add: plugin_modal_def\<close>)

lemma ask_hops_ok:
  assumes "world_ok w" "ask_hops hops n w = (anns, w')"
  shows "world_ok w'"
proof (cases "w_plugins w")
  case (Some reg)
  with world_ok_step [OF assms(1) Some plugin_step.render_hops] assms(2) show ?thesis
    by (cases "nsr_plugins_render_hops hops n (int NSR_MAX_HOPS) reg") (auto simp: ask_hops_def, metis snd_conv)
qed (use assms in \<open>simp add: ask_hops_def\<close>)

lemma ask_panels_ok:
  assumes "world_ok w" "ask_panels scr w = (cs, w')"
  shows "world_ok w'"
proof (cases "w_plugins w")
  case (Some reg)
  with world_ok_step [OF assms(1) Some plugin_step.render] assms(2) show ?thesis
    by (auto simp: ask_panels_def split: prod.splits) (metis snd_conv)
qed (use assms in \<open>simp add: ask_panels_def\<close>)

lemma tools_toggle_frame [simp]:
  "w_tui (tools_toggle sp writable w) = w_tui w" "w_topo (tools_toggle sp writable w) = w_topo w"
  "w_tree (tools_toggle sp writable w) = w_tree w"
  by (auto simp: tools_toggle_def Let_def split: option.split prod.split)

lemma tools_toggle_plugins:
  assumes "case w_plugins w of None \<Rightarrow> True | Some reg \<Rightarrow> reg_inv reg"
  shows "case w_plugins (tools_toggle sp writable w) of None \<Rightarrow> True | Some reg \<Rightarrow> reg_inv reg"
proof (cases "w_plugins w")
  case (Some reg)
  let ?c = "tools_cursor (w_tui w)"
  obtain f' reg' where r: "nsr_plugins_set_enabled sp writable ?c (\<not> nsr_plugins_enabled reg ?c) (w_config w, reg) = (f', reg')" by force
  have "plugin_step (w_config w, reg) (f', reg')" unfolding r [symmetric] by (rule plugin_step.set_enabled)
  from plugin_step_inv [OF this] assms show ?thesis using r Some by (simp add: tools_toggle_def Let_def)
qed (simp add: tools_toggle_def)

lemma ui_ok_cursors [simp]:
  "ui_ok tui \<Longrightarrow> 0 \<le> c \<Longrightarrow> ui_ok (tui\<lparr>tools_cursor := c\<rparr>)"
  "ui_ok tui \<Longrightarrow> - 1 \<le> c \<Longrightarrow> ui_ok (tui\<lparr>grid_cursor := c\<rparr>)"
  "ui_ok tui \<Longrightarrow> - 1 \<le> c \<Longrightarrow> ui_ok (tui\<lparr>tree_cursor := c\<rparr>)"
  by (simp_all add: ui_ok_def)

lemma clamps [simp]: "0 \<le> clamp_tools n c" "0 \<le> n \<Longrightarrow> - 1 \<le> clamp_cursor n c"
  by (simp_all add: clamp_tools_def clamp_cursor_def Let_def)

lemma ui_ok_tools_cursor: "ui_ok (tui\<lparr>tools_cursor := c\<rparr>) \<Longrightarrow> 0 \<le> c' \<Longrightarrow> ui_ok (tui\<lparr>tools_cursor := c'\<rparr>)"
  by (simp add: ui_ok_def)

lemma pop_nav_tools_cursor [simp]: "pop_nav (tui\<lparr>tools_cursor := c\<rparr>) = (pop_nav tui)\<lparr>tools_cursor := c\<rparr>"
  by (simp add: pop_nav_def)

lemma tools_key_ok:
  assumes "world_ok w"
  shows "world_ok (tools_key kc sp writable ch w)"
proof -
  let ?w = "w\<lparr>w_tui := (w_tui w)\<lparr>tools_cursor := tools_move kc (plugin_count w) ch (tools_cursor (w_tui w))\<rparr>\<rparr>"
  have "case w_plugins ?w of None \<Rightarrow> True | Some reg \<Rightarrow> reg_inv reg" using assms by (simp add: world_ok_def)
  from tools_toggle_plugins [OF this] assms show ?thesis
    by (simp add: tools_key_def world_ok_def Let_def)
qed

lemma focus_mark_ok:
  "world_ok w \<Longrightarrow> world_ok (focus_node n w)" "world_ok w \<Longrightarrow> world_ok (mark_node n w)"
  by (auto simp: focus_node_def mark_node_def Let_def world_ok_parts topo_inv_toggle split: option.split)

lemma grid_key_ok: "world_ok w \<Longrightarrow> world_ok (grid_key kc cols ch w)"
  by (simp add: grid_key_def Let_def focus_mark_ok world_ok_parts active_count_nonneg)

lemma tree_key_ok: "world_ok w \<Longrightarrow> world_ok (tree_key kc ch w)"
  by (simp add: tree_key_def Let_def focus_mark_ok world_ok_parts active_count_nonneg)

lemma normal_key_ok: "world_ok w \<Longrightarrow> normal_key ch w = (cmd, w') \<Longrightarrow> world_ok w'"
  by (auto simp: normal_key_def Let_def world_ok_parts split: if_splits)

lemma nsr_tui_update_ok:
  assumes "world_ok w" "nsr_tui_update env ch w = (cmd, files, w')"
  shows "world_ok w'"
proof (cases "ch < 0")
  case True
  then show ?thesis using assms by (simp add: nsr_tui_update_def)
next
  case False
  obtain modal w1 where m: "plugin_modal w = (modal, w1)" by force
  note ok1 = modal_ok [OF assms(1) m]
  obtain fs handled w2 where k: "plugin_on_key ch w1 = (fs, handled, w2)" by (metis prod_cases3)
  note ok2 = on_key_ok [OF ok1 k]
  obtain cmd3 w3 where n: "normal_key ch w2 = (cmd3, w3)" by force
  show ?thesis
    using assms(2) False m k n ok1 ok2 normal_key_ok [OF ok2 n] mode_key_ok [OF world_ok_parts(1) [OF ok1]]
    by (auto simp: nsr_tui_update_def Let_def tools_key_ok grid_key_ok tree_key_ok world_ok_parts split: if_splits option.splits)
qed

lemma tree_nodes_range: "topo_inv t \<Longrightarrow> i \<in> set (tree_nodes t) \<Longrightarrow> i < NSR_TOPOLOGY_MAX_NODES"
  unfolding tree_nodes_def line_nodes_tree
  by (auto dest!: in_set_takeD simp: sorted_nodes_mem topo_inv_def nodes_inv_def NSR_TOPOLOGY_MAX_NODES_def)

lemma render_frames_ok:
  assumes "world_ok w"
  shows "render_normal scr up tel w = (cs, w') \<Longrightarrow> world_ok w'"
    and "render_grid scr w = (cs, w') \<Longrightarrow> world_ok w'"
    and "render_tree scr w = (cs, w') \<Longrightarrow> world_ok w'"
    and "render_tools scr w = (cs, w') \<Longrightarrow> world_ok w'"
proof -
  show "world_ok w'" if "render_normal scr up tel w = (cs, w')"
    using that assms by (auto simp: render_normal_def Let_def split: prod.splits dest: ask_hops_ok ask_panels_ok)
  show "world_ok w'" if "render_grid scr w = (cs, w')"
  proof -
    have "world_ok (w\<lparr>w_tui := grid_range scr n (w_tui w)\<rparr>)" for n using assms by (simp add: world_ok_parts)
    then show ?thesis using that by (auto simp: render_grid_def Let_def split: prod.splits if_splits dest!: ask_panels_ok)
  qed
  show "world_ok w'" if "render_tools scr w = (cs, w')"
    using that assms by (auto simp: render_tools_def Let_def world_ok_parts split: prod.splits)
  show "world_ok w'" if "render_tree scr w = (cs, w')"
  proof -
    let ?tree = "tree_nodes (w_topo w)"
    obtain anns w1 where h: "(if temp_hops (w_topo w) (line_nodes (map snd (tree_visible scr (w_tui w) (tree_lines (w_topo w))))) = [] then ([], w)
        else ask_hops (hop_zero # temp_hops (w_topo w) (line_nodes (map snd (tree_visible scr (w_tui w) (tree_lines (w_topo w))))) @
          replicate (NSR_MAX_HOPS - 1 - length (temp_hops (w_topo w) (line_nodes (map snd (tree_visible scr (w_tui w) (tree_lines (w_topo w)))))))
            hop_zero)
          (length (temp_hops (w_topo w) (line_nodes (map snd (tree_visible scr (w_tui w) (tree_lines (w_topo w)))))) + 1) w) = (anns, w1)" by force
    then have "world_ok w1" using assms by (auto split: if_splits dest: ask_hops_ok)
    then have "world_ok (w1\<lparr>w_tui := tree_range scr (int (length ?tree)) (w_tui w), w_tree := ?tree\<rparr>)"
      using assms tree_nodes_range [of "w_topo w"] by (auto simp: world_ok_parts)
    then show ?thesis using that h by (auto simp: render_tree_def Let_def split: prod.splits dest: ask_panels_ok)
  qed
qed

lemma draw_notice_ok: "ui_ok tui \<Longrightarrow> draw_notice now scr tui = (cs, tui') \<Longrightarrow> ui_ok tui'"
  by (auto simp: draw_notice_def ui_ok_def Let_def split: if_splits prod.splits)

lemma nsr_tui_render_ok:
  assumes "world_ok w" "nsr_tui_render scr up now tel w = (cs, w')"
  shows "world_ok w'"
proof (cases "frozen (w_tui w) \<and> current_mode (w_tui w) \<noteq> NSR_UI_TOOLS")
  case True
  then show ?thesis using assms by (simp add: nsr_tui_render_def)
next
  case False
  obtain cs1 w1 where r: "(case current_mode (w_tui w) of NSR_UI_GRID \<Rightarrow> render_grid scr w | NSR_UI_TREE \<Rightarrow> render_tree scr w
      | NSR_UI_TOOLS \<Rightarrow> render_tools scr w | NSR_UI_NORMAL \<Rightarrow> render_normal scr up tel w) = (cs1, w1)" by force
  then have ok: "world_ok w1" using render_frames_ok [OF assms(1)] by (cases "current_mode (w_tui w)") simp_all
  obtain n tui where d: "draw_notice now scr (w_tui w1) = (n, tui)" by force
  have "w' = w1\<lparr>w_tui := tui\<rparr>" using assms(2) False r d by (auto simp: nsr_tui_render_def)
  then show ?thesis using ok draw_notice_ok [OF world_ok_parts(1) [OF ok] d] by simp
qed

section \<open>The screen\<close>

text \<open>A call that writes only to cells of the screen.\<close>

fun on_screen :: "screen \<Rightarrow> curses \<Rightarrow> bool" where
  "on_screen (my, mx) (Mvprintw y x s) \<longleftrightarrow> 0 \<le> y \<and> y < my \<and> 0 \<le> x \<and> x + int (length s) \<le> mx"
| "on_screen (my, mx) (Mvhline y x c n) \<longleftrightarrow> 0 \<le> y \<and> y < my \<and> 0 \<le> x \<and> x + n \<le> mx"
| "on_screen (my, mx) (Mvvline y x c n) \<longleftrightarrow> 0 \<le> y \<and> y + n \<le> my \<and> 0 \<le> x \<and> x < mx"
| "on_screen (my, mx) (Mvaddch y x c) \<longleftrightarrow> 0 \<le> y \<and> y < my \<and> 0 \<le> x \<and> x < mx"
| "on_screen (my, mx) (Mvaddacs y x c) \<longleftrightarrow> 0 \<le> y \<and> y < my \<and> 0 \<le> x \<and> x < mx"
| "on_screen scr _ \<longleftrightarrow> True"

lemma on_screen_attr [simp]: "on_screen scr (Attron as)" "on_screen scr (Attroff as)"
  by (cases scr; simp)+

lemma on_screen_under [simp]: "list_all (on_screen scr) (under as cs) \<longleftrightarrow> list_all (on_screen scr) cs"
  by (simp add: under_def)

lemma c_int_sum: "0 \<le> x \<Longrightarrow> 0 < d \<Longrightarrow> x + d < 2 ^ 31 \<Longrightarrow> c_int (x + d) = x + d"
  by (rule c_int_id) simp_all

lemma on_screen_clipped:
  assumes "x + width < 2 ^ 31"
  shows "list_all (on_screen scr) (tui_print_clipped scr y x width t)"
  using c_int_sum [of x width] assms by (cases scr) (auto simp: tui_print_clipped_def Let_def)

lemma on_screen_box:
  assumes "y + h < 2 ^ 31" "x + w < 2 ^ 31" "snd scr < 2 ^ 31"
  shows "list_all (on_screen scr) (draw_box scr y x h w title)"
proof (cases scr)
  case (Pair my mx)
  have "list_all (on_screen scr) (case title of None \<Rightarrow> [] | Some t \<Rightarrow> under [Bold] (tui_print_clipped scr y (x + 2) (w' - 3) t))"
    if "x + w' < mx" for w'
    using that assms(3) on_screen_clipped [of "x + 2" "w' - 3" scr] by (simp add: Pair split: option.split)
  then show ?thesis unfolding Pair using c_int_sum [of y h] c_int_sum [of x w] assms by (auto simp: draw_box_def Let_def)
qed

lemma on_screen_footer:
  assumes "snd scr < 2 ^ 31"
  shows "list_all (on_screen scr) (draw_footer tui plugins scr)"
proof (cases scr)
  case (Pair my mx)
  show ?thesis using on_screen_clipped [of _ _ scr] assms unfolding Pair by (simp add: draw_footer_def Let_def)
qed

text \<open>
  C35: Boxes, footer and clipped text stay on the screen.  Whatever the size of the terminal and
  whatever the plugins have put into the footer, no call of the footer writes outside it; nor does
  one of a clipped text or a box, whatever the position and the size asked for, provided that the
  far edge of what is asked for is still a C \<open>int\<close>.  The callers ask for at most the size of the
  screen or 64; beyond that the sum wraps around and the clipping fails (\<open>clip_overflow\<close> below).
\<close>

theorem drawing_on_screen:
  assumes "snd scr < 2 ^ 31" "x + width < 2 ^ 31" "y + h < 2 ^ 31" "x + w < 2 ^ 31"
  shows "list_all (on_screen scr) (tui_print_clipped scr y x width t) \<and>
    list_all (on_screen scr) (draw_box scr y x h w title) \<and>
    list_all (on_screen scr) (draw_footer tui plugins scr)"
  using assms by (simp add: on_screen_clipped on_screen_box on_screen_footer)

theorem drawing_on_screen_witness:
  "list_all (on_screen (24, 80)) (tui_print_clipped (24, 80) 20 70 64 ''clipped at the border'') \<and>
   list_all (on_screen (24, 80)) (draw_box (24, 80) 20 70 10 64 (Some ''PLUGINS'')) \<and>
   list_all (on_screen (24, 80)) (draw_footer tui_zero None (24, 80))"
  using drawing_on_screen [of "(24, 80)" 70 64 20 10 64] by simp

lemma clip_overflow: "\<not> list_all (on_screen (24, 80)) (tui_print_clipped (24, 80) 0 2 2147483647 (replicate 100 c))"
  by (simp add: tui_print_clipped_def c_int_def)

section \<open>The node under the cursor\<close>

lemma sdiv_div: "0 \<le> a \<Longrightarrow> 0 < b \<Longrightarrow> (a::int) sdiv b = a div b"
  by (cases "a = 0") (simp_all add: signed_divide_int_def)

lemma grid_cols_pos: "0 < grid_cols w"
  by (simp add: grid_cols_def Let_def)

lemma row_below_rows:
  assumes "0 \<le> c" "c < n" "0 < (cols::int)"
  shows "c sdiv cols < (n + cols - 1) sdiv cols" "0 \<le> c sdiv cols"
proof -
  have "c div cols \<le> (n - 1) div cols" using assms by (intro zdiv_mono1) auto
  also have "(n - 1) div cols = (n + cols - 1) div cols - 1"
    using div_add_self2 [of cols "n - 1"] assms(3) by (simp add: algebra_simps)
  finally show "c sdiv cols < (n + cols - 1) sdiv cols" using assms by (simp add: sdiv_div)
  show "0 \<le> c sdiv cols" using assms by (simp add: sdiv_div pos_imp_zdiv_nonneg_iff)
qed

text \<open>The steps that bring the scroll position of the grid into range keep the row visible.\<close>

lemma scroll_view:
  fixes row rows s avail :: int
  assumes "0 \<le> row" "row < rows" "1 \<le> avail"
    and "s1 = (if row < s then row else s)" "s2 = (if row \<ge> s1 + avail then row - avail + 1 else s1)" "s3 = clamp_low s2"
    and "s4 = (if rows > avail \<and> s3 > rows - avail then rows - avail else s3)" "s5 = clamp_low s4"
  shows "s5 \<le> row" "row < s5 + avail"
proof -
  have "s1 \<le> row" using assms(4) by simp
  then have 2: "s2 \<le> row" "row < s2 + avail" using assms(3,5) by simp_all
  then have 3: "s3 \<le> row" "row < s3 + avail" using assms(1,6) by (simp_all add: clamp_low_def)
  then have "s4 \<le> row" "row < s4 + avail" using assms(2,7) by simp_all
  then show "s5 \<le> row" "row < s5 + avail" using assms(1,8) by (simp_all add: clamp_low_def)
qed

text \<open>Cursor and scroll position after a frame of the grid, step by step.\<close>

lemma grid_range_eqs:
  assumes "tui' = grid_range scr n tui"
  shows "grid_cursor tui' = clamp_low (if clamp_low (grid_cursor tui) \<ge> n then n - 1 else clamp_low (grid_cursor tui))"
    "grid_scroll_y tui' = clamp_low (let row = grid_cursor tui' sdiv grid_cols (snd scr);
        rows = (n + grid_cols (snd scr) - 1) sdiv grid_cols (snd scr); rows = (if rows < 1 then 1 else rows);
        scroll = (if row < grid_scroll_y tui then row else grid_scroll_y tui);
        scroll = clamp_low (if row \<ge> scroll + (fst scr - 2 - 2) then row - (fst scr - 2 - 2) + 1 else scroll)
      in (if rows > fst scr - 2 - 2 \<and> scroll > rows - (fst scr - 2 - 2) then rows - (fst scr - 2 - 2) else scroll))"
proof -
  show cur: "grid_cursor tui' = clamp_low (if clamp_low (grid_cursor tui) \<ge> n then n - 1 else clamp_low (grid_cursor tui))"
    unfolding assms grid_range_def Let_def by simp
  show "grid_scroll_y tui' = clamp_low (let row = grid_cursor tui' sdiv grid_cols (snd scr);
        rows = (n + grid_cols (snd scr) - 1) sdiv grid_cols (snd scr); rows = (if rows < 1 then 1 else rows);
        scroll = (if row < grid_scroll_y tui then row else grid_scroll_y tui);
        scroll = clamp_low (if row \<ge> scroll + (fst scr - 2 - 2) then row - (fst scr - 2 - 2) + 1 else scroll)
      in (if rows > fst scr - 2 - 2 \<and> scroll > rows - (fst scr - 2 - 2) then rows - (fst scr - 2 - 2) else scroll))"
    unfolding cur unfolding assms grid_range_def Let_def by (simp split del: if_split)
qed

text \<open>After a frame of the grid the cursor is on a node and its row among the visible ones.\<close>

lemma grid_range_visible:
  assumes "0 < n" "5 \<le> fst scr" "tui' = grid_range scr n tui"
  shows "0 \<le> grid_cursor tui'" "grid_cursor tui' < n"
    "grid_scroll_y tui' \<le> grid_cursor tui' sdiv grid_cols (snd scr)"
    "grid_cursor tui' sdiv grid_cols (snd scr) < grid_scroll_y tui' + (fst scr - 4)"
proof -
  show c: "0 \<le> grid_cursor tui'" "grid_cursor tui' < n" using assms by (simp_all add: grid_range_def Let_def clamp_low_def)
  let ?cols = "grid_cols (snd scr)"
  let ?row = "grid_cursor tui' sdiv ?cols"
  let ?rows = "if (n + ?cols - 1) sdiv ?cols < 1 then 1 else (n + ?cols - 1) sdiv ?cols"
  have r: "0 \<le> ?row" "?row < ?rows" using row_below_rows [OF c grid_cols_pos [of "snd scr"]] by auto
  have a: "1 \<le> fst scr - 2 - 2" using assms(2) by simp
  from scroll_view [OF r a refl refl refl refl grid_range_eqs(2) [OF assms(3), unfolded Let_def]]
  show "grid_scroll_y tui' \<le> ?row" "?row < grid_scroll_y tui' + (fst scr - 4)" by linarith+
qed

lemma visual_loop_ge: "visual_loop nodes i0 idx c = Some i \<Longrightarrow> idx \<le> c \<and> i0 \<le> i"
  by (induction nodes i0 idx c rule: visual_loop.induct) (auto split: if_splits)

lemma grid_cells_contains:
  assumes "visual_loop nodes i0 idx c = Some i" "c < n"
  shows "sublist (grid_cell scr tui c (nodes ! (i - i0))) (grid_cells scr tui n idx nodes)"
  using assms
proof (induction nodes i0 idx c rule: visual_loop.induct)
  case (1 i0 idx c)
  then show ?case by simp
next
  case (2 m ns i0 idx c)
  show ?case
  proof (cases "nd_active m \<and> idx = c")
    case True
    then show ?thesis using 2(3,4) by auto
  next
    case False
    define idx' where "idx' = (if nd_active m then idx + 1 else idx)"
    have v: "visual_loop ns (i0 + 1) idx' c = Some i" using 2(3) False by (cases "nd_active m") (auto simp: idx'_def)
    note ge = visual_loop_ge [OF v]
    have "sublist (grid_cell scr tui c (ns ! (i - (i0 + 1)))) (grid_cells scr tui n idx' ns)"
      using 2(1,2,4) v False by (cases "nd_active m") (auto simp: idx'_def)
    moreover have "(m # ns) ! (i - i0) = ns ! (i - (i0 + 1))" using ge by (simp add: nth_Cons')
    moreover have "sublist (grid_cells scr tui n idx' ns) (grid_cells scr tui n idx (m # ns))"
      using ge 2(4) by (cases "nd_active m") (simp_all add: idx'_def)
    ultimately show ?thesis by (metis sublist_order.order_trans)
  qed
qed

lemma visual_loop_finds:
  assumes "idx \<le> c" "c < idx + int (length (filter nd_active nodes))"
  shows "\<exists>i. visual_loop nodes i0 idx c = Some i \<and> i - i0 < length nodes \<and> nd_active (nodes ! (i - i0))"
  using assms
proof (induction nodes i0 idx c rule: visual_loop.induct)
  case (2 m ns i0 idx c)
  show ?case
  proof (cases "nd_active m \<and> idx = c")
    case False
    define idx' where "idx' = (if nd_active m then idx + 1 else idx)"
    have "\<exists>i. visual_loop ns (i0 + 1) idx' c = Some i \<and> i - (i0 + 1) < length ns \<and> nd_active (ns ! (i - (i0 + 1)))"
      using 2 False by (cases "nd_active m") (auto simp: idx'_def)
    then obtain i where i: "visual_loop ns (i0 + 1) idx' c = Some i" "i - (i0 + 1) < length ns" "nd_active (ns ! (i - (i0 + 1)))" by blast
    have "i0 + 1 \<le> i" using visual_loop_ge [OF i(1)] by simp
    then show ?thesis using i False by (cases "nd_active m") (auto simp: idx'_def nth_Cons')
  qed auto
qed simp

lemma active_slots:
  assumes "topo_inv t"
  shows "length (filter nd_active (tp_nodes t)) = unat (tp_node_count t)"
proof -
  let ?c = "unat (tp_node_count t)"
  have n: "length (tp_nodes t) = 1024" "?c \<le> 1024" "\<And>j. j < 1024 \<Longrightarrow> nd_active (tp_nodes t ! j) \<longleftrightarrow> slot_id j \<le> ?c"
    using assms by (auto simp: topo_inv_def nodes_inv_def)
  have "length (filter nd_active (tp_nodes t)) = card {j. j < 1024 \<and> slot_id j \<le> ?c}"
    unfolding length_filter_conv_card n(1) using n(3) by (intro arg_cong [of _ _ card]) auto
  also have "\<dots> = card {1..?c}"
  proof (rule bij_betw_same_card [of slot_id], rule bij_betw_byWitness [of _ "\<lambda>k. k mod 1024"])
    show "\<forall>k \<in> {1..?c}. slot_id (k mod 1024) = k" "(\<lambda>k. k mod 1024) ` {1..?c} \<subseteq> {j. j < 1024 \<and> slot_id j \<le> ?c}"
      using n(2) slot_id_mod by auto
    show "\<forall>j \<in> {j. j < 1024 \<and> slot_id j \<le> ?c}. slot_id j mod 1024 = j" by (auto simp: slot_id_def)
    show "slot_id ` {j. j < 1024 \<and> slot_id j \<le> ?c} \<subseteq> {1..?c}" using slot_id_pos by auto
  qed
  finally show ?thesis by simp
qed

lemma visual_index_finds:
  assumes "topo_inv t" "0 \<le> c" "c < nsr_topology_active_count t"
  shows "\<exists>i. node_by_visual_index t c = Some i \<and> i < length (tp_nodes t) \<and> nd_active (tp_nodes t ! i)"
  using visual_loop_finds [of 0 c "tp_nodes t" 0] assms active_slots [OF assms(1)] active_count_nonneg(2) [OF assms(1)]
  by (simp add: node_by_visual_index_def)

lemma ask_panels_frame:
  assumes "ask_panels scr w = (cs, w')"
  shows "w_tui w' = w_tui w" "w_topo w' = w_topo w" "w_tree w' = w_tree w"
  using assms by (auto simp: ask_panels_def split: option.splits prod.splits)

lemma grid_cell_highlighted:
  assumes "idx = grid_cursor tui" "grid_scroll_y tui \<le> idx sdiv grid_cols (snd scr)"
    "idx sdiv grid_cols (snd scr) < grid_scroll_y tui + (fst scr - 4)"
  shows "\<exists>y x. 2 \<le> y \<and> y < fst scr - 2 \<and>
    sublist [Attron [Color_pair CP_HIGHLIGHT], Mvprintw y x (take 13 (pad_right 12 (nd_addr node)))] (grid_cell scr tui idx node)"
proof -
  let ?y = "2 + (idx sdiv grid_cols (snd scr) - grid_scroll_y tui)" and ?x = "2 + idx smod grid_cols (snd scr) * 14"
  have "prefix [Attron [Color_pair CP_HIGHLIGHT], Mvprintw ?y ?x (take 13 (pad_right 12 (nd_addr node)))] (grid_cell scr tui idx node)"
    using assms by (simp add: grid_cell_def Let_def under_def)
  then show ?thesis using assms(2,3) by (intro exI [of _ ?y] exI [of _ ?x]) (auto dest: prefix_imp_sublist)
qed

text \<open>
  C33: What the grid highlights is what Enter selects: on a screen of at least five rows, with at
  least one node known, a frame of the grid leaves the cursor on an active node, draws that
  node's address highlighted in one of the rows between title and footer, and the Enter key
  then focuses exactly that node.
\<close>

theorem grid_shows_selected:
  assumes "world_ok w" "current_mode (w_tui w) = NSR_UI_GRID" "0 < nsr_topology_active_count (w_topo w)" "5 \<le> fst scr"
    "render_grid scr w = (calls, w')"
  shows "\<exists>i y x. node_by_visual_index (w_topo w') (grid_cursor (w_tui w')) = Some i \<and> nd_active (tp_nodes (w_topo w') ! i) \<and>
    2 \<le> y \<and> y < fst scr - 2 \<and>
    sublist [Attron [Color_pair CP_HIGHLIGHT], Mvprintw y x (take 13 (pad_right 12 (nd_addr (tp_nodes (w_topo w') ! i))))] calls \<and>
    focused_node_id (w_tui (grid_key kc cols 10 w')) = nd_id (tp_nodes (w_topo w') ! i)"
proof -
  let ?n = "nsr_topology_active_count (w_topo w)"
  let ?tui = "grid_range scr ?n (w_tui w)"
  let ?cells = "grid_cells scr ?tui ?n 0 (tp_nodes (w_topo w))"
  obtain panels w1 where p: "ask_panels scr (w\<lparr>w_tui := ?tui\<rparr>) = (panels, w1)" by force
  have w': "w' = w1" "\<exists>pre post. calls = pre @ ?cells @ post" using assms(2,5) p by (auto simp: render_grid_def Let_def)
  have fr: "w_tui w' = ?tui" "w_topo w' = w_topo w" using ask_panels_frame [OF p] w'(1) by simp_all
  note vis = grid_range_visible [OF assms(3,4) refl, of "w_tui w"]
  obtain i where i: "node_by_visual_index (w_topo w) (grid_cursor ?tui) = Some i" "nd_active (tp_nodes (w_topo w) ! i)"
    using visual_index_finds [OF world_ok_parts(2) [OF assms(1)] vis(1,2)] by blast
  have cell: "sublist (grid_cell scr ?tui (grid_cursor ?tui) (tp_nodes (w_topo w) ! i)) calls"
    using grid_cells_contains [OF i(1) [unfolded node_by_visual_index_def] vis(2), of scr ?tui] w'(2) by (auto intro: sublist_order.order_trans)
  obtain y x where "2 \<le> y" "y < fst scr - 2"
    "sublist [Attron [Color_pair CP_HIGHLIGHT], Mvprintw y x (take 13 (pad_right 12 (nd_addr (tp_nodes (w_topo w) ! i))))] calls"
    using grid_cell_highlighted [OF refl vis(3,4)] sublist_order.order_trans [OF _ cell] by blast
  moreover have "focused_node_id (w_tui (grid_key kc cols 10 w')) = nd_id (tp_nodes (w_topo w) ! i)"
    using i(1) vis(1,2) by (simp add: grid_key_def is_enter_def focus_node_def push_nav_def Let_def fr)
  ultimately show ?thesis using i fr by auto
qed

definition ex_grid_world :: world where
  "ex_grid_world = \<lparr>w_tui = tui_zero\<lparr>current_mode := NSR_UI_GRID\<rparr>, w_topo = ex_topo, w_plugins = None, w_config = None, w_tree = []\<rparr>"

lemma ex_topo_count: "0 < nsr_topology_active_count ex_topo"
proof -
  obtain j where "j < 1024" "nd_active (tp_nodes ex_topo ! j)" using ex_topo_lookup(1,2) by (auto simp: topo_lookup_iff)
  then have "slot_id j \<le> unat (tp_node_count ex_topo)" using ex_topo_lookup(1) by (simp add: topo_inv_def nodes_inv_def)
  then have "0 < int (unat (tp_node_count ex_topo))" using slot_id_pos [of j] by linarith
  then show ?thesis unfolding active_count_nonneg(2) [OF ex_topo_lookup(1)] .
qed

theorem grid_shows_selected_witness:
  "\<exists>i y x calls w'. render_grid (24, 80) ex_grid_world = (calls, w') \<and> nd_active (tp_nodes (w_topo w') ! i) \<and> 2 \<le> y \<and> y < 22 \<and>
    sublist [Attron [Color_pair CP_HIGHLIGHT], Mvprintw y x (take 13 (pad_right 12 (nd_addr (tp_nodes (w_topo w') ! i))))] calls"
proof -
  obtain calls w' where r: "render_grid (24, 80) ex_grid_world = (calls, w')" by force
  have "world_ok ex_grid_world"
    using ui_ok_zero by (simp add: world_ok_def ex_grid_world_def ex_topo_lookup(1) ui_ok_def)
  moreover have "current_mode (w_tui ex_grid_world) = NSR_UI_GRID" "0 < nsr_topology_active_count (w_topo ex_grid_world)"
    using ex_topo_count by (simp_all add: ex_grid_world_def)
  ultimately show ?thesis using grid_shows_selected [OF _ _ _ _ r] r by fastforce
qed

text \<open>
  The tree scrolls by the position of a node among the nodes, but its lines include the titles of
  the targets: after a frame has scrolled down to the cursor, the node under the cursor is below
  the visible lines and nothing is highlighted.
\<close>

lemma line_nodes_take_less:
  assumes "0 < p" "p \<le> length (tree_lines topo)"
  shows "length (line_nodes (take p (tree_lines topo))) < p"
proof -
  have le: "length (line_nodes ls) \<le> length ls" for ls by (induction ls) (auto simp: line_nodes_def split: tree_line.split)
  obtain t ls where "tree_lines topo = Target t # ls"
    using assms by (cases "tree_targets topo") (auto simp: tree_lines_def target_lines_def Let_def)
  then show ?thesis using assms le [of "take (p - 1) ls"] by (cases p) (auto simp: line_nodes_def)
qed

lemma health_pair_not_highlight [simp]: "health_pair_for_node n \<noteq> CP_HIGHLIGHT" "CP_ACCENT \<noteq> CP_HIGHLIGHT"
  by (simp_all add: health_pair_for_node_def Let_def CP_HIGHLIGHT_def CP_HEALTH_GOOD_def CP_HEALTH_DEGRADED_def CP_HEALTH_POOR_def
      CP_HEALTH_CRITICAL_def CP_HEALTH_UNREACHABLE_def CP_ACCENT_def)

lemma tree_scroll_hides_cursor:
  assumes "tree_scroll tui + (fst scr - 4) \<le> tree_cursor tui" "0 \<le> tree_scroll tui" "tree_cursor tui < n" "5 \<le> fst scr"
  shows "Attron [Color_pair CP_HIGHLIGHT] \<notin>
    set (concat (map (tree_row scr (tree_range scr n tui) topo hops anns (tree_lines topo))
      (tree_visible scr (tree_range scr n tui) (tree_lines topo))))"
proof -
  let ?tui = "tree_range scr n tui" and ?ls = "tree_lines topo"
  have c: "tree_cursor ?tui = tree_scroll ?tui + (fst scr - 4) - 1" "0 \<le> tree_cursor ?tui"
    using assms by (auto simp: tree_range_def Let_def clamp_low_def)
  have "Attron [Color_pair CP_HIGHLIGHT] \<notin> set (tree_row scr ?tui topo hops anns ?ls pl)" if "pl \<in> set (tree_visible scr ?tui ?ls)" for pl
  proof -
    obtain p l where "pl = (p, l)" by force
    then have pl: "pl = (p, l)" "p < length ?ls" "l = ?ls ! p" "int p < tree_scroll ?tui + (fst scr - 4)"
      using that by (auto simp: tree_visible_def set_zip)
    have "int (length (line_nodes (take p ?ls))) \<noteq> tree_cursor ?tui" if "l = Node i m" for i m
    proof (cases "p = 0")
      case True
      then have "?ls ! 0 = Node i m" "0 < length ?ls" using pl that by auto
      then show ?thesis by (cases "tree_targets topo") (auto simp: tree_lines_def target_lines_def Let_def)
    next
      case False
      then show ?thesis using line_nodes_take_less [of p topo] pl c by simp
    qed
    then show ?thesis using pl(1) health_pair_not_highlight [THEN not_sym]
      by (auto simp: tree_row_def Let_def under_def node_line_def split: tree_line.split)
  qed
  then show ?thesis by auto
qed

text \<open>
  The plugin menu offers \<open>[Esc/q] Back\<close>, but \<open>q\<close> ends the program there as everywhere.
\<close>

lemma tools_q_quits:
  assumes "w_plugins w = None" "key_mgr_matches (ui_keys (w_tui w)) (CHR ''q'') (code (CHR ''q''))"
  shows "nsr_tui_update env (code (CHR ''q'')) w = (1, [], w)"
  using assms by (simp add: nsr_tui_update_def plugin_modal_def)

section \<open>Cursors and scroll positions\<close>

text \<open>
  The upper bounds: the cursors of the grid and of the tree are below the number of nodes, that of
  the plugin menu below the number of plugins (or all are 0), and no scroll position is past the
  last entry; on a screen of fewer than five rows, which has no room between title and footer,
  those of the grid and the tree can be up to four rows further.
\<close>

definition cursors_below :: "int \<Rightarrow> int \<Rightarrow> nsr_tui_state \<Rightarrow> bool" where
  "cursors_below nodes plugins tui \<longleftrightarrow>
     grid_cursor tui < max 1 nodes \<and> tree_cursor tui < max 1 nodes \<and> tools_cursor tui < max 1 plugins \<and>
     grid_scroll_y tui < max 1 nodes + 4 \<and> tree_scroll tui < max 1 nodes + 4 \<and> tools_scroll tui < max 1 plugins"

definition cursors_ok :: "world \<Rightarrow> bool" where
  "cursors_ok w \<longleftrightarrow> cursors_below (nsr_topology_active_count (w_topo w)) (plugin_count w) (w_tui w)"

lemma cursors_below_ops [simp]:
  "cursors_below a b (push_nav mode tui) = cursors_below a b tui"
  "cursors_below a b (pop_nav tui) = cursors_below a b tui"
  "cursors_below a b (goto_normal tui) = cursors_below a b tui"
  "cursors_below a b (show_tui_msg now t secs tui) = cursors_below a b tui"
  "cursors_below a b (nsr_tui_toggle_dashboard tui) = cursors_below a b tui"
  "cursors_below a b (enter_mode mode tui) = cursors_below a b tui"
  "cursors_below a b (tui\<lparr>frozen := f\<rparr>) = cursors_below a b tui"
  "cursors_below a b (tui\<lparr>show_stats := f\<rparr>) = cursors_below a b tui"
  "cursors_below a b (tui\<lparr>focused_node_id := i\<rparr>) = cursors_below a b tui"
  "cursors_below a b (tui\<lparr>msg := m\<rparr>) = cursors_below a b tui"
  by (simp_all add: cursors_below_def push_nav_def pop_nav_def goto_normal_def show_tui_msg_def nsr_tui_toggle_dashboard_def enter_mode_def Let_def)

lemma cursors_below_mono: "cursors_below a b tui \<Longrightarrow> a \<le> a' \<Longrightarrow> b \<le> b' \<Longrightarrow> cursors_below a' b' tui"
  by (auto simp: cursors_below_def)

lemma cursors_below_clamp:
  "cursors_below a b tui \<Longrightarrow> cursors_below a b (tui\<lparr>grid_cursor := clamp_cursor a c\<rparr>)"
  "cursors_below a b tui \<Longrightarrow> cursors_below a b (tui\<lparr>tree_cursor := clamp_cursor a c\<rparr>)"
  "cursors_below a b tui \<Longrightarrow> cursors_below a b (tui\<lparr>tools_cursor := clamp_tools b c\<rparr>)"
  by (auto simp: cursors_below_def clamp_cursor_def clamp_tools_def Let_def)

lemma sdiv_le: "0 \<le> c \<Longrightarrow> 0 < d \<Longrightarrow> (c :: int) sdiv d \<le> c"
  using zdiv_mono2 [of c 1 d] by (simp add: sdiv_div)

lemma scroll_upper:
  fixes row rows s avail :: int
  assumes "0 \<le> row" "- 3 \<le> avail"
    and "s1 = (if row < s then row else s)" "s2 = (if row \<ge> s1 + avail then row - avail + 1 else s1)" "s3 = clamp_low s2"
    and "s4 = (if rows > avail \<and> s3 > rows - avail then rows - avail else s3)" "s5 = clamp_low s4"
  shows "s5 \<le> row + 4"
proof -
  have "s1 \<le> row" using assms(3) by simp
  then have "s2 \<le> row + 4" using assms(2,4) by simp
  then have "s3 \<le> row + 4" using assms(1,5) by (simp add: clamp_low_def)
  then have "s4 \<le> row + 4" using assms(6) by simp
  then show ?thesis using assms(1,7) by (simp add: clamp_low_def)
qed

lemma cursors_below_grid_range:
  assumes "cursors_below a b tui" "n \<le> a" "1 \<le> fst scr"
  shows "cursors_below a b (grid_range scr n tui)"
proof -
  let ?t = "grid_range scr n tui" and ?cols = "grid_cols (snd scr)"
  have cur: "0 \<le> grid_cursor ?t" "grid_cursor ?t < max 1 a"
    using assms(1,2) by (auto simp: grid_range_eqs(1) [OF refl] clamp_low_def cursors_below_def)
  have row: "0 \<le> grid_cursor ?t sdiv ?cols" "grid_cursor ?t sdiv ?cols \<le> grid_cursor ?t"
    using sdiv_le [of "grid_cursor ?t" ?cols] cur(1) grid_cols_pos [of "snd scr"] by (simp_all add: sdiv_div pos_imp_zdiv_nonneg_iff)
  have "- 3 \<le> fst scr - 2 - 2" using assms(3) by simp
  from scroll_upper [OF row(1) this refl refl refl refl grid_range_eqs(2) [OF refl, unfolded Let_def]]
  have "grid_scroll_y ?t < max 1 a + 4" using row(2) cur(2) by linarith
  moreover have "tree_cursor ?t = tree_cursor tui" "tools_cursor ?t = tools_cursor tui" "tree_scroll ?t = tree_scroll tui"
    "tools_scroll ?t = tools_scroll tui" by (simp_all add: grid_range_def Let_def)
  ultimately show ?thesis using assms(1) cur(2) by (simp add: cursors_below_def)
qed

lemma cursors_below_ranges:
  "cursors_below a b tui \<Longrightarrow> n \<le> a \<Longrightarrow> 1 \<le> fst scr \<Longrightarrow> cursors_below a b (tree_range scr n tui)"
  "cursors_below a b tui \<Longrightarrow> 1 \<le> avail \<Longrightarrow> cursors_below a b (tools_range avail b tui)"
  by (auto simp: tree_range_def tools_range_def cursors_below_def Let_def clamp_low_def)

text \<open>The tree has no more nodes than the topology.\<close>

lemma tree_nodes_count:
  assumes "topo_inv t"
  shows "int (length (tree_nodes t)) \<le> nsr_topology_active_count t"
proof -
  have short: "length (nd_target_ip n) \<le> 47" if "n \<in> set (tp_nodes t)" "nd_active n" for n
    using that assms by (auto simp: in_set_conv_nth topo_inv_def nodes_inv_def key_ok_def node_key_def)
  have add: "distinct (fold add_target ns ts)"
    if "\<forall>n \<in> set ns. nd_active n \<longrightarrow> length (nd_target_ip n) \<le> 47" "distinct ts" for ns ts
    using that by (induction ns arbitrary: ts) (auto simp: add_target_def)
  have d: "distinct (tree_targets t)" using add [of "tp_nodes t" "[]"] short by (simp add: tree_targets_def)
  let ?c = "concat (map (sorted_nodes t) (tree_targets t))"
  have "length (tree_nodes t) \<le> length ?c" by (simp add: tree_nodes_def line_nodes_tree)
  also have "\<dots> = card (set ?c)" using distinct_card [OF distinct_tree [OF d]] by simp
  also have "\<dots> \<le> card {i. i < length (tp_nodes t) \<and> nd_active (tp_nodes t ! i)}"
    by (intro card_mono) (auto simp: sorted_nodes_mem)
  also have "\<dots> = unat (tp_node_count t)" using active_slots [OF assms] by (simp add: length_filter_conv_card)
  finally show ?thesis using active_count_nonneg(2) [OF assms] by linarith
qed

text \<open>No call of the interface loads or drops a plugin.\<close>

lemma registry_length:
  assumes "reg_inv reg"
  shows "length (reg_entries (snd (snd (nsr_plugins_on_key reg ch)))) = length (reg_entries reg)"
    "length (reg_entries (snd (nsr_plugins_modal_active reg))) = length (reg_entries reg)"
    "length (reg_entries (snd (nsr_plugins_render_hops hops n k reg))) = length (reg_entries reg)"
    "length (reg_entries (snd (nsr_plugins_render mode focused topo yxhw sh sw reg))) = length (reg_entries reg)"
    "length (reg_entries (snd (nsr_plugins_set_enabled sp writable idx on (file', reg)))) = length (reg_entries reg)"
proof -
  have ok: "entries_ok (length (reg_entries reg)) (reg_entries reg)" using assms by (simp add: reg_inv_def entries_ok_def)
  show "length (reg_entries (snd (snd (nsr_plugins_on_key reg ch)))) = length (reg_entries reg)"
    using entries_ok_on_key [OF ok] by (simp add: entries_ok_def)
  show "length (reg_entries (snd (nsr_plugins_modal_active reg))) = length (reg_entries reg)"
    using entries_ok_modal [OF ok] by (auto simp: nsr_plugins_modal_active_def entries_ok_def split: prod.split)
  show "length (reg_entries (snd (nsr_plugins_render_hops hops n k reg))) = length (reg_entries reg)"
    using entries_ok_hops [OF ok] by (auto simp: nsr_plugins_render_hops_def entries_ok_def split: prod.split) (metis snd_conv)
  show "length (reg_entries (snd (nsr_plugins_render mode focused topo yxhw sh sw reg))) = length (reg_entries reg)"
    by (simp add: nsr_plugins_render_def Let_def)
  show "length (reg_entries (snd (nsr_plugins_set_enabled sp writable idx on (file', reg)))) = length (reg_entries reg)"
    by (auto simp: nsr_plugins_set_enabled_def Let_def split: prod.split)
qed

text \<open>What asking the plugins changes: nothing of what the cursors are measured by.\<close>

definition same_counts :: "world \<Rightarrow> world \<Rightarrow> bool" where
  "same_counts w w' \<longleftrightarrow> w_tui w' = w_tui w \<and> w_topo w' = w_topo w \<and> plugin_count w' = plugin_count w"

lemma asking_same_counts:
  assumes "world_ok w"
  shows "plugin_on_key ch w = (files, h, w') \<Longrightarrow> same_counts w w'" "plugin_modal w = (h, w') \<Longrightarrow> same_counts w w'"
    "ask_hops hops n w = (anns, w') \<Longrightarrow> same_counts w w'" "ask_panels scr w = (cs, w') \<Longrightarrow> same_counts w w'"
proof -
  have inv: "reg_inv reg" if "w_plugins w = Some reg" for reg using world_ok_parts(3) [OF assms that] .
  show "plugin_on_key ch w = (files, h, w') \<Longrightarrow> same_counts w w'"
    using registry_length(1) [OF inv, of _ ch] by (auto simp: plugin_on_key_def same_counts_def plugin_count_def split: option.splits prod.splits)
  show "plugin_modal w = (h, w') \<Longrightarrow> same_counts w w'"
    using registry_length(2) [OF inv] by (auto simp: plugin_modal_def same_counts_def plugin_count_def split: option.splits prod.splits)
  show "ask_hops hops n w = (anns, w') \<Longrightarrow> same_counts w w'"
    using registry_length(3) [OF inv] by (auto simp: ask_hops_def same_counts_def plugin_count_def split: option.splits prod.splits) (metis snd_conv)
  show "ask_panels scr w = (cs, w') \<Longrightarrow> same_counts w w'"
    using registry_length(4) [OF inv] by (auto simp: ask_panels_def same_counts_def plugin_count_def split: option.splits prod.splits) (metis snd_conv)
qed

lemma same_counts_ok: "same_counts w w' \<Longrightarrow> cursors_ok w' = cursors_ok w"
  by (simp add: same_counts_def cursors_ok_def)

lemma plugin_count_upd [simp]:
  "plugin_count (w\<lparr>w_tui := tui\<rparr>) = plugin_count w" "plugin_count (w\<lparr>w_topo := t\<rparr>) = plugin_count w"
  "plugin_count (w\<lparr>w_tree := ls\<rparr>) = plugin_count w"
  by (simp_all add: plugin_count_def)

lemma tools_toggle_count:
  assumes "world_ok w"
  shows "plugin_count (tools_toggle sp writable (w\<lparr>w_tui := tui\<rparr>)) = plugin_count w"
proof (cases "w_plugins w")
  case (Some reg)
  show ?thesis
    using registry_length(5) [OF world_ok_parts(3) [OF assms Some]] Some
    by (auto simp: tools_toggle_def plugin_count_def Let_def split: prod.split) (metis snd_conv)
qed (simp add: tools_toggle_def plugin_count_def Let_def)

lemma tools_key_cursors:
  assumes "world_ok w" "cursors_ok w"
  shows "cursors_ok (tools_key kc sp writable ch w)"
proof -
  let ?b = "plugin_count w" and ?a = "nsr_topology_active_count (w_topo w)"
  have "cursors_below ?a ?b ((w_tui w)\<lparr>tools_cursor := clamp_tools ?b c\<rparr>)" for c
    using assms(2) by (simp add: cursors_ok_def cursors_below_clamp)
  moreover have "cursors_below ?a ?b ((pop_nav (w_tui w))\<lparr>tools_cursor := clamp_tools ?b c\<rparr>)" for c
    using assms(2) by (simp add: cursors_ok_def cursors_below_clamp)
  ultimately show ?thesis
    using tools_toggle_count [OF assms(1)] by (simp add: tools_key_def cursors_ok_def Let_def)
qed

lemma toggle_count [simp]: "nsr_topology_active_count (toggle_control_plane i t) = nsr_topology_active_count t"
  by (simp add: toggle_control_plane_def nsr_topology_active_count_def)

lemma focus_mark_cursors:
  "cursors_ok w \<Longrightarrow> cursors_ok (focus_node n w)" "cursors_ok w \<Longrightarrow> cursors_ok (mark_node n w)"
  by (auto simp: focus_node_def mark_node_def cursors_ok_def Let_def split: option.split)

lemma cursors_ok_tui:
  "cursors_below (nsr_topology_active_count (w_topo w)) (plugin_count w) tui \<Longrightarrow> cursors_ok (w\<lparr>w_tui := tui\<rparr>)"
  by (simp add: cursors_ok_def)

lemma key_cursors:
  assumes "cursors_ok w"
  shows "cursors_ok (grid_key kc cols ch w)" "cursors_ok (tree_key kc ch w)" "normal_key ch w = (cmd, w') \<Longrightarrow> cursors_ok w'"
proof -
  have below: "cursors_below (nsr_topology_active_count (w_topo w)) (plugin_count w) (w_tui w)" using assms by (simp add: cursors_ok_def)
  show "cursors_ok (grid_key kc cols ch w)" "cursors_ok (tree_key kc ch w)"
    using assms by (simp_all add: grid_key_def tree_key_def Let_def focus_mark_cursors cursors_ok_tui cursors_below_clamp [OF below])
  show "normal_key ch w = (cmd, w') \<Longrightarrow> cursors_ok w'"
    using assms below by (auto simp: normal_key_def Let_def cursors_ok_tui split: if_splits)
qed

lemma mode_key_cursors: "cursors_below a b tui \<Longrightarrow> mode_key ch tui = Some tui' \<Longrightarrow> cursors_below a b tui'"
  by (auto simp: mode_key_def Let_def split: if_splits)

lemma nsr_tui_update_cursors:
  assumes "world_ok w" "cursors_ok w" "nsr_tui_update env ch w = (cmd, files, w')"
  shows "cursors_ok w'"
proof (cases "ch < 0")
  case True
  then show ?thesis using assms by (simp add: nsr_tui_update_def)
next
  case False
  obtain modal w1 where m: "plugin_modal w = (modal, w1)" by force
  have 1: "world_ok w1" "cursors_ok w1"
    using modal_ok [OF assms(1) m] same_counts_ok [OF asking_same_counts(2) [OF assms(1) m]] assms(2) by simp_all
  obtain fs handled w2 where k: "plugin_on_key ch w1 = (fs, handled, w2)" by (metis prod_cases3)
  have 2: "cursors_ok w2" using same_counts_ok [OF asking_same_counts(1) [OF 1(1) k]] 1(2) by simp
  obtain cmd3 w3 where n: "normal_key ch w2 = (cmd3, w3)" by force
  have below: "cursors_below (nsr_topology_active_count (w_topo w1)) (plugin_count w1) (w_tui w1)" using 1(2) by (simp add: cursors_ok_def)
  show ?thesis
    using assms(3) False m k n 1 2 below key_cursors [OF 2] tools_key_cursors [OF 1] mode_key_cursors [OF below]
    by (auto simp: nsr_tui_update_def Let_def cursors_ok_tui split: if_splits option.splits)
qed

lemma render_cursors:
  assumes "world_ok w" "cursors_ok w" "1 \<le> fst scr"
  shows "render_normal scr up tel w = (cs, w') \<Longrightarrow> cursors_ok w'"
    and "current_mode (w_tui w) = NSR_UI_GRID \<Longrightarrow> render_grid scr w = (cs, w') \<Longrightarrow> cursors_ok w'"
    and "render_tree scr w = (cs, w') \<Longrightarrow> cursors_ok w'"
    and "render_tools scr w = (cs, w') \<Longrightarrow> cursors_ok w'"
proof -
  let ?a = "nsr_topology_active_count (w_topo w)" and ?b = "plugin_count w"
  have below: "cursors_below ?a ?b (w_tui w)" using assms(2) by (simp add: cursors_ok_def)
  show "cursors_ok w'" if r: "render_normal scr up tel w = (cs, w')"
  proof -
    obtain anns w1 where h: "ask_hops (tel_hops tel) NSR_MAX_HOPS w = (anns, w1)" by force
    obtain ps w2 where p: "ask_panels scr w1 = (ps, w2)" by force
    have "w' = w2" using r h p by (auto simp: render_normal_def Let_def split: prod.splits)
    then show ?thesis
      using same_counts_ok [OF asking_same_counts(3) [OF assms(1) h]] same_counts_ok [OF asking_same_counts(4) [OF ask_hops_ok [OF assms(1) h] p]] assms(2)
      by simp
  qed
  show "cursors_ok w'" if r: "current_mode (w_tui w) = NSR_UI_GRID" "render_grid scr w = (cs, w')"
  proof -
    let ?w = "w\<lparr>w_tui := grid_range scr ?a (w_tui w)\<rparr>"
    obtain ps w2 where p: "ask_panels scr ?w = (ps, w2)" by force
    have ok: "world_ok ?w" using assms(1) by (simp add: world_ok_parts)
    have "cursors_ok ?w" using cursors_below_grid_range [OF below order_refl assms(3)] by (simp add: cursors_ok_def)
    moreover have "w' = w2" using r p by (auto simp: render_grid_def Let_def)
    ultimately show ?thesis using same_counts_ok [OF asking_same_counts(4) [OF ok p]] by simp
  qed
  show "cursors_ok w'" if "render_tools scr w = (cs, w')"
    using that cursors_below_ranges(2) [OF below] by (auto simp: render_tools_def cursors_ok_def Let_def split: prod.splits)
  show "cursors_ok w'" if r: "render_tree scr w = (cs, w')"
  proof -
    let ?hops = "temp_hops (w_topo w) (line_nodes (map snd (tree_visible scr (w_tui w) (tree_lines (w_topo w)))))"
    obtain anns w1 where h: "(if ?hops = [] then ([], w)
        else ask_hops (hop_zero # ?hops @ replicate (NSR_MAX_HOPS - 1 - length ?hops) hop_zero) (length ?hops + 1) w) = (anns, w1)" by force
    have 1: "world_ok w1" "same_counts w w1"
      using h assms(1) ask_hops_ok asking_same_counts(3) by (auto simp: same_counts_def split: if_splits)
    let ?tree = "tree_nodes (w_topo w)"
    let ?w = "w1\<lparr>w_tui := tree_range scr (int (length ?tree)) (w_tui w), w_tree := ?tree\<rparr>"
    obtain ps w2 where p: "ask_panels scr ?w = (ps, w2)" by force
    have ok: "world_ok ?w" using 1(1) assms(1) tree_nodes_range [of "w_topo w"] by (auto simp: world_ok_parts)
    have "cursors_ok ?w"
      using cursors_below_ranges(1) [OF below tree_nodes_count [OF world_ok_parts(2) [OF assms(1)]] assms(3)] 1(2)
      by (simp add: cursors_ok_def same_counts_def)
    moreover have "w' = w2" using r h p by (auto simp: render_tree_def Let_def)
    ultimately show ?thesis using same_counts_ok [OF asking_same_counts(4) [OF ok p]] by simp
  qed
qed

lemma nsr_tui_render_cursors:
  assumes "world_ok w" "cursors_ok w" "1 \<le> fst scr" "nsr_tui_render scr up now tel w = (cs, w')"
  shows "cursors_ok w'"
proof (cases "frozen (w_tui w) \<and> current_mode (w_tui w) \<noteq> NSR_UI_TOOLS")
  case True
  then show ?thesis using assms by (simp add: nsr_tui_render_def)
next
  case False
  obtain cs1 w1 where r: "(case current_mode (w_tui w) of NSR_UI_GRID \<Rightarrow> render_grid scr w | NSR_UI_TREE \<Rightarrow> render_tree scr w
      | NSR_UI_TOOLS \<Rightarrow> render_tools scr w | NSR_UI_NORMAL \<Rightarrow> render_normal scr up tel w) = (cs1, w1)" by force
  then have ok: "cursors_ok w1" using render_cursors [OF assms(1-3)] by (cases "current_mode (w_tui w)") simp_all
  obtain n tui where d: "draw_notice now scr (w_tui w1) = (n, tui)" by force
  have "w' = w1\<lparr>w_tui := tui\<rparr>" using assms(4) False r d by (auto simp: nsr_tui_render_def)
  moreover have "cursors_below a b tui = cursors_below a b (w_tui w1)" for a b
    using d by (auto simp: draw_notice_def Let_def split: if_splits prod.splits)
  ultimately show ?thesis using ok by (simp add: cursors_ok_def)
qed

section \<open>Runs of the interface\<close>

text \<open>
  Frames, keys, the settings switch, and updates of the topology between them, in any order.  The
  screen has at least one row and may have another size in every frame.
\<close>

inductive ui_step :: "world \<Rightarrow> world \<Rightarrow> bool" where
  frame: "1 \<le> fst scr \<Longrightarrow> ui_step w (snd (nsr_tui_render scr up now tel w))"
| key: "ui_step w (snd (snd (nsr_tui_update env ch w)))"
| settings: "ui_step w (w\<lparr>w_tui := nsr_tui_toggle_dashboard (w_tui w)\<rparr>)"
| telemetry: "telemetry_wf tel \<Longrightarrow> tel_target_ip tel \<noteq> [] \<Longrightarrow> length (tel_target_ip tel) \<le> 47 \<Longrightarrow>
    ui_step w (w\<lparr>w_topo := nsr_topology_update_from_telemetry clock tel (w_topo w)\<rparr>)"

inductive ui_reach :: "world \<Rightarrow> bool" where
  start: "reg_inv reg \<Longrightarrow> ui_reach \<lparr>w_tui = tui_zero\<lparr>ui_keys := keys\<rparr>, w_topo = nsr_topology_init, w_plugins = Some reg, w_config = file,
    w_tree = []\<rparr>"
| step: "ui_reach w \<Longrightarrow> ui_step w w' \<Longrightarrow> ui_reach w'"

lemma update_topo_inv:
  assumes "topo_inv t" "telemetry_wf tel" "tel_target_ip tel \<noteq> []" "length (tel_target_ip tel) \<le> 47"
  shows "topo_inv (nsr_topology_update_from_telemetry clock tel t)"
  by (rule update_result [OF assms(1,2) refl assms(3,4)]) blast

lemma update_count:
  assumes "topo_inv t" "telemetry_wf tel" "tel_target_ip tel \<noteq> []" "length (tel_target_ip tel) \<le> 47"
  shows "nsr_topology_active_count t \<le> nsr_topology_active_count (nsr_topology_update_from_telemetry clock tel t)"
proof (rule update_result [OF assms(1,2) refl assms(3,4)])
  fix t2 assume "extends t t2" "tp_node_count (nsr_topology_update_from_telemetry clock tel t) = tp_node_count t2"
  then show ?thesis
    using active_count_nonneg(2) [OF assms(1)] active_count_nonneg(2) [OF update_topo_inv [OF assms]]
    by (simp add: extends_def word_le_def)
qed

lemma ui_step_ok: "ui_step w w' \<Longrightarrow> world_ok w \<and> cursors_ok w \<Longrightarrow> world_ok w' \<and> cursors_ok w'"
proof (induction rule: ui_step.induct)
  case (frame scr w up now tel)
  then show ?case using nsr_tui_render_ok nsr_tui_render_cursors by (metis prod.collapse)
next
  case (key w env ch)
  then show ?case using nsr_tui_update_ok nsr_tui_update_cursors by (metis prod.collapse)
next
  case (settings w)
  then show ?case by (simp add: world_ok_parts cursors_ok_def)
next
  case (telemetry tel w clock)
  then show ?case using update_topo_inv [OF world_ok_parts(2)] update_count [OF world_ok_parts(2), of w tel clock]
    by (auto simp: cursors_ok_def intro: cursors_below_mono)
qed


definition ex_world :: world where
  "ex_world = \<lparr>w_tui = tui_zero\<lparr>ui_keys := unmapped\<rparr>, w_topo = nsr_topology_init, w_plugins = Some (nsr_plugins_init []), w_config = None, w_tree = []\<rparr>"


end
