(* ===== verification/Main_Laws.thy ===== *)
theory Main_Laws
  imports Main_Program Tui_Laws
begin

text \<open>
  Laws of the main process: its invariant over every run together with the engines of its sessions,
  what a turn makes of the queued snapshots, and what it does about children that end.
\<close>

section \<open>The target of an engine\<close>

lemma sweep_target [simp]: "tel_target_ip (g_state (sweep_timeouts now st)) = tel_target_ip (g_state st)"
proof -
  have "tel_target_ip (g_state (fold (sweep_one now) js st)) = tel_target_ip (g_state st)" for js st
    by (induction js arbitrary: st) (simp_all add: sweep_one_def)
  then show ?thesis by (simp add: sweep_timeouts_eq)
qed

lemma emit_target [simp]: "tel_target_ip (g_state (snd (emit_burst now n st))) = tel_target_ip (g_state st)"
  by (induction n arbitrary: st) (simp_all add: case_prod_beta advance_probe_def Let_def)

lemma tick_target [simp]: "tel_target_ip (g_state (snd (logic_tick now ms st))) = tel_target_ip (g_state st)"
  by (simp add: logic_tick_eq Let_def) (simp add: tick_state_def adjust_pacing_def Let_def)

lemma apply_target [simp]: "tel_target_ip (g_state (apply_observations ntop clock k obs st)) = tel_target_ip (g_state st)"
  by (induction ntop clock k obs st rule: apply_observations.induct) (simp_all add: update_state_def)

lemma drain_target [simp]: "tel_target_ip (g_state (snd (drain_observations ntop clock k g2l st))) = tel_target_ip (g_state st)"
proof (induction ntop clock k g2l st rule: drain_observations.induct)
  case (1 ntop clock k g2l st)
  show ?case
  proof (cases "nsr_shm_ring_pop_batch g2l LOGIC_BATCH")
    case (Pair obs r)
    then show ?thesis using 1 [OF Pair [symmetric]] by (subst drain_observations.simps) auto
  qed
qed

lemma logic_reach_target:
  "logic_reach ntop config is st \<Longrightarrow> tel_target_ip (g_state st) = c_strncpy 47 (cfg_target_ip config)"
proof (induction rule: logic_reach.induct)
  case (start now)
  show ?case by (simp add: nsr_logic_init_def c_strncpy_def)
next
  case (iteration "is" st now clock ms io io' st')
  obtain x where "st' = (snd (drain_observations ntop clock 0 (io_g2l io) (snd (logic_tick now ms st))))\<lparr>last_tui_us := x\<rparr>"
    using nsr_logic_iteration_state [OF iteration(2)] by blast
  then show ?case using iteration(3) by simp
next
  case (signal "is" st)
  then show ?case by (simp add: handle_sigusr1_def)
qed

section \<open>Merging snapshots\<close>

text \<open>A snapshot of a session with target \<open>g\<close>.\<close>

definition snapshot_ok :: "string \<Rightarrow> nsr_telemetry_state \<Rightarrow> bool" where
  "snapshot_ok g tel \<longleftrightarrow> telemetry_wf tel \<and> tel_target_ip tel = g"

definition target_ok :: "string \<Rightarrow> bool" where
  "target_ok g \<longleftrightarrow> g \<noteq> [] \<and> length g \<le> 47"

text \<open>A topology only grows: it keeps the nodes it has, and once it is full it stays full.\<close>

definition registered :: "nsr_topology_state \<Rightarrow> string \<times> string \<Rightarrow> bool" where
  "registered t k \<longleftrightarrow> topo_lookup t k \<noteq> None \<or> full t"

definition grows :: "nsr_topology_state \<Rightarrow> nsr_topology_state \<Rightarrow> bool" where
  "grows t t' \<longleftrightarrow> topo_inv t' \<and> topo_lookup t \<subseteq>\<^sub>m topo_lookup t' \<and> unat (tp_node_count t) \<le> unat (tp_node_count t')"

lemma grows_refl: "topo_inv t \<Longrightarrow> grows t t"
  by (simp add: grows_def)

lemma grows_trans: "grows t t' \<Longrightarrow> grows t' t'' \<Longrightarrow> grows t t''"
  unfolding grows_def by (auto intro: map_le_trans)

lemma registered_grows: "grows t t' \<Longrightarrow> registered t k \<Longrightarrow> registered t' k"
  by (cases k) (auto simp: grows_def registered_def map_le_def dom_def)

lemma update_grows:
  assumes "topo_inv t" "snapshot_ok g tel" "target_ok g"
  shows "grows t (nsr_topology_update_from_telemetry clock tel t)"
    and "1 \<le> i \<Longrightarrow> i < 64 \<Longrightarrow> a \<in> set (hop_addrs (tel_hops tel ! i)) \<Longrightarrow> registered (nsr_topology_update_from_telemetry clock tel t) (a, g)"
proof -
  let ?T = "nsr_topology_update_from_telemetry clock tel t"
  have tel: "telemetry_wf tel" "tel_target_ip tel = g" "g \<noteq> []" "length g \<le> 47" using assms by (auto simp: snapshot_ok_def target_ok_def)
  obtain t2 where s: "extends t t2" "\<And>i k. 1 \<le> i \<Longrightarrow> i < 64 \<Longrightarrow> k \<in> set (hop_keys g (tel_hops tel ! i)) \<Longrightarrow> settled t2 k"
    "topo_inv ?T" "topo_lookup ?T = topo_lookup t2" "tp_node_count ?T = tp_node_count t2"
    by (rule update_result [OF assms(1) tel]) blast
  then show "grows t ?T" by (simp add: grows_def extends_def word_le_nat_alt)
  show "registered ?T (a, g)" if "1 \<le> i" "i < 64" "a \<in> set (hop_addrs (tel_hops tel ! i))"
    using s(2) [OF that(1,2), of "(a, g)"] that(3) s(4,5) by (auto simp: settled_def registered_def hop_keys_def id_at_def)
qed

fun merge_snapshots :: "clocks \<Rightarrow> nat \<Rightarrow> nsr_telemetry_state list \<Rightarrow> nsr_topology_state \<Rightarrow> nsr_topology_state" where
  "merge_snapshots clock k [] t = t"
| "merge_snapshots clock k (tel # tels) t = merge_snapshots clock (k + 1) tels (nsr_topology_update_from_telemetry (clock k) tel t)"

lemma merge_snapshots_append:
  "merge_snapshots clock k (xs @ ys) t = merge_snapshots clock (k + length xs) ys (merge_snapshots clock k xs t)"
  by (induction clock k xs t rule: merge_snapshots.induct) simp_all

definition snapshots_ok :: "nsr_telemetry_state list \<Rightarrow> bool" where
  "snapshots_ok tels \<longleftrightarrow> (\<forall>tel \<in> set tels. snapshot_ok (tel_target_ip tel) tel \<and> target_ok (tel_target_ip tel))"

lemma merge_grows:
  "topo_inv t \<Longrightarrow> snapshots_ok tels \<Longrightarrow> grows t (merge_snapshots clock k tels t)"
proof (induction clock k tels t rule: merge_snapshots.induct)
  case (2 clock k x xs t)
  have g: "grows t (nsr_topology_update_from_telemetry (clock k) x t)"
    using 2(3) by (intro update_grows(1) [OF 2(2)]) (auto simp: snapshots_ok_def)
  then have "grows (nsr_topology_update_from_telemetry (clock k) x t) (merge_snapshots clock k (x # xs) t)"
    using 2(1,3) by (simp add: grows_def snapshots_ok_def)
  then show ?case by (rule grows_trans [OF g])
qed (simp add: grows_refl)

lemma merge_registers:
  assumes "topo_inv t" "snapshots_ok tels" "tel \<in> set tels" "1 \<le> i" "i < 64" "a \<in> set (hop_addrs (tel_hops tel ! i))"
  shows "registered (merge_snapshots clock k tels t) (a, tel_target_ip tel)"
proof -
  obtain xs ys where tels: "tels = xs @ tel # ys" using assms(3) by (meson split_list)
  let ?k = "k + length xs" and ?t = "merge_snapshots clock k xs t"
  let ?T = "nsr_topology_update_from_telemetry (clock ?k) tel ?t"
  have ok: "snapshots_ok xs" "snapshots_ok ys" "snapshot_ok (tel_target_ip tel) tel" "target_ok (tel_target_ip tel)"
    using assms(2) by (simp_all add: tels snapshots_ok_def)
  have "topo_inv ?t" using merge_grows [OF assms(1) ok(1)] by (simp add: grows_def)
  note T = update_grows [OF this ok(3,4), where clock = "clock ?k"]
  have "grows ?T (merge_snapshots clock (?k + 1) ys ?T)" using T(1) ok(2) by (intro merge_grows) (simp_all add: grows_def)
  from registered_grows [OF this T(2) [OF assms(4-6)]] show ?thesis by (simp add: tels merge_snapshots_append)
qed

text \<open>Draining one ring, and all rings of the active sessions.\<close>

lemma drain_l2t_eq:
  assumes "large_inv r"
  shows "\<exists>r'. drain_l2t clock k r tel t = Some (k + large_used r, r', last (tel # large_contents r), merge_snapshots clock k (large_contents r) t) \<and>
    large_inv r' \<and> large_contents r' = []"
  using assms
proof (induction "large_used r" arbitrary: k r tel t)
  case 0
  then have "large_contents r = []" by (metis length_0_conv length_large_contents)
  then show ?case using 0 by (simp add: drain_l2t.simps large_pop_eq)
next
  case (Suc n)
  let ?r = "r\<lparr>ltail := (ltail r + 1) AND 15\<rparr>" and ?x = "ldata r ! unat (ltail r)"
  have p: "large_inv ?r" "large_contents r = ?x # large_contents ?r" using large_popped [OF Suc.prems] Suc(2) by simp_all
  then have u: "n = large_used ?r" "large_used r = Suc (large_used ?r)" using Suc(2) by (metis length_Cons length_large_contents old.nat.inject)+
  have "drain_l2t clock k r tel t = drain_l2t clock (k + 1) ?r ?x (nsr_topology_update_from_telemetry (clock k) ?x t)"
    using Suc(2) by (subst drain_l2t.simps) (simp add: large_pop_eq [OF Suc.prems])
  then show ?case using Suc(1) [OF u(1) p(1), of "k + 1" ?x] p(2) u(2) by simp
qed

definition queued :: "nsr_session list \<Rightarrow> nsr_telemetry_state list" where
  "queued ss = concat (map (\<lambda>s. large_contents (se_l2t s)) (filter se_active ss))"

lemma queued_simps [simp]:
  "queued [] = []" "queued (s # ss) = (if se_active s then large_contents (se_l2t s) @ queued ss else queued ss)"
  by (simp_all add: queued_def)

lemma last_Cons_append: "last (x # xs @ ys) = last (last (x # xs) # ys)"
  by (cases "ys = []") simp_all

definition drained :: "nsr_session \<Rightarrow> nsr_session \<Rightarrow> bool" where
  "drained s s' \<longleftrightarrow> (\<exists>r. s' = s\<lparr>se_l2t := r\<rparr> \<and> large_inv r \<and>
     (if se_active s then large_contents r = [] else r = se_l2t s))"

lemma drained_active: "drained s s' \<Longrightarrow> se_active s' = se_active s"
  by (auto simp: drained_def)

lemma drain_sessions_eq:
  assumes "\<forall>s \<in> set ss. large_inv (se_l2t s)"
  shows "\<exists>ss'. drain_sessions clock k ss tel t =
      Some (list_ex se_active ss, ss', last (tel # queued ss), merge_snapshots clock k (queued ss) t) \<and> list_all2 drained ss ss'"
  using assms
proof (induction ss arbitrary: k tel t)
  case (Cons s ss)
  have inv: "large_inv (se_l2t s)" using Cons.prems by simp
  show ?case
  proof (cases "se_active s")
    case False
    obtain ss' where "drain_sessions clock k ss tel t = Some (list_ex se_active ss, ss', last (tel # queued ss), merge_snapshots clock k (queued ss) t)"
      "list_all2 drained ss ss'" using Cons by (metis list.set_intros(2))
    moreover have "drained s s" using inv False by (auto simp: drained_def intro: exI [of _ "se_l2t s"])
    ultimately show ?thesis using False by simp
  next
    case True
    let ?c = "large_contents (se_l2t s)"
    obtain r where r: "drain_l2t clock k (se_l2t s) tel t = Some (k + large_used (se_l2t s), r, last (tel # ?c), merge_snapshots clock k ?c t)"
      "large_inv r" "large_contents r = []" using drain_l2t_eq [OF inv] by blast
    obtain ss' where "drain_sessions clock (k + large_used (se_l2t s)) ss (last (tel # ?c)) (merge_snapshots clock k ?c t) =
        Some (list_ex se_active ss, ss', last (last (tel # ?c) # queued ss),
          merge_snapshots clock (k + large_used (se_l2t s)) (queued ss) (merge_snapshots clock k ?c t))" "list_all2 drained ss ss'"
      using Cons by (metis list.set_intros(2))
    moreover have "drained s (s\<lparr>se_l2t := r\<rparr>)" using r True by (auto simp: drained_def)
    ultimately show ?thesis
      using True r(1) by (simp add: merge_snapshots_append last_Cons_append del: last.simps)
  qed
qed simp

section \<open>The interface and the topology\<close>

lemma extends_grows: "extends t t' \<Longrightarrow> grows t t'"
  by (simp add: extends_def grows_def word_le_nat_alt)

lemma toggle_grows: "topo_inv t \<Longrightarrow> grows t (toggle_control_plane i t)"
  unfolding toggle_control_plane_def
  by (intro extends_grows extends_upd_node(1)) (simp_all add: same_node_def node_key_def)

lemma ask_hops_frame: "ask_hops hops n w = (anns, w') \<Longrightarrow> w_topo w' = w_topo w"
  by (auto simp: ask_hops_def split: option.splits prod.splits)

lemma render_topo:
  assumes "nsr_tui_render scr up now tel w = (cs, w')"
  shows "w_topo w' = w_topo w"
proof -
  have "w_topo w1 = w_topo w" if "render_normal scr up tel w = (cs1, w1)" for cs1 w1
    using that by (auto simp: render_normal_def Let_def split: prod.splits dest!: ask_hops_frame ask_panels_frame(2))
  moreover have "w_topo w1 = w_topo w" if "render_grid scr w = (cs1, w1)" for cs1 w1
    using that by (auto simp: render_grid_def Let_def split: prod.splits if_splits dest!: ask_panels_frame(2))
  moreover have "w_topo w1 = w_topo w" if "render_tree scr w = (cs1, w1)" for cs1 w1
    using that by (auto simp: render_tree_def Let_def split: prod.splits if_splits dest!: ask_hops_frame ask_panels_frame(2))
  moreover have "w_topo w1 = w_topo w" if "render_tools scr w = (cs1, w1)" for cs1 w1
    using that by (auto simp: render_tools_def Let_def split: prod.splits)
  ultimately show ?thesis
    using assms by (auto simp: nsr_tui_render_def split: if_splits prod.splits nsr_ui_mode.splits)
qed

lemma key_grows:
  assumes "topo_inv (w_topo w)"
  shows "grows (w_topo w) (w_topo (grid_key kc cols ch w))" "grows (w_topo w) (w_topo (tree_key kc ch w))"
    "normal_key ch w = (cmd, w') \<Longrightarrow> w_topo w' = w_topo w"
  using assms
  by (auto simp: grid_key_def tree_key_def normal_key_def Let_def focus_node_def mark_node_def grows_refl toggle_grows split: option.splits if_splits)

lemma tools_key_topo [simp]: "w_topo (tools_key kc sp writable ch w) = w_topo w"
  by (simp add: tools_key_def Let_def)

lemma plugin_key_topo:
  "plugin_on_key ch w = (files, b, w') \<Longrightarrow> w_topo w' = w_topo w" "plugin_modal w = (b, w') \<Longrightarrow> w_topo w' = w_topo w"
  by (auto simp: plugin_on_key_def plugin_modal_def split: option.splits prod.splits)

lemma update_topo_grows:
  assumes "topo_inv (w_topo w)" "nsr_tui_update env ch w = (cmd, files, w')"
  shows "grows (w_topo w) (w_topo w')"
proof (cases "ch < 0")
  case True
  then show ?thesis using assms by (simp add: nsr_tui_update_def grows_refl)
next
  case False
  obtain modal w1 where m: "plugin_modal w = (modal, w1)" by force
  obtain fs handled w2 where k: "plugin_on_key ch w1 = (fs, handled, w2)" by (metis prod_cases3)
  obtain cmd3 w3 where n: "normal_key ch w2 = (cmd3, w3)" by force
  have t: "w_topo w1 = w_topo w" "w_topo w2 = w_topo w" using plugin_key_topo m k by simp_all
  show ?thesis
    using assms False m k n t key_grows [of w2] key_grows(3) [OF _ n]
    by (auto simp: nsr_tui_update_def Let_def grows_refl split: if_splits option.splits)
qed

section \<open>Sessions\<close>

text \<open>What supervision keeps of a session: rings and target, and that a session is never made active again.\<close>

definition same_session :: "nsr_session \<Rightarrow> nsr_session \<Rightarrow> bool" where
  "same_session s s' \<longleftrightarrow> se_l2g s' = se_l2g s \<and> se_g2l s' = se_g2l s \<and> se_l2t s' = se_l2t s \<and> se_target_ip s' = se_target_ip s \<and>
     se_target_host s' = se_target_host s \<and> (se_active s' \<longrightarrow> se_active s)"

lemma supervise_same: "supervise fork ms pid status s n = (as, s', n') \<Longrightarrow> same_session s s'"
  by (auto simp: supervise_def spawn_gatekeeper_def spawn_logic_def same_session_def split: if_splits wait_status.splits)

lemma supervise_all_same: "supervise_all fork ms pid status ss n = (as, ss', n') \<Longrightarrow> list_all2 same_session ss ss'"
  by (induction fork ms pid status ss n arbitrary: as ss' n' rule: supervise_all.induct)
    (auto split: prod.splits dest: supervise_same)

definition session_ok :: "nsr_session \<Rightarrow> bool" where
  "session_ok s \<longleftrightarrow> large_inv (se_l2t s) \<and> target_ok (se_target_ip s) \<and> (\<forall>tel \<in> set (large_contents (se_l2t s)). snapshot_ok (se_target_ip s) tel)"

definition main_ok :: "main_state \<Rightarrow> bool" where
  "main_ok m \<longleftrightarrow> 1 \<le> unat (ms_interval_ms m) \<and> unat (ms_interval_ms m) \<le> 1009 \<and> ms_sessions m \<noteq> [] \<and> length (ms_sessions m) \<le> NSR_MAX_TARGETS \<and>
     (\<forall>s \<in> set (ms_sessions m). session_ok s) \<and> world_ok (ms_world m)"

lemma session_ok_same: "same_session s s' \<Longrightarrow> session_ok s \<Longrightarrow> session_ok s'"
  by (simp add: same_session_def session_ok_def)

lemma session_ok_drained: "drained s s' \<Longrightarrow> session_ok s \<Longrightarrow> session_ok s'"
  by (auto simp: drained_def session_ok_def split: if_splits)

lemma queued_ok: "\<forall>s \<in> set ss. session_ok s \<Longrightarrow> snapshots_ok (queued ss)"
  by (induction ss) (auto simp: session_ok_def snapshots_ok_def snapshot_ok_def)

lemma list_all2_all: "list_all2 R xs ys \<Longrightarrow> (\<And>x y. R x y \<Longrightarrow> P x \<Longrightarrow> P y) \<Longrightarrow> \<forall>x \<in> set xs. P x \<Longrightarrow> \<forall>y \<in> set ys. P y"
  by (induction rule: list_all2_induct) auto

lemma list_all2_ex: "list_all2 R xs ys \<Longrightarrow> (\<And>x y. R x y \<Longrightarrow> P x \<Longrightarrow> P y) \<Longrightarrow> list_ex P xs \<Longrightarrow> list_ex P ys"
  by (induction rule: list_all2_induct) auto

lemma change_interval_ok:
  assumes "1 \<le> unat ms" "unat ms \<le> 1009"
  shows "1 \<le> unat (change_interval cmd ms) \<and> unat (change_interval cmd ms) \<le> 1009"
proof -
  have "unat (ms + 10) = unat ms + 10" using assms by (simp add: unat_word_ariths)
  moreover have "unat (ms - 10) = unat ms - 10" if "10 \<le> unat ms"
    using that by (simp add: unat_sub word_le_nat_alt)
  ultimately show ?thesis using assms by (auto simp: change_interval_def word_less_nat_alt)
qed

lemma run_command_ok:
  assumes "main_ok m" "run_command cmd m = (as, m')"
  shows "main_ok m'" "ms_sessions m' = ms_sessions m" "w_topo (ms_world m') = w_topo (ms_world m)" "ms_last m' = ms_last m"
    "ms_running m' \<longrightarrow> ms_running m" "ms_forks m' = ms_forks m" "\<forall>a \<in> set as. \<exists>p. a = Kill p SIGUSR1"
  using assms change_interval_ok [of "ms_interval_ms m" cmd]
  by (auto simp: run_command_def main_ok_def world_ok_parts split: if_splits)

section \<open>A turn\<close>

definition supervised :: "forks \<Rightarrow> turn \<Rightarrow> main_state \<Rightarrow> action list \<times> nsr_session list \<times> nat" where
  "supervised fork tn m =
     (case tn_wait tn of
        None \<Rightarrow> ([], ms_sessions m, ms_forks m)
      | Some (pid, status) \<Rightarrow> supervise_all fork (ms_interval_ms m) pid status (ms_sessions m) (ms_forks m))"

lemma supervised_same: "supervised fork tn m = (as, ss, n) \<Longrightarrow> list_all2 same_session (ms_sessions m) ss"
  by (auto simp: supervised_def same_session_def intro!: list.rel_refl split: option.splits dest: supervise_all_same)

lemma telemetry_world_ok:
  assumes "world_ok w" "topo_inv t"
  shows "world_ok (w\<lparr>w_topo := t, w_plugins := map_option (nsr_plugins_update_telemetry tel (Some t)) (w_plugins w)\<rparr>)"
proof (cases "w_plugins w")
  case (Some reg)
  have "plugin_step (w_config w, reg) (w_config w, nsr_plugins_update_telemetry tel (Some t) reg)" by (rule plugin_step.telemetry)
  from plugin_step_inv [OF this] show ?thesis using assms Some by (simp add: world_ok_def)
qed (use assms in \<open>simp add: world_ok_def\<close>)

text \<open>A turn returns, keeps the invariant, merges what the active sessions have queued, and goes on only with an active session.\<close>

lemma main_turn_ok:
  assumes "main_ok m" "supervised fork tn m = (as, ss, n)"
  shows "\<exists>bs calls files m'. main_turn fork tn m = Some (as @ bs, calls, files, m') \<and> main_ok m' \<and>
    list_all2 drained ss (ms_sessions m') \<and> ms_last m' = last (ms_last m # queued ss) \<and>
    grows (merge_snapshots (tn_clock tn) 0 (queued ss) (w_topo (ms_world m))) (w_topo (ms_world m')) \<and>
    (ms_running m' \<longrightarrow> ms_running m \<and> list_ex se_active ss) \<and> ms_forks m' = n \<and> (\<forall>a \<in> set bs. \<exists>p. a = Kill p SIGUSR1)"
proof -
  have ok: "\<forall>s \<in> set ss. session_ok s"
    by (rule list_all2_all [OF supervised_same [OF assms(2)]]) (use assms(1) session_ok_same in \<open>auto simp: main_ok_def\<close>)
  let ?t = "w_topo (ms_world m)" and ?tel = "last (ms_last m # queued ss)"
  let ?T = "merge_snapshots (tn_clock tn) 0 (queued ss) ?t"
  have "\<forall>s \<in> set ss. large_inv (se_l2t s)" using ok by (simp add: session_ok_def)
  from drain_sessions_eq [OF this] obtain ss' where
    d: "drain_sessions (tn_clock tn) 0 ss (ms_last m) ?t = Some (list_ex se_active ss, ss', ?tel, ?T)" "list_all2 drained ss ss'" by blast
  have w: "world_ok (ms_world m)" "topo_inv ?t" using assms(1) by (simp_all add: main_ok_def world_ok_parts)
  have T: "topo_inv ?T" using merge_grows [OF w(2) queued_ok [OF ok]] by (simp add: grows_def)
  have ok': "\<forall>s \<in> set ss'. session_ok s" by (rule list_all2_all [OF d(2) _ ok]) (rule session_ok_drained)
  have len: "ss' \<noteq> []" "length ss' \<le> NSR_MAX_TARGETS"
    using assms(1) list_all2_lengthD [OF supervised_same [OF assms(2)]] list_all2_lengthD [OF d(2)] by (auto simp: main_ok_def)
  let ?w = "(ms_world m)\<lparr>w_topo := ?T, w_plugins := map_option (nsr_plugins_update_telemetry ?tel (Some ?T)) (w_plugins (ms_world m))\<rparr>"
  let ?m = "m\<lparr>ms_sessions := ss', ms_forks := n, ms_running := ms_running m \<and> list_ex se_active ss, ms_last := ?tel, ms_world := ?w\<rparr>"
  have w1: "world_ok ?w" by (rule telemetry_world_ok [OF w(1) T])
  then have m1: "main_ok ?m" using assms(1) ok' len by (simp add: main_ok_def)
  show ?thesis
  proof (cases "ms_silent m")
    case True
    then have "main_turn fork tn m = Some (as, [], [], ?m)"
      using assms(2) d(1) by (simp add: main_turn_def supervised_def Let_def)
    then show ?thesis using m1 d(2) grows_refl [OF T] by (intro exI [of _ "[]"] exI [of _ ?m] exI conjI) auto
  next
    case False
    obtain calls w2 where r: "nsr_tui_render (tn_screen tn) (tn_uptime tn) (te_now (tn_env tn)) ?tel ?w = (calls, w2)" by force
    obtain cmd files w3 where u: "nsr_tui_update (tn_env tn) (tn_key tn) w2 = (cmd, files, w3)" by (metis prod_cases3)
    obtain bs m' where c: "run_command cmd (?m\<lparr>ms_world := w3\<rparr>) = (bs, m')" by force
    have w2: "world_ok w2" "w_topo w2 = ?T" using nsr_tui_render_ok [OF w1 r] render_topo [OF r] by simp_all
    have w3: "world_ok w3" "grows ?T (w_topo w3)" using nsr_tui_update_ok [OF w2(1) u] update_topo_grows [OF _ u] w2(2) T by simp_all
    have m2: "main_ok (?m\<lparr>ms_world := w3\<rparr>)" using m1 w3(1) by (simp add: main_ok_def)
    note rc = run_command_ok [OF m2 c]
    have "main_turn fork tn m = Some (as @ bs, calls, files, m')"
      using assms(2) d(1) r u c False by (simp add: main_turn_def supervised_def Let_def)
    then show ?thesis using rc d(2) w3(2) by (intro exI conjI) (auto simp del: last.simps)
  qed
qed

section \<open>Runs\<close>

lemma new_session_ok: "ip \<noteq> [] \<Longrightarrow> length ip \<le> 45 \<Longrightarrow> session_ok (new_session ip host)"
  by (simp add: session_ok_def new_session_def target_ok_def c_strncpy_def)

lemma resolve_target_ok: "ntop_ok ntop \<Longrightarrow> resolve_target gai ntop arg fam = Some ip \<Longrightarrow> ip \<noteq> [] \<and> length ip \<le> 45"
  by (auto simp: resolve_target_def ntop_ok_def split: option.splits prod.splits family.splits)

lemma start_sessions_ok:
  assumes "ntop_ok (sy_ntop sy)" "start_sessions sy op args ss n = (as, Some (ss', n'))" "\<forall>s \<in> set ss. session_ok s" "length ss \<le> NSR_MAX_TARGETS"
  shows "(\<forall>s \<in> set ss'. session_ok s) \<and> length ss' \<le> NSR_MAX_TARGETS"
  using assms
proof (induction args arbitrary: ss n as)
  case (Cons arg args)
  show ?case
  proof (cases "length ss \<ge> NSR_MAX_TARGETS")
    case False
    show ?thesis
    proof (cases "resolve_target (sy_gai sy) (sy_ntop sy) arg (op_family op)")
      case None
      then show ?thesis using Cons False by auto
    next
      case (Some ip)
      let ?s = "(new_session ip arg)\<lparr>gk_pid := sy_fork sy n, logic_pid := sy_fork sy (n + 1)\<rparr>"
      obtain bs where r: "start_sessions sy op args (ss @ [?s]) (n + 2) = (bs, Some (ss', n'))"
        using Cons.prems(2) False Some by (auto simp: spawn_gatekeeper_def spawn_logic_def split: if_splits prod.splits)
      have "session_ok ?s" using new_session_ok resolve_target_ok [OF Cons.prems(1) Some] by (simp add: session_ok_def)
      then show ?thesis using Cons.prems(3) False by (intro Cons.IH [OF Cons.prems(1) r]) simp_all
    qed
  qed (use Cons.prems in auto)
qed auto

lemma read_options_interval:
  "read_options gs op = Some op' \<Longrightarrow> 10 \<le> unat (op_interval_ms op) \<and> unat (op_interval_ms op) \<le> 1000 \<Longrightarrow>
   10 \<le> unat (op_interval_ms op') \<and> unat (op_interval_ms op') \<le> 1000"
  by (induction gs op rule: read_options.induct) (auto simp: clamp_interval_def word_less_nat_alt)

lemma load_from_home_inv: "reg_inv reg \<Longrightarrow> reg_inv (nsr_plugins_load_from_home dirs file home reg)"
  using plugin_step_inv [OF plugin_step.load] by (auto simp: nsr_plugins_load_from_home_def Let_def split: option.split)

lemma main_start_ok:
  assumes "ntop_ok (sy_ntop sy)" "main_start sy file gs args = (as, Some (calls, m))"
  shows "main_ok m"
proof -
  let ?reg = "nsr_plugins_load_user_dir (sy_dirs sy) file (sy_user sy) (nsr_plugins_init (nsr_config_path (sy_user sy)))"
  obtain op where op: "read_options gs options_default = Some op" using assms(2) by (auto simp: main_start_def split: option.splits)
  obtain ss n where ss: "start_sessions sy op args [] 0 = (as, Some (ss, n))" "ss \<noteq> []" "ms_interval_ms m = op_interval_ms op" "ms_sessions m = ss"
    "ms_world m = \<lparr>w_tui = (if op_silent op then tui_zero else tui_zero\<lparr>ui_keys := key_mgr_init (Some ?reg)\<rparr>),
       w_topo = nsr_topology_init, w_plugins = Some ?reg, w_config = file, w_tree = []\<rparr>"
    using assms(2) op by (auto simp: main_start_def Let_def split: if_splits prod.splits option.splits)
  have "10 \<le> unat (op_interval_ms op) \<and> unat (op_interval_ms op) \<le> 1000"
    by (rule read_options_interval [OF op]) (simp add: options_default_def)
  moreover have "(\<forall>s \<in> set ss. session_ok s) \<and> length ss \<le> NSR_MAX_TARGETS"
    by (rule start_sessions_ok [OF assms(1) ss(1)]) simp_all
  moreover have "reg_inv (nsr_plugins_init p)" for p by (simp add: reg_inv_def nsr_plugins_init_def)
  then have "reg_inv ?reg" by (simp add: nsr_plugins_load_user_dir_def Let_def load_from_home_inv split: option.split)
  ultimately show ?thesis using ss(2-5) ui_ok_zero topo_inv_init by (simp add: main_ok_def world_ok_def ui_ok_def)
qed

text \<open>
  Runs of the program: turns of the loop, signals, and, between them, the engines of the sessions
  publishing snapshots.
\<close>

inductive main_reach :: "system \<Rightarrow> main_state \<Rightarrow> bool" for sy where
  start: "main_start sy file gs args = (as, Some (calls, m)) \<Longrightarrow> main_reach sy m"
| turn: "main_reach sy m \<Longrightarrow> ms_running m \<Longrightarrow> main_turn (sy_fork sy) tn m = Some (as, calls, files, m') \<Longrightarrow> main_reach sy m'"
| publish: "main_reach sy m \<Longrightarrow> i < length (ms_sessions m) \<Longrightarrow>
    logic_reach (sy_ntop sy) (session_config interval_ms (ms_sessions m ! i)) is st \<Longrightarrow>
    nsr_shm_ring_large_push (se_l2t (ms_sessions m ! i)) (g_state st) = Some (ok, r) \<Longrightarrow>
    main_reach sy (m\<lparr>ms_sessions := (ms_sessions m)[i := (ms_sessions m ! i)\<lparr>se_l2t := r\<rparr>]\<rparr>)"
| signal: "main_reach sy m \<Longrightarrow> main_reach sy (signal_handler m)"

lemma large_push_cases:
  assumes "large_inv r" "nsr_shm_ring_large_push r x = Some (ok, r')"
  shows "large_inv r' \<and> set (large_contents r') \<subseteq> insert x (set (large_contents r))"
  using assms large_pushed [OF assms(1), of x] large_used_lt [of r] by (auto simp: large_push_eq split: if_splits)

lemma published_ok:
  assumes "session_ok s" "ntop_ok ntop" "logic_reach ntop (session_config ms s) is st" "nsr_shm_ring_large_push (se_l2t s) (g_state st) = Some (ok, r)"
  shows "session_ok (s\<lparr>se_l2t := r\<rparr>)"
proof -
  have "telemetry_wf (g_state st)" using logic_reach_inv [OF assms(3,2)] by (simp add: logic_inv_def)
  moreover have "tel_target_ip (g_state st) = se_target_ip s"
    using logic_reach_target [OF assms(3)] assms(1) by (simp add: session_config_def session_ok_def target_ok_def c_strncpy_def)
  ultimately show ?thesis using large_push_cases [OF _ assms(4)] assms(1) by (auto simp: session_ok_def snapshot_ok_def)
qed

lemma main_reach_ok: "main_reach sy m \<Longrightarrow> ntop_ok (sy_ntop sy) \<Longrightarrow> main_ok m"
proof (induction rule: main_reach.induct)
  case (start cfg gs args as calls m)
  then show ?case by (simp add: main_start_ok)
next
  case (turn m tn as calls files m')
  obtain bs ss n where "supervised (sy_fork sy) tn m = (bs, ss, n)" by (metis prod_cases3)
  from main_turn_ok [OF turn(4) [OF turn(5)] this] turn(3) show ?case by auto
next
  case (publish m i interval_ms "is" st ok r)
  then show ?case using published_ok [of "ms_sessions m ! i"] by (auto simp: main_ok_def dest!: set_update_subset_insert [THEN subsetD])
next
  case (signal m)
  then show ?case by (simp add: signal_handler_def main_ok_def)
qed

section \<open>Properties\<close>

text \<open>
  C10: The main process stays well formed and its loop never stops short.  From any start, over
  any turns, signals and snapshots published by the engines in between: at most eight sessions,
  rings of snapshots that all belong to their session and are well formed, a round duration
  between 1 and 1009 ms, and a well-formed interface, topology and plugin registry; and whatever
  a turn finds, it returns.
\<close>

theorem main_invariant:
  assumes "main_reach sy m" "ntop_ok (sy_ntop sy)"
  shows "main_ok m \<and> (\<exists>as calls files m'. main_turn (sy_fork sy) tn m = Some (as, calls, files, m'))"
proof -
  have ok: "main_ok m" by (rule main_reach_ok [OF assms])
  obtain as ss n where "supervised (sy_fork sy) tn m = (as, ss, n)" by (metis prod_cases3)
  from main_turn_ok [OF ok this] ok show ?thesis by blast
qed

text \<open>
  C7: What an engine has seen reaches the topology in one turn.  When the ring of a session that is
  still active after the turn held a snapshot, then after the turn the ring is empty, and every
  address of every hop of the snapshot is a node of the session's target, unless the table is full.
  Nodes known before keep their identifiers.
\<close>

theorem turn_registers_hops:
  assumes "main_reach sy m" "ntop_ok (sy_ntop sy)" "main_turn (sy_fork sy) tn m = Some (as, calls, files, m')"
    and "i < length (ms_sessions m)" "se_active (ms_sessions m' ! i)" "tel \<in> set (large_contents (se_l2t (ms_sessions m ! i)))"
    and "1 \<le> j" "j < 64" "a \<in> set (hop_addrs (tel_hops tel ! j))"
  shows "large_contents (se_l2t (ms_sessions m' ! i)) = [] \<and>
    (topo_lookup (w_topo (ms_world m')) (a, se_target_ip (ms_sessions m ! i)) \<noteq> None \<or> unat (tp_node_count (w_topo (ms_world m'))) = 1024) \<and>
    topo_lookup (w_topo (ms_world m)) \<subseteq>\<^sub>m topo_lookup (w_topo (ms_world m'))"
proof -
  have ok: "main_ok m" by (rule main_reach_ok [OF assms(1,2)])
  obtain bs ss n where sup: "supervised (sy_fork sy) tn m = (bs, ss, n)" by (metis prod_cases3)
  let ?T = "merge_snapshots (tn_clock tn) 0 (queued ss) (w_topo (ms_world m))" and ?s = "ms_sessions m ! i"
  have t: "main_ok m'" "list_all2 drained ss (ms_sessions m')" "grows ?T (w_topo (ms_world m'))"
    using main_turn_ok [OF ok sup] assms(3) by auto
  note same = supervised_same [OF sup]
  have "\<forall>s \<in> set ss. session_ok s" by (rule list_all2_all [OF same]) (use ok session_ok_same in \<open>auto simp: main_ok_def\<close>)
  then have q: "snapshots_ok (queued ss)" by (rule queued_ok)
  have i: "i < length ss" "same_session ?s (ss ! i)" "drained (ss ! i) (ms_sessions m' ! i)"
    using same t(2) assms(4) by (auto simp: list_all2_conv_all_nth)
  then have act: "se_active (ss ! i)" "large_contents (se_l2t (ms_sessions m' ! i)) = []" using assms(5) by (auto simp: drained_def split: if_splits)
  have "ss ! i \<in> set (filter se_active ss)" using act(1) i(1) by simp
  moreover have "tel \<in> set (large_contents (se_l2t (ss ! i)))" using i(2) assms(6) by (simp add: same_session_def)
  ultimately have "tel \<in> set (queued ss)" unfolding queued_def by auto
  moreover have g: "tel_target_ip tel = se_target_ip ?s" using ok assms(4,6) by (auto simp: main_ok_def session_ok_def snapshot_ok_def)
  moreover have topo: "topo_inv (w_topo (ms_world m))" using ok by (simp add: main_ok_def world_ok_parts)
  ultimately have "registered ?T (a, se_target_ip ?s)" using merge_registers [OF topo q _ assms(7-9)] by metis
  then have "registered (w_topo (ms_world m')) (a, se_target_ip ?s)" by (rule registered_grows [OF t(3)])
  moreover have "unat (tp_node_count (w_topo (ms_world m'))) \<le> 1024" using t(3) by (simp add: grows_def topo_inv_def nodes_inv_def)
  moreover have "grows (w_topo (ms_world m)) (w_topo (ms_world m'))" by (rule grows_trans [OF merge_grows [OF topo q] t(3)])
  ultimately show ?thesis using act(2) by (auto simp: registered_def grows_def)
qed

lemma supervise_forks:
  "supervise fork ms pid status s n = (as, s', n') \<Longrightarrow>
     n \<le> n' \<and> (\<forall>p ip. Run_gatekeeper p ip \<in> set as \<longrightarrow> 0 < p) \<and> (\<forall>p c. Run_logic p c \<in> set as \<longrightarrow> 0 < p)"
  by (auto simp: supervise_def spawn_gatekeeper_def spawn_logic_def split: if_splits wait_status.splits)

lemma supervise_all_forks:
  "supervise_all fork ms pid status ss n = (as, ss', n') \<Longrightarrow>
     n \<le> n' \<and> (\<forall>p ip. Run_gatekeeper p ip \<in> set as \<longrightarrow> 0 < p) \<and> (\<forall>p c. Run_logic p c \<in> set as \<longrightarrow> 0 < p)"
proof (induction ss arbitrary: n as ss' n')
  case (Cons s ss)
  obtain bs s1 n1 where s: "supervise fork ms pid status s n = (bs, s1, n1)" by (metis prod_cases3)
  obtain cs ss1 n2 where r: "supervise_all fork ms pid status ss n1 = (cs, ss1, n2)" by (metis prod_cases3)
  have e: "n' = n2" "set as = set bs \<union> set cs" using Cons.prems s r by auto
  show ?case unfolding e using supervise_forks [OF s] Cons.IH [OF r] by (meson Un_iff order_trans)
qed simp

lemma supervise_all_nth:
  assumes "supervise_all fork ms pid status ss n = (as, ss', n')" "i < length ss"
  shows "\<exists>k bs s' k'. supervise fork ms pid status (ss ! i) k = (bs, s', k') \<and> ss' ! i = s' \<and> set bs \<subseteq> set as \<and> n \<le> k \<and> k' \<le> n'"
  using assms
proof (induction ss arbitrary: n as ss' n' i)
  case (Cons s ss)
  obtain bs s1 n1 where s: "supervise fork ms pid status s n = (bs, s1, n1)" by (metis prod_cases3)
  obtain cs ss1 n2 where r: "supervise_all fork ms pid status ss n1 = (cs, ss1, n2)" by (metis prod_cases3)
  have e: "as = bs @ cs" "ss' = s1 # ss1" "n' = n2" using Cons.prems(1) s r by simp_all
  have le: "n \<le> n1" "n1 \<le> n2" using supervise_forks [OF s] supervise_all_forks [OF r] by simp_all
  show ?case
  proof (cases i)
    case 0
    then show ?thesis using s e le by auto
  next
    case (Suc l)
    obtain k bs' k' where "supervise fork ms pid status (ss ! l) k = (bs', ss1 ! l, k')" "set bs' \<subseteq> set cs" "n1 \<le> k" "k' \<le> n2"
      using Cons.IH [OF r, of l] Cons.prems(2) Suc by auto
    then show ?thesis using e Suc le by (intro exI [of _ k] exI [of _ bs'] exI [of _ k']) auto
  qed
qed simp

text \<open>
  What becomes of one session, from the call of \<open>fork\<close> numbered \<open>k\<close> on: a restarted child has the number
  that \<open>fork\<close> returned, and runs if that call succeeded.
\<close>

lemma supervise_cases:
  assumes "supervise fork ms pid status s k = (as, s', k')"
  shows "pid = gk_pid s \<Longrightarrow> status = Exited \<Longrightarrow> \<not> se_active s' \<and> (0 < logic_pid s \<longrightarrow> Kill (logic_pid s) SIGTERM \<in> set as)"
    and "pid = gk_pid s \<Longrightarrow> status = Signaled \<Longrightarrow> k' = k + 1 \<and> gk_pid s' = fork k \<and> logic_pid s' = logic_pid s \<and> se_active s' = se_active s \<and>
      (0 < fork k \<longrightarrow> Run_gatekeeper (fork k) (se_target_ip s) \<in> set as)"
    and "pid \<noteq> gk_pid s \<Longrightarrow> pid = logic_pid s \<Longrightarrow> status = Exited \<or> \<not> se_active s \<Longrightarrow> \<not> se_active s'"
    and "pid \<noteq> gk_pid s \<Longrightarrow> pid = logic_pid s \<Longrightarrow> status = Signaled \<Longrightarrow> se_active s \<Longrightarrow>
      k' = k + 1 \<and> logic_pid s' = fork k \<and> gk_pid s' = gk_pid s \<and> se_active s' \<and> (0 < fork k \<longrightarrow> Run_logic (fork k) (session_config ms s) \<in> set as)"
    and "pid \<notin> {gk_pid s, logic_pid s} \<Longrightarrow> gk_pid s' = gk_pid s \<and> logic_pid s' = logic_pid s \<and> se_active s' = se_active s"
    and "se_active s' \<Longrightarrow> se_active s"
  using assms by (auto simp: supervise_def spawn_gatekeeper_def spawn_logic_def split: if_splits wait_status.splits)

text \<open>
  C11: The end of a child is handled in the turn that reaps it.  A gatekeeper that exits disables its
  session and its engine is told to stop; for one that crashes a new child is forked, in this turn, whose number
  the session keeps and which runs the gatekeeper for the same target if the call of \<open>fork\<close> succeeded.
  An engine that exits disables its session; for one that crashes while its session is active a
  new child is forked in the same way, with the configuration of its session and the current
  interval.  A call of \<open>fork\<close> that fails starts nothing: the session keeps its -1.  Sessions of
  other children are untouched, no session becomes active again, and without an active one the
  loop ends.
\<close>

theorem supervision:
  assumes "main_reach sy m" "ntop_ok (sy_ntop sy)" "tn_wait tn = Some (pid, status)" "main_turn (sy_fork sy) tn m = Some (as, calls, files, m')"
    and "i < length (ms_sessions m)" "s = ms_sessions m ! i" "s' = ms_sessions m' ! i"
  shows "(pid = gk_pid s \<longrightarrow> status = Exited \<longrightarrow> \<not> se_active s' \<and> (0 < logic_pid s \<longrightarrow> Kill (logic_pid s) SIGTERM \<in> set as)) \<and>
    (pid = gk_pid s \<longrightarrow> status = Signaled \<longrightarrow> (\<exists>k. ms_forks m \<le> k \<and> k < ms_forks m' \<and> gk_pid s' = sy_fork sy k) \<and>
       (0 < gk_pid s' \<longrightarrow> Run_gatekeeper (gk_pid s') (se_target_ip s) \<in> set as) \<and> logic_pid s' = logic_pid s \<and> se_active s' = se_active s) \<and>
    (pid \<noteq> gk_pid s \<longrightarrow> pid = logic_pid s \<longrightarrow> status = Exited \<longrightarrow> \<not> se_active s') \<and>
    (pid \<noteq> gk_pid s \<longrightarrow> pid = logic_pid s \<longrightarrow> status = Signaled \<longrightarrow> se_active s \<longrightarrow>
       (\<exists>k. ms_forks m \<le> k \<and> k < ms_forks m' \<and> logic_pid s' = sy_fork sy k) \<and>
       (0 < logic_pid s' \<longrightarrow> Run_logic (logic_pid s') (session_config (ms_interval_ms m) s) \<in> set as) \<and> gk_pid s' = gk_pid s \<and> se_active s') \<and>
    (\<forall>p ip. Run_gatekeeper p ip \<in> set as \<longrightarrow> 0 < p) \<and> (\<forall>p c. Run_logic p c \<in> set as \<longrightarrow> 0 < p) \<and>
    (pid \<notin> {gk_pid s, logic_pid s} \<longrightarrow> gk_pid s' = gk_pid s \<and> logic_pid s' = logic_pid s \<and> se_active s' = se_active s) \<and>
    (se_active s' \<longrightarrow> se_active s) \<and> (ms_running m' \<longrightarrow> list_ex se_active (ms_sessions m'))"
proof -
  have ok: "main_ok m" by (rule main_reach_ok [OF assms(1,2)])
  obtain bs ss n where sup: "supervised (sy_fork sy) tn m = (bs, ss, n)" by (metis prod_cases3)
  then have all: "supervise_all (sy_fork sy) (ms_interval_ms m) pid status (ms_sessions m) (ms_forks m) = (bs, ss, n)"
    using assms(3) by (simp add: supervised_def)
  obtain cs where t: "as = bs @ cs" "list_all2 drained ss (ms_sessions m')" "ms_running m' \<longrightarrow> list_ex se_active ss" "ms_forks m' = n"
    "\<forall>a \<in> set cs. \<exists>p. a = Kill p SIGUSR1"
    using main_turn_ok [OF ok sup] assms(4) by auto
  obtain k ds u k' where s: "supervise (sy_fork sy) (ms_interval_ms m) pid status s k = (ds, u, k')" "ss ! i = u" "set ds \<subseteq> set as"
      "ms_forks m \<le> k" "k' \<le> ms_forks m'"
    using supervise_all_nth [OF all assms(5)] assms(6) t(1,4) by (metis Un_upper1 order_trans set_append)
  have "length ss = length (ms_sessions m)" using list_all2_lengthD [OF supervised_same [OF sup]] by simp
  then have d: "drained (ss ! i) s'" using t(2) assms(5,7) by (simp add: list_all2_conv_all_nth)
  then have d': "gk_pid s' = gk_pid u" "logic_pid s' = logic_pid u" "se_active s' = se_active u" using s(2) by (auto simp: drained_def)
  have run: "ms_running m' \<longrightarrow> list_ex se_active (ms_sessions m')"
    using t(3) list_all2_ex [OF t(2), of se_active] drained_active by blast
  have pos: "(\<forall>p ip. Run_gatekeeper p ip \<in> set as \<longrightarrow> 0 < p) \<and> (\<forall>p c. Run_logic p c \<in> set as \<longrightarrow> 0 < p)"
    using supervise_all_forks [OF all] t(5) by (auto simp: t(1))
  have lt: "k' = k + 1 \<Longrightarrow> ms_forks m \<le> k \<and> k < ms_forks m'" using s(4,5) by simp
  note c = supervise_cases [OF s(1)]
  show ?thesis
    unfolding d' using c(1) c(2) c(3) c(4) c(5) c(6) lt s(3) run pos by (intro conjI) (blast | metis subsetD)+
qed

definition ex_system :: system where
  "ex_system = \<lparr>sy_user = \<lparr>ue_home = Some ''/root'', ue_uid = 0, ue_sudo_user = None, ue_pw_dir = \<lambda>_. None\<rparr>, sy_dirs = \<lambda>_. None,
     sy_gai = \<lambda>_ _. Some (AF_INET, [192, 0, 2, 1]), sy_ntop = ex_ntop, sy_mmap = \<lambda>_. True, sy_fork = \<lambda>n. 100 + int n\<rparr>"

definition ex_start :: main_state where
  "ex_start = snd (the (snd (main_start ex_system None [Opt_s, Opt_i ''5''] [''example.org''])))"

definition ex_turn :: "(int \<times> wait_status) option \<Rightarrow> turn" where
  "ex_turn ended = \<lparr>tn_wait = ended, tn_clock = \<lambda>_ _ _. 0, tn_screen = (24, 80), tn_uptime = Mem_fault,
     tn_env = \<lparr>te_codes = \<lparr>KEY_UP = 259, KEY_DOWN = 258, KEY_LEFT = 260, KEY_RIGHT = 261, KEY_ENTER = 343\<rparr>, te_cols = 80, te_now = 0,
       te_spawn = undefined, te_writable = False\<rparr>, tn_key = - 1\<rparr>"

lemma ex_start_reach: "main_reach ex_system ex_start" "ms_running ex_start" "length (ms_sessions ex_start) = 1"
  "ms_sessions ex_start ! 0 = (new_session ''192.0.2.1'' ''example.org'')\<lparr>gk_pid := 100, logic_pid := 101\<rparr>"
proof -
  let ?r = "main_start ex_system None [Opt_s, Opt_i ''5''] [''example.org'']"
  let ?op = "\<lparr>op_interval_ms = clamp_interval (atoi ''5''), op_silent = True, op_family = AF_UNSPEC\<rparr>"
  let ?s = "(new_session ''192.0.2.1'' ''example.org'')\<lparr>gk_pid := 100, logic_pid := 101\<rparr>"
  have "resolve_target (sy_gai ex_system) (sy_ntop ex_system) ''example.org'' AF_UNSPEC = Some ''192.0.2.1''"
    by (simp add: ex_system_def resolve_target_def ex_ntop_def)
  moreover have "sy_mmap ex_system 0" "sy_fork ex_system 0 = 100" "sy_fork ex_system (Suc 0) = 101" by (simp_all add: ex_system_def)
  ultimately obtain as where ss: "start_sessions ex_system ?op [''example.org''] [] 0 = (as, Some ([?s], 2))"
    by (simp add: NSR_MAX_TARGETS_def spawn_gatekeeper_def spawn_logic_def)
  have op: "read_options [Opt_s, Opt_i ''5''] options_default = Some ?op" by (simp add: options_default_def)
  obtain calls m where r: "?r = (as, Some (calls, m))" "ms_running m" "ms_sessions m = [?s]"
    unfolding main_start_def op by (simp add: ss Let_def del: start_sessions.simps)
  then have "ex_start = m" by (simp add: ex_start_def)
  with r main_reach.start [OF r(1)] show "main_reach ex_system ex_start" "ms_running ex_start" "length (ms_sessions ex_start) = 1"
    "ms_sessions ex_start ! 0 = (new_session ''192.0.2.1'' ''example.org'')\<lparr>gk_pid := 100, logic_pid := 101\<rparr>" by simp_all
qed

lemma ex_ntop_system: "ntop_ok (sy_ntop ex_system)"
  by (simp add: ex_system_def)

theorem main_invariant_witness: "\<exists>as calls files m'. main_turn (sy_fork ex_system) (ex_turn None) ex_start = Some (as, calls, files, m')"
  using main_invariant [OF ex_start_reach(1) ex_ntop_system] by blast

theorem supervision_witness:
  "\<exists>as calls files m'. main_turn (sy_fork ex_system) (ex_turn (Some (100, Exited))) ex_start = Some (as, calls, files, m') \<and>
     \<not> se_active (ms_sessions m' ! 0) \<and> Kill 101 SIGTERM \<in> set as"
proof -
  obtain bs ss n where sup: "supervised (sy_fork ex_system) (ex_turn (Some (100, Exited))) ex_start = (bs, ss, n)" by (metis prod_cases3)
  obtain as calls files m' where t: "main_turn (sy_fork ex_system) (ex_turn (Some (100, Exited))) ex_start = Some (as, calls, files, m')"
    using main_turn_ok [OF main_reach_ok [OF ex_start_reach(1) ex_ntop_system] sup] by auto
  have "gk_pid (ms_sessions ex_start ! 0) = 100" "logic_pid (ms_sessions ex_start ! 0) = 101" by (simp_all add: ex_start_reach(4))
  with supervision [OF ex_start_reach(1) ex_ntop_system _ t _ refl refl, of 100 Exited 0] t ex_start_reach(3)
  show ?thesis by (auto simp: ex_turn_def)
qed

text \<open>An engine that has one answer, from the first hop, and publishes it.\<close>

definition ex_first_answer :: nsr_observation where
  "ex_first_answer = observation_zero\<lparr>ob_ttl := 1, ob_type := NSR_OBS_EXCEEDED, ob_rtt_us := 900\<rparr>"

definition ex_answered_io :: logic_io where
  "ex_answered_io = ex_io\<lparr>io_g2l := \<lparr>head = 1, tail = 0, data = \<lambda>_. ex_first_answer\<rparr>\<rparr>"

lemma ex_answered:
  "\<exists>is st. logic_reach ex_ntop config is st \<and> ''192.0.2.1'' \<in> set (hop_addrs (tel_hops (g_state st) ! 1))"
proof -
  let ?st = "nsr_logic_init 0 config"
  have used: "ring_used (io_g2l ex_answered_io) = 1" by (simp add: ex_answered_io_def ring_used_def unat_ring_mask)
  have inv: "ring_inv (io_g2l ex_answered_io)" using used by (simp add: ex_answered_io_def ring_inv_def)
  have obs: "ring_contents (io_g2l ex_answered_io) = [ex_first_answer]" by (simp add: ring_contents_def used) (simp add: ex_answered_io_def)
  have tick: "logic_tick 0 1000 ?st = ([], tick_state 0 1000 ?st)" by (simp add: logic_tick_eq nsr_logic_init_def Let_def)
  let ?s1 = "tick_state 0 1000 ?st"
  let ?d = "drain_observations ex_ntop (\<lambda>_. 1) 0 (io_g2l ex_answered_io) ?s1"
  have d: "snd ?d = update_state ex_ntop 1 1 ex_first_answer ?s1"
    using drain_observations_all [OF inv, of ex_ntop "\<lambda>_. 1" 0 ?s1] obs by (simp add: ex_first_answer_def)
  have "large_inv (io_l2t ex_answered_io)" by (simp add: ex_answered_io_def)
  from publish_telemetry_ok [OF this]
  obtain l2t x where "publish_telemetry 0 (io_l2t ex_answered_io) (snd ?d) = Some (l2t, (snd ?d)\<lparr>last_tui_us := x\<rparr>)" by blast
  then have "nsr_logic_iteration ex_ntop 0 (\<lambda>_. 1) 1000 ex_answered_io ?st =
      Some (\<lparr>io_g2l = fst ?d, io_l2g = io_l2g ex_answered_io, io_l2t = l2t\<rparr>, (snd ?d)\<lparr>last_tui_us := x\<rparr>)"
    by (simp add: nsr_logic_iteration_def tick case_prod_beta)
  from logic_reach.iteration [OF logic_reach.start this]
  have "logic_reach ex_ntop config [] ((snd ?d)\<lparr>last_tui_us := x\<rparr>)" by (simp add: tick)
  moreover have "adjust_pacing 0 s = s" if "last_adjust_us (g_pacing s) = 0" for s using that by (simp add: adjust_pacing_def Let_def)
  then have s1: "hop_addr (tel_hops (g_state ?s1) ! 1) = []" "length (tel_hops (g_state ?s1)) = 64"
    by (simp_all add: tick_state_def sweep_timeouts_eq sweep_fold_nth sweep_fold_simps nsr_logic_init_def g_pacing_init_def telemetry_zero_def
        hop_zero_def sweep_hop_def)
  have "''192.0.2.1'' \<in> set (hop_addrs (tel_hops (g_state (snd ?d)) ! 1))"
    unfolding d using s1
    by (simp add: update_state_def NSR_MAX_HOPS_def ex_first_answer_def add_or_update_alias_def addr_bin_to_str_def observation_zero_def ex_ntop_def
        hop_addrs_def c_strncpy_def)
  then have "''192.0.2.1'' \<in> set (hop_addrs (tel_hops (g_state ((snd ?d)\<lparr>last_tui_us := x\<rparr>)) ! 1))" by simp
  ultimately show ?thesis by blast
qed

theorem turn_registers_hops_witness:
  "\<exists>m as calls files m'. main_reach ex_system m \<and> main_turn (sy_fork ex_system) (ex_turn None) m = Some (as, calls, files, m') \<and>
     (\<exists>x. topo_lookup (w_topo (ms_world m')) (''192.0.2.1'', ''192.0.2.1'') = Some x \<or> unat (tp_node_count (w_topo (ms_world m'))) = 1024)"
proof -
  let ?s = "ms_sessions ex_start ! 0"
  obtain "is" st where lg: "logic_reach ex_ntop (session_config 10 ?s) is st" "''192.0.2.1'' \<in> set (hop_addrs (tel_hops (g_state st) ! 1))"
    using ex_answered by blast
  have zero: "large_inv (se_l2t ?s)" "large_contents (se_l2t ?s) = []" "large_used (se_l2t ?s) = 0"
    by (simp_all add: ex_start_reach(4) new_session_def) (simp add: large_zero_def large_used_def)
  obtain r where r: "nsr_shm_ring_large_push (se_l2t ?s) (g_state st) = Some (True, r)" "large_contents r = [g_state st]"
    using large_pushed [OF zero(1), of "g_state st"] zero by (simp add: large_push_eq)
  let ?m = "ex_start\<lparr>ms_sessions := (ms_sessions ex_start)[0 := ?s\<lparr>se_l2t := r\<rparr>]\<rparr>"
  have reach: "main_reach ex_system ?m"
    using lg(1) by (intro main_reach.publish [OF ex_start_reach(1) _ _ r(1)]) (simp_all add: ex_start_reach(3) ex_system_def)
  note ok = main_reach_ok [OF reach ex_ntop_system]
  have sup: "supervised (sy_fork ex_system) (ex_turn None) ?m = ([], ms_sessions ?m, ms_forks ?m)" by (simp add: supervised_def ex_turn_def)
  obtain as calls files m' where t: "main_turn (sy_fork ex_system) (ex_turn None) ?m = Some (as, calls, files, m')"
    "list_all2 drained (ms_sessions ?m) (ms_sessions m')" using main_turn_ok [OF ok sup] by auto
  have "ms_sessions ?m ! 0 = ?s\<lparr>se_l2t := r\<rparr>" "length (ms_sessions ?m) = 1" using ex_start_reach(3) by simp_all
  moreover from this have "se_active (ms_sessions m' ! 0)"
    using t(2) drained_active [of "ms_sessions ?m ! 0"] by (simp add: list_all2_conv_all_nth ex_start_reach(4) new_session_def)
  ultimately have "topo_lookup (w_topo (ms_world m')) (''192.0.2.1'', se_target_ip ?s) \<noteq> None \<or> unat (tp_node_count (w_topo (ms_world m'))) = 1024"
    using turn_registers_hops [OF reach ex_ntop_system t(1), of 0 "g_state st" 1 "''192.0.2.1''"] lg(2) r(2) by simp
  moreover have "se_target_ip ?s = ''192.0.2.1''" by (simp add: ex_start_reach(4) new_session_def)
  ultimately have "\<exists>x. topo_lookup (w_topo (ms_world m')) (''192.0.2.1'', ''192.0.2.1'') = Some x \<or> unat (tp_node_count (w_topo (ms_world m'))) = 1024"
    by auto
  with reach t(1) show ?thesis by blast
qed

section \<open>Settings and shutdown\<close>

text \<open>
  The option \<open>-i\<close> is kept between 10 and 1000 ms; the keys of the settings dashboard leave that range
  on both sides.
\<close>

lemma interval_out_of_range: "change_interval 4 995 = 1005" "change_interval 5 15 = 5"
  by (simp_all add: change_interval_def)

text \<open>
  They change a variable of the main process only: no signal is sent and no memory is shared, so
  running engines keep the interval they were started with.
\<close>

lemma interval_not_sent: "cmd = 4 \<or> cmd = 5 \<Longrightarrow> run_command cmd m = ([], m\<lparr>ms_interval_ms := change_interval cmd (ms_interval_ms m)\<rparr>)"
  by (auto simp: run_command_def)

text \<open>The number of a gatekeeper that has ended is kept, and gets the signal and the wait at the end again.\<close>

lemma reaped_pid_killed:
  assumes "supervise fork ms pid Exited s n = (as, s', n')" "pid = gk_pid s" "0 < pid" "ms_sessions m = [s']"
  shows "Kill pid SIGTERM \<in> set (fst (snd (main_stop m)))"
  using assms by (auto simp: supervise_def main_stop_def Let_def)

end
