(* ===== verification/Plugin_Client.thy ===== *)
theory Plugin_Client
  imports Plugin_Docs Plugin_Config
begin

text \<open>
  What the two plugins written in C (\<open>plugins/geoip/geoip.c\<close>, \<open>plugins/percentile/percentile.c\<close>)
  share: reading one request line from standard input and printing an answer.  Their \<open>main\<close>
  loops begin with the same statements.

  The second half relates this reading to the encoder of the host: members of a rendered object
  and elements of a rendered array, also when more text follows, as it does when the plugin
  looks into a nested value.
\<close>

section \<open>Requests and answers\<close>

text \<open>\<open>strlen\<close> of the line \<open>getline\<close> returns, without a final newline and carriage return.\<close>

definition drop_last :: "char \<Rightarrow> string \<Rightarrow> string" where
  "drop_last c s = (if s \<noteq> [] \<and> last s = c then butlast s else s)"

definition request_line :: "string \<Rightarrow> string" where
  "request_line line = drop_last (CHR 0x0D) (drop_last (CHR 0x0A) (c_text line))"

record request =
  rq_method :: string
  rq_params :: string
  rq_id :: "int option"

text \<open>\<open>None\<close> is the \<open>continue\<close> of a line without a readable method.\<close>

definition read_request :: "string \<Rightarrow> request option" where
  "read_request raw =
     (let line = request_line raw
      in case get_text line ''method'' of
           None \<Rightarrow> None
         | Some method \<Rightarrow>
             let params = (case get_sub line ''params'' of None \<Rightarrow> [CHR 0x7B, CHR 0x7D] | Some p \<Rightarrow> p);
                 ident = (case get_text line ''id'' of
                            None \<Rightarrow> None
                          | Some v \<Rightarrow> Some (case snd (nsr_json_parse_int v) of None \<Rightarrow> 0 | Some n \<Rightarrow> n))
             in case nsr_json_parse_str method 64 of
                  None \<Rightarrow> None
                | Some m \<Rightarrow> Some \<lparr>rq_method = m, rq_params = params, rq_id = ident\<rparr>)"

text \<open>A document built in a fresh buffer and printed with a newline.\<close>

definition print_doc :: "json \<Rightarrow> string" where
  "print_doc v = doc_cstr (build_doc_buf v) @ [CHR 0x0A]"

lemma print_doc_eq:
  assumes "ints_ok v"
  shows "print_doc v = render v @ [CHR 0x0A]"
proof -
  obtain jb where jb: "nsr_json_init = Some jb" "jb_inv jb" "jb_text jb = []" using nsr_json_init_ok by blast
  obtain jb' where "emit_json v jb = Some jb'" "jb_inv jb'" "jb_text jb' = render v"
    using appends_json [OF assms] jb(2,3) unfolding appends_def by fastforce
  then show ?thesis using doc_cstr_eq [of jb' v] by (simp add: print_doc_def build_doc_buf_def jb(1))
qed

section \<open>Reading rendered documents\<close>

named_theorems json_read \<open>reading members and elements of rendered documents\<close>

text \<open>A position in a text at which the rendering of \<open>v\<close> starts and ends.\<close>

definition at_value :: "json \<Rightarrow> string \<Rightarrow> bool" where
  "at_value v p \<longleftrightarrow> (\<exists>rest. p = render v @ rest)"

lemma at_value_render: "at_value v (render v)" "at_value v (render v @ rest)"
  by (auto simp: at_value_def intro: exI [of _ "[]"])

lemma obj_get_at:
  assumes "at_value (JObj ms) p" "plain key"
  shows "case map_of ms key of
       None \<Rightarrow> nsr_json_obj_get p key = None
     | Some v \<Rightarrow> \<exists>q. nsr_json_obj_get p key = Some (q, length (render v)) \<and> at_value v q"
proof -
  obtain rest where p: "p = render (JObj ms) @ rest" using assms(1) by (auto simp: at_value_def)
  have "nsr_json_obj_get p key = obj_get_loop key (intersperse_commas (map member_text ms) @ [CHR 0x7D] @ rest)"
    unfolding p render_JObj nsr_json_obj_get_def by simp
  moreover have "at_value v q" if "take (length (render v)) q = render v" for v q
    unfolding at_value_def using append_take_drop_id [of "length (render v)" q] that by metis
  ultimately show ?thesis using obj_get_loop_members [OF assms(2), of ms rest] by (auto split: option.splits)
qed

lemma get_sub_at [json_read]:
  assumes "at_value (JObj ms) p" "plain key" "map_of ms key = Some v"
  shows "\<exists>q. get_sub p key = Some q \<and> at_value v q"
  using obj_get_at [OF assms(1,2)] assms(3) by (auto simp: get_sub_def)

lemma get_text_at [json_read]:
  assumes "at_value (JObj ms) p" "plain key"
  shows "get_text p key = map_option render (map_of ms key)"
  using obj_get_at [OF assms] by (auto simp: get_text_def at_value_def split: option.splits)

lemma get_int_at [json_read]:
  assumes "at_value (JObj ms) p" "plain key" "map_of ms key = Some (JInt n)" "- (2 ^ 63) \<le> n" "n < 2 ^ 63"
  shows "get_int p key d = n"
proof -
  have "nsr_json_parse_int (print_lld n) = (True, Some n)"
    using strtoll_print [OF assms(4,5)] length_print_lld [OF assms(4,5)] by (simp add: nsr_json_parse_int_def)
  with assms show ?thesis by (simp add: get_int_def get_text_at)
qed

lemma get_string_at [json_read]:
  assumes "at_value (JObj ms) p" "plain key" "map_of ms key = Some (JStr s)" "\<forall>c \<in> set s. survives c" "0 < len"
  shows "get_string p key len = take (len - 1) s"
  using parse_quote [OF assms(4,5)] assms(1-3) by (simp add: get_string_def get_text_at)

lemma arr_next_at:
  "list_all2 at_value vs
     (arr_rest (nsr_json_arr_next ((if vs = [] then [] else '','' @ intersperse_commas (map render vs)) @ '']'' @ rest)))"
proof (induction vs)
  case Nil
  show ?case by (simp add: nsr_json_arr_next_def)
next
  case (Cons v vs)
  define X where "X = (if vs = [] then [] else '','' @ intersperse_commas (map render vs)) @ '']'' @ rest"
  have t: "'','' @ intersperse_commas (map render (v # vs)) @ '']'' @ rest = '','' @ render v @ X"
    by (simp add: intersperse_Cons X_def)
  have v: "skip_value (render v @ X) = Some X" by (intro skip_value_render) (auto simp: X_def)
  have "nsr_json_arr_next ('','' @ render v @ X) = (Some (render v @ X), Some X)"
    by (simp add: nsr_json_arr_next_def v Let_def)
  then have "arr_rest (nsr_json_arr_next ('','' @ render v @ X)) = (render v @ X) # arr_rest (nsr_json_arr_next X)"
    by simp
  then show ?case using Cons.IH t by (simp add: X_def at_value_render)
qed

lemma arr_elems_at [json_read]:
  assumes "at_value (JArr vs) p"
  shows "list_all2 at_value vs (arr_elems p)"
proof -
  obtain rest where p: "p = render (JArr vs) @ rest" using assms by (auto simp: at_value_def)
  show ?thesis
  proof (cases vs)
    case Nil
    then show ?thesis by (simp add: p arr_elems_def nsr_json_arr_first_def Let_def)
  next
    case (Cons v ws)
    define X where "X = (if ws = [] then [] else '','' @ intersperse_commas (map render ws)) @ '']'' @ rest"
    have t: "p = ''['' @ render v @ X" by (simp add: p Cons intersperse_Cons X_def)
    have v: "skip_value (render v @ X) = Some X" by (intro skip_value_render) (auto simp: X_def)
    obtain c q where r: "render v = c # q" "c \<noteq> CHR '']''" using render_hd by blast
    then have "hd (render v @ X) \<noteq> CHR '']''" by simp
    then have "nsr_json_arr_first (''['' @ render v @ X) = (Some (render v @ X), Some X)"
      by (simp add: nsr_json_arr_first_def v Let_def)
    then show ?thesis using arr_next_at [of ws rest, folded X_def] by (simp add: arr_elems_def t Cons at_value_render)
  qed
qed

end
