(* ===== verification/Geoip.thy ===== *)
theory Geoip
  imports Plugin_Client
begin

text \<open>
  The GeoIP plugin, \<open>plugins/geoip/geoip.c\<close>: a hash table with linear probing that remembers the
  country and the provider of every address seen, the two lookups that fill it, and the requests
  of the host.

  The table is the list of its 256 entries; a pointer to an entry is its index.  The IP2Location
  database and libcurl are arguments: an open database is a function from addresses to records,
  and \<open>fetch\<close> gives, for a URL, what \<open>curl_easy_perform\<close> and the response code were and the
  chunks the write callback received.
\<close>

section \<open>The cache\<close>

definition GEO_CACHE_SIZE :: nat where
  "GEO_CACHE_SIZE = 256"

record geo_entry =
  ge_ip :: string
  ge_country :: string
  ge_provider :: string
  ge_valid :: bool

definition geo_hash :: "string \<Rightarrow> nat" where
  "geo_hash ip = unat (foldl (\<lambda>h c. (push_bit 5 h + h) + of_nat (of_char c)) (5381 :: u32) ip) mod GEO_CACHE_SIZE"

text \<open>The indices a search visits.\<close>

definition probe_seq :: "string \<Rightarrow> nat list" where
  "probe_seq ip = map (\<lambda>i. (geo_hash ip + i) mod GEO_CACHE_SIZE) [0..<GEO_CACHE_SIZE]"

fun find_loop :: "geo_entry list \<Rightarrow> string \<Rightarrow> nat list \<Rightarrow> nat option" where
  "find_loop cache ip [] = None"
| "find_loop cache ip (j # js) =
     (if ge_valid (cache ! j) \<and> ge_ip (cache ! j) = ip then Some j
      else if \<not> ge_valid (cache ! j) then None
      else find_loop cache ip js)"

definition geo_cache_find :: "geo_entry list \<Rightarrow> string \<Rightarrow> nat option" where
  "geo_cache_find cache ip = find_loop cache ip (probe_seq ip)"

definition store_slot :: "geo_entry list \<Rightarrow> string \<Rightarrow> nat list \<Rightarrow> nat option" where
  "store_slot cache ip js = List.find (\<lambda>j. \<not> ge_valid (cache ! j) \<or> ge_ip (cache ! j) = ip) js"

definition geo_cache_store :: "string \<Rightarrow> string \<times> string \<Rightarrow> geo_entry list \<Rightarrow> geo_entry list" where
  "geo_cache_store ip cp cache =
     (case store_slot cache ip (probe_seq ip) of
        None \<Rightarrow> cache
      | Some j \<Rightarrow> cache[j := \<lparr>ge_ip = c_strncpy 47 ip, ge_country = c_strncpy 31 (fst cp),
                            ge_provider = c_strncpy 63 (snd cp), ge_valid = True\<rparr>])"

definition geo_zero :: "geo_entry list" where
  "geo_zero = replicate GEO_CACHE_SIZE \<lparr>ge_ip = [], ge_country = [], ge_provider = [], ge_valid = False\<rparr>"

text \<open>What the cache knows of an address.\<close>

definition geo_lookup :: "geo_entry list \<Rightarrow> string \<Rightarrow> (string \<times> string) option" where
  "geo_lookup cache ip = map_option (\<lambda>j. (ge_country (cache ! j), ge_provider (cache ! j))) (geo_cache_find cache ip)"

section \<open>Linear probing implements a bounded map\<close>

text \<open>
  The contract of a map that holds at most \<open>cap\<close> keys: an update of a key it holds, or of any
  key while there is room, is seen by exactly the lookups of that key.
\<close>

locale bounded_map =
  fixes lookup :: "'m \<Rightarrow> 'k \<Rightarrow> 'v option"
    and update :: "'k \<Rightarrow> 'v \<Rightarrow> 'm \<Rightarrow> 'm"
    and inv :: "'m \<Rightarrow> bool"
    and key_ok :: "'k \<Rightarrow> bool"
    and cut :: "'v \<Rightarrow> 'v"
    and cap :: nat
  assumes update_inv: "inv m \<Longrightarrow> key_ok k \<Longrightarrow> inv (update k v m)"
    and finite_keys: "inv m \<Longrightarrow> finite (dom (lookup m))"
    and update_room: "inv m \<Longrightarrow> key_ok k \<Longrightarrow> k \<in> dom (lookup m) \<or> card (dom (lookup m)) < cap \<Longrightarrow>
        lookup (update k v m) = (lookup m)(k \<mapsto> cut v)"
begin

lemma fold_update:
  assumes "inv m" "\<forall>(k, v) \<in> set kvs. key_ok k" "card (dom (lookup m) \<union> fst ` set kvs) \<le> cap"
  shows "inv (fold (\<lambda>(k, v). update k v) kvs m) \<and>
    lookup (fold (\<lambda>(k, v). update k v) kvs m) = lookup m ++ (map_option cut \<circ> map_of (rev kvs))"
  using assms
proof (induction kvs arbitrary: m)
  case Nil
  then show ?case by (simp add: comp_def map_add_def)
next
  case (Cons kv kvs)
  obtain k v where kv: "kv = (k, v)" by (cases kv)
  have ok: "key_ok k" "\<forall>(k, v) \<in> set kvs. key_ok k" using Cons.prems(2) kv by auto
  have fin: "finite (dom (lookup m) \<union> fst ` set (kv # kvs))" using finite_keys [OF Cons.prems(1)] by simp
  have room: "k \<in> dom (lookup m) \<or> card (dom (lookup m)) < cap"
  proof (rule disjCI)
    assume "\<not> card (dom (lookup m)) < cap"
    then have "card (dom (lookup m) \<union> fst ` set (kv # kvs)) \<le> card (dom (lookup m))" using Cons.prems(3) by simp
    then have "dom (lookup m) = dom (lookup m) \<union> fst ` set (kv # kvs)" using fin by (intro card_seteq) auto
    then show "k \<in> dom (lookup m)" using kv by auto
  qed
  let ?m = "update k v m"
  have m: "lookup ?m = (lookup m)(k \<mapsto> cut v)" by (rule update_room [OF Cons.prems(1) ok(1) room])
  have "dom (lookup ?m) \<union> fst ` set kvs = dom (lookup m) \<union> fst ` set (kv # kvs)" using m kv by auto
  then have "inv (fold (\<lambda>(k, v). update k v) kvs ?m) \<and>
      lookup (fold (\<lambda>(k, v). update k v) kvs ?m) = lookup ?m ++ (map_option cut \<circ> map_of (rev kvs))"
    using Cons.IH [OF update_inv [OF Cons.prems(1) ok(1)] ok(2)] Cons.prems(3) by (simp add: comp_def)
  then show ?case unfolding kv m by (auto simp: map_add_def fun_eq_iff split: option.split)
qed

end

text \<open>
  Every valid entry is the one a search for its address finds: nothing stands in front of it on
  its probe sequence.
\<close>

definition geo_inv :: "geo_entry list \<Rightarrow> bool" where
  "geo_inv cache \<longleftrightarrow> length cache = GEO_CACHE_SIZE \<and>
     (\<forall>j < GEO_CACHE_SIZE. ge_valid (cache ! j) \<longrightarrow> geo_cache_find cache (ge_ip (cache ! j)) = Some j)"

definition ip_ok :: "string \<Rightarrow> bool" where
  "ip_ok ip \<longleftrightarrow> length ip \<le> 47"

definition geo_cut :: "string \<times> string \<Rightarrow> string \<times> string" where
  "geo_cut cp = (c_strncpy 31 (fst cp), c_strncpy 63 (snd cp))"

lemma find_loop_Some: "find_loop cache ip js = Some j \<Longrightarrow> j \<in> set js \<and> ge_valid (cache ! j) \<and> ge_ip (cache ! j) = ip"
  by (induction js) (auto split: if_splits)

lemma store_slot_Some: "store_slot cache ip js = Some j \<Longrightarrow> j \<in> set js \<and> (\<not> ge_valid (cache ! j) \<or> ge_ip (cache ! j) = ip)"
  unfolding store_slot_def by (metis (mono_tags, lifting) find_Some_iff nth_mem)

lemma set_probe_seq: "set (probe_seq ip) = {..< GEO_CACHE_SIZE}"
proof
  show "set (probe_seq ip) \<subseteq> {..< GEO_CACHE_SIZE}" by (auto simp: probe_seq_def GEO_CACHE_SIZE_def)
  show "{..< GEO_CACHE_SIZE} \<subseteq> set (probe_seq ip)"
  proof
    fix j assume "j \<in> {..< GEO_CACHE_SIZE}"
    then have j: "j < 256" by (simp add: GEO_CACHE_SIZE_def)
    have h: "geo_hash ip < 256" by (simp add: geo_hash_def GEO_CACHE_SIZE_def)
    define i where "i = (j + 256 - geo_hash ip) mod 256"
    have "(geo_hash ip + i) mod 256 = (geo_hash ip + (j + 256 - geo_hash ip)) mod 256" by (simp add: i_def mod_simps)
    also have "\<dots> = j" using h j by simp
    finally show "j \<in> set (probe_seq ip)"
      by (auto simp: probe_seq_def GEO_CACHE_SIZE_def i_def intro!: image_eqI [of _ _ i])
  qed
qed

text \<open>Writing an entry that was not valid disturbs no successful search.\<close>

lemma valid_upd [simp]: "ge_valid (cache ! j) \<Longrightarrow> \<not> ge_valid (cache ! s) \<Longrightarrow> cache[s := e] ! j = cache ! j"
  by (metis nth_list_update_neq)

lemma find_loop_upd:
  "find_loop cache k js = Some j \<Longrightarrow> \<not> ge_valid (cache ! s) \<Longrightarrow> find_loop (cache[s := e]) k js = Some j"
  by (induction js) (auto split: if_splits)

lemma find_loop_cong:
  "\<forall>j \<in> set js. ge_valid (cache ! j) = ge_valid (cache' ! j) \<and> ge_ip (cache ! j) = ge_ip (cache' ! j) \<Longrightarrow>
   find_loop cache k js = find_loop cache' k js"
  by (induction js) auto

text \<open>The entry that is stored is found.\<close>

lemma find_loop_stored:
  "store_slot cache k js = Some s \<Longrightarrow> s < length cache \<Longrightarrow> ge_valid e \<Longrightarrow> ge_ip e = k \<Longrightarrow>
   find_loop (cache[s := e]) k js = Some s"
proof (induction js)
  case Nil
  then show ?case by (simp add: store_slot_def)
next
  case (Cons j js)
  show ?case
  proof (cases "j = s")
    case True
    with Cons.prems show ?thesis by simp
  next
    case False
    then have "ge_valid (cache ! j)" "ge_ip (cache ! j) \<noteq> k" "store_slot cache k js = Some s"
      using Cons.prems(1) by (auto simp: store_slot_def split: if_splits)
    with Cons False show ?thesis by (simp add: nth_list_update_neq)
  qed
qed

text \<open>Two caches in which the same addresses are found, apart from \<open>k\<close>.\<close>

lemma geo_find_mono:
  assumes "geo_inv cache" "length cache' = GEO_CACHE_SIZE"
    and keep: "\<And>k' j. geo_cache_find cache k' = Some j \<Longrightarrow> k' \<noteq> k \<Longrightarrow> geo_cache_find cache' k' = Some j"
    and old: "\<And>j. j < GEO_CACHE_SIZE \<Longrightarrow> ge_valid (cache' ! j) \<Longrightarrow> ge_ip (cache' ! j) \<noteq> k \<Longrightarrow> cache' ! j = cache ! j"
    and new: "geo_cache_find cache' k = Some s" "\<And>j. j < GEO_CACHE_SIZE \<Longrightarrow> ge_valid (cache' ! j) \<Longrightarrow> ge_ip (cache' ! j) = k \<Longrightarrow> j = s"
  shows "geo_inv cache'" "k' \<noteq> k \<Longrightarrow> geo_lookup cache' k' = geo_lookup cache k'"
proof -
  have found: "geo_cache_find cache (ge_ip (cache ! j)) = Some j" if "j < GEO_CACHE_SIZE" "ge_valid (cache ! j)" for j
    using assms(1) that by (simp add: geo_inv_def)
  have "geo_cache_find cache' (ge_ip (cache' ! j)) = Some j" if j: "j < GEO_CACHE_SIZE" "ge_valid (cache' ! j)" for j
  proof (cases "ge_ip (cache' ! j) = k")
    case True
    then show ?thesis using new j by simp
  next
    case False
    then show ?thesis using old [OF j False] found [of j] keep [of "ge_ip (cache' ! j)" j] j by simp
  qed
  with assms(2) show "geo_inv cache'" by (simp add: geo_inv_def)
  assume k': "k' \<noteq> k"
  have at: "j < GEO_CACHE_SIZE \<and> ge_valid (c ! j) \<and> ge_ip (c ! j) = k'" if "geo_cache_find c k' = Some j" for c j
    using find_loop_Some [of c k' "probe_seq k'" j] that set_probe_seq [of k'] by (auto simp: geo_cache_find_def)
  have same: "geo_cache_find cache' k' = geo_cache_find cache k'"
  proof (cases "geo_cache_find cache' k'")
    case None
    then show ?thesis using keep [OF _ k'] by (cases "geo_cache_find cache k'") auto
  next
    case (Some j)
    from at [OF this] old [of j] k' found [of j] Some show ?thesis by simp
  qed
  have "cache' ! j = cache ! j" if "geo_cache_find cache' k' = Some j" for j
    using old at [OF that] k' by simp
  with same show "geo_lookup cache' k' = geo_lookup cache k'" by (cases "geo_cache_find cache k'") (simp_all add: geo_lookup_def)
qed

lemma find_of_store_slot:
  "store_slot cache k js = Some s \<Longrightarrow> find_loop cache k js = (if ge_valid (cache ! s) then Some s else None)"
  by (induction js) (auto simp: store_slot_def split: if_splits)

lemma store_slot_None:
  "store_slot cache k js = None \<Longrightarrow> (\<forall>j \<in> set js. ge_valid (cache ! j)) \<and> find_loop cache k js = None"
  by (induction js) (auto simp: store_slot_def split: if_splits)

lemma geo_store_slot:
  assumes inv: "geo_inv cache" and k: "ip_ok k" and s: "store_slot cache k (probe_seq k) = Some s"
  shows "geo_inv (geo_cache_store k cp cache)" "geo_lookup (geo_cache_store k cp cache) = (geo_lookup cache)(k \<mapsto> geo_cut cp)"
proof -
  define e where "e = \<lparr>ge_ip = k, ge_country = c_strncpy 31 (fst cp), ge_provider = c_strncpy 63 (snd cp), ge_valid = True\<rparr>"
  let ?c = "cache[s := e]"
  have c: "geo_cache_store k cp cache = ?c" using s k by (simp add: geo_cache_store_def e_def ip_ok_def)
  have len: "length cache = GEO_CACHE_SIZE" using inv by (simp add: geo_inv_def)
  have slt: "s < GEO_CACHE_SIZE" and sk: "\<not> ge_valid (cache ! s) \<or> ge_ip (cache ! s) = k"
    using store_slot_Some [OF s] set_probe_seq [of k] by auto
  have find: "geo_cache_find cache k = (if ge_valid (cache ! s) then Some s else None)"
    using find_of_store_slot [OF s] by (simp add: geo_cache_find_def)
  have keep: "geo_cache_find ?c k' = Some j" if "geo_cache_find cache k' = Some j" "k' \<noteq> k" for k' j
  proof (cases "ge_valid (cache ! s)")
    case True
    then have "ge_valid (?c ! i) = ge_valid (cache ! i) \<and> ge_ip (?c ! i) = ge_ip (cache ! i)" for i
      using sk len slt by (cases "i = s") (simp_all add: e_def)
    then show ?thesis using that(1) unfolding geo_cache_find_def by (subst find_loop_cong [of _ _ cache]) simp_all
  next
    case False
    then show ?thesis using that(1) unfolding geo_cache_find_def by (simp add: find_loop_upd)
  qed
  have old: "?c ! j = cache ! j" if "j < GEO_CACHE_SIZE" "ge_valid (?c ! j)" "ge_ip (?c ! j) \<noteq> k" for j
    using that(3) len slt by (cases "j = s") (simp_all add: e_def)
  have stored: "geo_cache_find ?c k = Some s"
    unfolding geo_cache_find_def by (rule find_loop_stored [OF s]) (simp_all add: len slt e_def)
  have only: "j = s" if "j < GEO_CACHE_SIZE" "ge_valid (?c ! j)" "ge_ip (?c ! j) = k" for j
  proof (rule ccontr)
    assume "j \<noteq> s"
    then have "geo_cache_find cache k = Some j" using inv that by (auto simp: geo_inv_def)
    with find \<open>j \<noteq> s\<close> show False by (simp split: if_splits)
  qed
  have len': "length ?c = GEO_CACHE_SIZE" using len by simp
  note mono = geo_find_mono [OF inv len' keep old stored only]
  show "geo_inv (geo_cache_store k cp cache)" unfolding c by (rule mono(1))
  have "geo_lookup ?c k' = geo_lookup cache k'" if "k' \<noteq> k" for k' by (rule mono(2)) (use that in blast)+
  moreover have "geo_lookup ?c k = Some (geo_cut cp)" using stored len slt by (simp add: geo_lookup_def geo_cut_def e_def)
  ultimately show "geo_lookup (geo_cache_store k cp cache) = (geo_lookup cache)(k \<mapsto> geo_cut cp)" unfolding c by auto
qed

lemma dom_geo_lookup:
  assumes "geo_inv cache"
  shows "dom (geo_lookup cache) = (\<lambda>j. ge_ip (cache ! j)) ` {j. j < GEO_CACHE_SIZE \<and> ge_valid (cache ! j)}"
proof (intro set_eqI iffI)
  fix k assume "k \<in> dom (geo_lookup cache)"
  then obtain j where "find_loop cache k (probe_seq k) = Some j" by (auto simp: geo_lookup_def geo_cache_find_def)
  from find_loop_Some [OF this] set_probe_seq [of k]
  show "k \<in> (\<lambda>j. ge_ip (cache ! j)) ` {j. j < GEO_CACHE_SIZE \<and> ge_valid (cache ! j)}" by auto
next
  fix k assume "k \<in> (\<lambda>j. ge_ip (cache ! j)) ` {j. j < GEO_CACHE_SIZE \<and> ge_valid (cache ! j)}"
  with assms show "k \<in> dom (geo_lookup cache)" by (auto simp: geo_inv_def geo_lookup_def)
qed

lemma geo_room:
  assumes inv: "geo_inv cache" and room: "k \<in> dom (geo_lookup cache) \<or> card (dom (geo_lookup cache)) < GEO_CACHE_SIZE"
  shows "\<exists>s. store_slot cache k (probe_seq k) = Some s"
proof (rule ccontr)
  assume "\<not> ?thesis"
  then have "store_slot cache k (probe_seq k) = None" by simp
  from store_slot_None [OF this] set_probe_seq [of k]
  have full: "\<forall>j < GEO_CACHE_SIZE. ge_valid (cache ! j)" and none: "geo_cache_find cache k = None" by (auto simp: geo_cache_find_def)
  have "inj_on (\<lambda>j. ge_ip (cache ! j)) {..< GEO_CACHE_SIZE}"
  proof (rule inj_onI)
    fix i j assume "i \<in> {..< GEO_CACHE_SIZE}" "j \<in> {..< GEO_CACHE_SIZE}" "ge_ip (cache ! i) = ge_ip (cache ! j)"
    then have "Some i = Some j" using inv full unfolding geo_inv_def by (metis lessThan_iff)
    then show "i = j" by simp
  qed
  moreover have "{j. j < GEO_CACHE_SIZE \<and> ge_valid (cache ! j)} = {..< GEO_CACHE_SIZE}" using full by auto
  ultimately have "card (dom (geo_lookup cache)) = GEO_CACHE_SIZE" using dom_geo_lookup [OF inv] by (simp add: card_image)
  moreover have "k \<notin> dom (geo_lookup cache)" using none by (auto simp: geo_lookup_def)
  ultimately show False using room by simp
qed

interpretation geo: bounded_map geo_lookup geo_cache_store geo_inv ip_ok geo_cut GEO_CACHE_SIZE
proof
  fix cache k cp
  assume inv: "geo_inv cache" and k: "ip_ok k"
  show "geo_inv (geo_cache_store k cp cache)"
    using geo_store_slot(1) [OF inv k] inv by (cases "store_slot cache k (probe_seq k)") (simp_all add: geo_cache_store_def)
  show "geo_lookup (geo_cache_store k cp cache) = (geo_lookup cache)(k \<mapsto> geo_cut cp)"
    if "k \<in> dom (geo_lookup cache) \<or> card (dom (geo_lookup cache)) < GEO_CACHE_SIZE"
    using geo_room [OF inv that] geo_store_slot(2) [OF inv k] by blast
next
  fix cache assume "geo_inv cache"
  then show "finite (dom (geo_lookup cache))" by (simp add: dom_geo_lookup)
qed

lemma geo_inv_zero: "geo_inv geo_zero"
  by (simp add: geo_inv_def geo_zero_def)

lemma geo_lookup_zero: "geo_lookup geo_zero = Map.empty"
  using dom_geo_lookup [OF geo_inv_zero] by (auto simp: geo_zero_def dom_eq_empty_conv [symmetric] simp del: dom_eq_empty_conv)

section \<open>Lookups\<close>

definition json_extract :: "string \<Rightarrow> string \<Rightarrow> nat \<Rightarrow> string option" where
  "json_extract json key out_len =
     (case get_text json key of None \<Rightarrow> None | Some v \<Rightarrow> nsr_json_parse_str v out_len)"

text \<open>The bytes kept so far; the buffer is terminated only once a byte has been written.\<close>

definition curl_write_cb :: "nat \<Rightarrow> string \<Rightarrow> string \<Rightarrow> string" where
  "curl_write_cb cap kept chunk =
     (let total = (if length kept + length chunk \<ge> cap then cap - length kept - 1 else length chunk)
      in kept @ take total chunk)"

fun strstr :: "string \<Rightarrow> string \<Rightarrow> bool" where
  "strstr [] pat \<longleftrightarrow> pat = []"
| "strstr (c # s) pat \<longleftrightarrow> take (length pat) (c # s) = pat \<or> strstr s pat"

record http_result =
  ht_ok :: bool
  ht_code :: int
  ht_chunks :: "string list"

text \<open>
  A lookup gives its result and what it wrote to \<open>country\<close> and \<open>provider\<close>.  The outer option of
  \<open>web_lookup\<close> is \<open>None\<close> when the buffer is read before anything was written to it.
\<close>

type_synonym looked_up = "bool \<times> string option \<times> string option"

definition web_url :: "string \<Rightarrow> string" where
  "web_url ip = take 255 (''http://ip-api.com/json/'' @ ip @ ''?fields=status,country,countryCode,isp'')"

definition fail_mark :: string where
  "fail_mark = quote ''status'' @ '':'' @ quote ''fail''"

definition web_lookup :: "(string \<Rightarrow> http_result option) \<Rightarrow> string \<Rightarrow> looked_up option" where
  "web_lookup fetch ip =
     (case fetch (web_url ip) of
        None \<Rightarrow> Some (False, None, None)
      | Some r \<Rightarrow>
          let buf = foldl (curl_write_cb 2048) [] (ht_chunks r)
          in if \<not> ht_ok r \<or> ht_code r \<noteq> 200 then Some (False, None, None)
             else if buf = [] then None
             else if strstr (c_text buf) fail_mark then Some (False, None, None)
             else let country = (case json_extract (c_text buf) ''countryCode'' 64 of
                                   Some tmp \<Rightarrow> Some (c_strncpy 31 tmp)
                                 | None \<Rightarrow> map_option (c_strncpy 31) (json_extract (c_text buf) ''country'' 64));
                      provider = map_option (c_strncpy 63) (json_extract (c_text buf) ''isp'' 64)
                  in Some (country \<noteq> None \<or> provider \<noteq> None, country, provider))"

text \<open>
  A record of the database has a country code and a provider, each possibly null.  A build
  without IP2Location is the one in which no database is ever open.
\<close>

type_synonym geo_db = "string \<Rightarrow> (string option \<times> string option) option"

definition local_lookup :: "geo_db option \<Rightarrow> string \<Rightarrow> looked_up" where
  "local_lookup db ip =
     (case db of
        None \<Rightarrow> (False, None, None)
      | Some get_all \<Rightarrow>
          (case get_all ip of
             None \<Rightarrow> (False, None, None)
           | Some (country_short, isp) \<Rightarrow>
               let country = (case country_short of None \<Rightarrow> None | Some s \<Rightarrow> if s = [] then None else Some (c_strncpy 31 s));
                   provider = (case isp of None \<Rightarrow> None | Some s \<Rightarrow> if s = [] \<or> s = ''-'' then None else Some (c_strncpy 63 s))
               in (country \<noteq> None \<or> provider \<noteq> None, country, provider)))"

section \<open>Requests\<close>

record geoip_state =
  gs_ip2loc :: "geo_db option"
  gs_cache :: "geo_entry list"

record geoip_env =
  env_fetch :: "string \<Rightarrow> http_result option"
  env_open_db :: "string \<Rightarrow> geo_db option"
  env_file :: "string \<Rightarrow> string option"

definition written :: "string option \<Rightarrow> string" where
  "written w = (case w of None \<Rightarrow> [] | Some s \<Rightarrow> s)"

definition resolve_one :: "geoip_env \<Rightarrow> string \<Rightarrow> geoip_state \<Rightarrow> geoip_state option" where
  "resolve_one env ip st =
     (if ip = [] \<or> ip = ''Reply Received'' then Some st
      else if geo_cache_find (gs_cache st) ip \<noteq> None then Some st
      else do {
        (ok, country, provider) \<leftarrow>
          (let r = local_lookup (gs_ip2loc st) ip in if fst r then Some r else web_lookup (env_fetch env) ip);
        Some (st\<lparr>gs_cache := geo_cache_store ip (if ok then (written country, written provider) else (''?'', ''?'')) (gs_cache st)\<rparr>) })"

fun find_db :: "string list \<Rightarrow> string option" where
  "find_db [] = None"
| "find_db (line # lines) =
     (case key_value line of
        Some (key, val) \<Rightarrow> if key = ''IP2_LOCATION_DB'' then Some val else find_db lines
      | None \<Rightarrow> find_db lines)"

definition handle_init :: "geoip_env \<Rightarrow> string \<Rightarrow> int \<Rightarrow> geoip_state \<Rightarrow> string \<times> geoip_state" where
  "handle_init env params ident st =
     (let config_path = written (json_extract params ''config_path'' 512);
          st = (case env_file env config_path of
                  None \<Rightarrow> st
                | Some content \<Rightarrow>
                    (case find_db (fgets_lines content) of
                       None \<Rightarrow> st
                     | Some path \<Rightarrow> st\<lparr>gs_ip2loc := env_open_db env path\<rparr>))
      in (print_doc (JObj [(''jsonrpc'', JStr ''2.0''), (''id'', JInt ident),
            (''result'', JObj [(''status'', JStr ''ok''), (''description'', JStr ''Resolve hop IPs to country & provider'')])]), st))"

fun resolve_elems :: "geoip_env \<Rightarrow> string list \<Rightarrow> geoip_state \<Rightarrow> geoip_state option" where
  "resolve_elems env [] st = Some st"
| "resolve_elems env (elem # elems) st =
     resolve_one env (written (json_extract elem ''addr'' 64)) st \<bind> resolve_elems env elems"

definition handle_update_telemetry :: "geoip_env \<Rightarrow> string \<Rightarrow> geoip_state \<Rightarrow> geoip_state option" where
  "handle_update_telemetry env params st =
     (case get_sub params ''hops'' of None \<Rightarrow> Some st | Some hops \<Rightarrow> resolve_elems env (arr_elems hops) st)"

definition annotation_text :: "geo_entry \<Rightarrow> string" where
  "annotation_text e = take 127 (''['' @ ge_country e @ '' '' @ ge_provider e @ '']'')"

definition annotate_elem :: "geo_entry list \<Rightarrow> string \<Rightarrow> json list" where
  "annotate_elem cache elem =
     (let hop_idx = get_int elem ''hop_idx'' (-1); addr = written (json_extract elem ''addr'' 64)
      in case geo_cache_find cache addr of
           None \<Rightarrow> []
         | Some j \<Rightarrow> if ge_valid (cache ! j)
                    then [JObj [(''hop_idx'', JInt hop_idx), (''text'', JStr (annotation_text (cache ! j)))]] else [])"

definition handle_render_hops :: "geoip_state \<Rightarrow> string \<Rightarrow> int \<Rightarrow> string" where
  "handle_render_hops st params ident =
     print_doc (JObj [(''jsonrpc'', JStr ''2.0''), (''id'', JInt ident),
       (''result'', JObj [(''annotations'',
          JArr (case get_sub params ''hops'' of
                  None \<Rightarrow> []
                | Some hops \<Rightarrow> concat (map (annotate_elem (gs_cache st)) (arr_elems hops))))])])"

definition send_error :: "int \<Rightarrow> string \<Rightarrow> string" where
  "send_error ident message =
     print_doc (JObj [(''jsonrpc'', JStr ''2.0''), (''id'', JInt ident),
       (''error'', JObj [(''code'', JInt (- 32601)), (''message'', JStr message)])])"

text \<open>One turn of the loop in \<open>main\<close>: what is printed and the new state.\<close>

definition geoip_line :: "geoip_env \<Rightarrow> string \<Rightarrow> geoip_state \<Rightarrow> (string \<times> geoip_state) option" where
  "geoip_line env raw st =
     (case read_request raw of
        None \<Rightarrow> Some ([], st)
      | Some rq \<Rightarrow>
          if rq_method rq = ''init'' then
            Some (case rq_id rq of None \<Rightarrow> ([], st) | Some n \<Rightarrow> handle_init env (rq_params rq) n st)
          else if rq_method rq = ''update_telemetry'' then
            map_option (Pair []) (handle_update_telemetry env (rq_params rq) st)
          else if rq_method rq = ''render_hops'' then
            Some (case rq_id rq of None \<Rightarrow> [] | Some n \<Rightarrow> handle_render_hops st (rq_params rq) n, st)
          else if rq_method rq = ''cleanup'' then Some ([], st)
          else Some (case rq_id rq of None \<Rightarrow> [] | Some n \<Rightarrow> send_error n ''Method not found'', st))"

fun geoip_loop :: "geoip_env \<Rightarrow> string list \<Rightarrow> geoip_state \<Rightarrow> (string \<times> geoip_state) option" where
  "geoip_loop env [] st = Some ([], st)"
| "geoip_loop env (line # lines) st =
     do { (out, st) \<leftarrow> geoip_line env line st; (rest, st) \<leftarrow> geoip_loop env lines st; Some (out @ rest, st) }"

definition geoip_main :: "geoip_env \<Rightarrow> string list \<Rightarrow> (string \<times> geoip_state) option" where
  "geoip_main env lines = geoip_loop env lines \<lparr>gs_ip2loc = None, gs_cache = geo_zero\<rparr>"

section \<open>The answers the host reads\<close>

text \<open>A member the plugin extracts from a document of the host.\<close>

lemma json_extract_at:
  assumes "at_value (JObj ms) p" "plain key" "map_of ms key = Some (JStr s)" "\<forall>c \<in> set s. survives c" "0 < len"
  shows "json_extract p key len = Some (take (len - 1) s)"
  using parse_quote [OF assms(4,5)] assms(1-3) by (simp add: json_extract_def get_text_at)

definition hop_ok :: "nsr_hop_info \<Rightarrow> bool" where
  "hop_ok h \<longleftrightarrow> length (hop_addr h) \<le> 47 \<and> (\<forall>c \<in> set (hop_addr h). survives c)"

definition geo_texts_ok :: "geo_entry list \<Rightarrow> bool" where
  "geo_texts_ok cache \<longleftrightarrow> (\<forall>e \<in> set cache. length (ge_country e) \<le> 31 \<and> length (ge_provider e) \<le> 63 \<and>
     (\<forall>c \<in> set (ge_country e) \<union> set (ge_provider e). survives c))"

text \<open>The annotation of a hop whose address is known.\<close>

definition hop_label :: "geo_entry list \<Rightarrow> nsr_hop_info \<Rightarrow> string option" where
  "hop_label cache h = map_option (\<lambda>(country, provider). ''['' @ country @ '' '' @ provider @ '']'') (geo_lookup cache (hop_addr h))"

definition label_docs :: "geo_entry list \<Rightarrow> nsr_hop_info list \<Rightarrow> nat list \<Rightarrow> json list" where
  "label_docs cache hops idx =
     concat (map (\<lambda>i. case hop_label cache (hops ! i) of
                       None \<Rightarrow> [] | Some t \<Rightarrow> [JObj [(''hop_idx'', JInt (int i)), (''text'', JStr t)]]) idx)"

definition label_annotations :: "geo_entry list \<Rightarrow> nsr_hop_info list \<Rightarrow> nat list \<Rightarrow> nsr_hop_annotation list" where
  "label_annotations cache hops idx =
     concat (map (\<lambda>i. case hop_label cache (hops ! i) of
                       None \<Rightarrow> [] | Some t \<Rightarrow> [\<lparr>an_hop_idx = int i, an_text = t\<rparr>]) idx)"

lemma to_int32_small: "- (2 ^ 31) \<le> n \<Longrightarrow> n < 2 ^ 31 \<Longrightarrow> to_int32 n = n"
  by (simp add: to_int32_def signed_of_int signed_take_bit_int_eq_self)

lemma hop_label_cases:
  assumes "geo_inv cache" "geo_texts_ok cache"
  shows "case geo_cache_find cache (hop_addr h) of
      None \<Rightarrow> hop_label cache h = None
    | Some j \<Rightarrow> ge_valid (cache ! j) \<and> hop_label cache h = Some (annotation_text (cache ! j)) \<and>
               length (annotation_text (cache ! j)) \<le> 127 \<and> annotation_text (cache ! j) \<noteq> [] \<and>
               (\<forall>c \<in> set (annotation_text (cache ! j)). survives c)"
proof (cases "geo_cache_find cache (hop_addr h)")
  case None
  then show ?thesis by (simp add: hop_label_def geo_lookup_def)
next
  case (Some j)
  then have j: "j < length cache" "ge_valid (cache ! j)"
    using find_loop_Some [of cache "hop_addr h" "probe_seq (hop_addr h)" j] set_probe_seq [of "hop_addr h"] assms(1)
    by (auto simp: geo_cache_find_def geo_inv_def)
  let ?e = "cache ! j"
  have e: "length (ge_country ?e) \<le> 31" "length (ge_provider ?e) \<le> 63" "\<forall>c \<in> set (ge_country ?e) \<union> set (ge_provider ?e). survives c"
    using assms(2) nth_mem [OF j(1)] unfolding geo_texts_ok_def by blast+
  then have t: "annotation_text ?e = ''['' @ ge_country ?e @ '' '' @ ge_provider ?e @ '']''" by (simp add: annotation_text_def)
  with e j Some show ?thesis by (auto simp: hop_label_def geo_lookup_def survives_def)
qed

lemma plain_keys [simp]:
  "plain ''hops''" "plain ''hop_idx''" "plain ''addr''" "plain ''text''" "plain ''result''" "plain ''annotations''"
  "plain ''method''" "plain ''params''" "plain ''id''"
  by (simp_all add: plain_def)

lemma annotate_elem_at:
  assumes "at_value (hop_doc i h) elem" "hop_ok h" "i < NSR_MAX_HOPS" "geo_inv cache" "geo_texts_ok cache"
  shows "annotate_elem cache elem =
    (case hop_label cache h of None \<Rightarrow> [] | Some t \<Rightarrow> [JObj [(''hop_idx'', JInt (int i)), (''text'', JStr t)]])"
proof -
  note at = assms(1) [unfolded hop_doc_def]
  have "get_int elem ''hop_idx'' (- 1) = int i"
    by (rule get_int_at [OF at]) (use assms(3) in \<open>simp_all add: NSR_MAX_HOPS_def\<close>)
  moreover have "json_extract elem ''addr'' 64 = Some (take 63 (hop_addr h))"
    using json_extract_at [OF at, of "''addr''" "hop_addr h" 64] assms(2) by (simp add: hop_ok_def)
  then have "written (json_extract elem ''addr'' 64) = hop_addr h" using assms(2) by (simp add: written_def hop_ok_def)
  ultimately show ?thesis
    using hop_label_cases [OF assms(4,5), of h] by (auto simp: annotate_elem_def Let_def split: option.splits)
qed

lemma annotate_elems_at:
  assumes "list_all2 at_value (map (\<lambda>i. hop_doc i (hops ! i)) idx) elems" "\<forall>i \<in> set idx. hop_ok (hops ! i) \<and> i < NSR_MAX_HOPS"
    "geo_inv cache" "geo_texts_ok cache"
  shows "concat (map (annotate_elem cache) elems) = label_docs cache hops idx"
  using assms(1,2)
proof (induction idx arbitrary: elems)
  case Nil
  then show ?case by (simp add: label_docs_def)
next
  case (Cons i idx)
  then obtain e es where e: "elems = e # es" "at_value (hop_doc i (hops ! i)) e"
    "list_all2 at_value (map (\<lambda>i. hop_doc i (hops ! i)) idx) es" by (auto simp: list_all2_Cons1)
  with Cons.IH [of es] Cons.prems(2) annotate_elem_at [OF e(2) _ _ assms(3,4)]
  show ?case by (simp add: label_docs_def)
qed

lemma collect_labels:
  assumes "list_all2 at_value (label_docs cache hops idx) elems" "\<forall>i \<in> set idx. i < NSR_MAX_HOPS"
    "geo_inv cache" "geo_texts_ok cache" "length out + length (label_docs cache hops idx) \<le> max_out"
  shows "collect_annotations max_out elems out = out @ label_annotations cache hops idx"
  using assms(1,2,5)
proof (induction idx arbitrary: elems out)
  case Nil
  then show ?case by (simp add: label_docs_def label_annotations_def)
next
  case (Cons i idx)
  show ?case
  proof (cases "hop_label cache (hops ! i)")
    case None
    then have "label_docs cache hops (i # idx) = label_docs cache hops idx"
      "label_annotations cache hops (i # idx) = label_annotations cache hops idx"
      by (simp_all add: label_docs_def label_annotations_def)
    then show ?thesis using Cons.IH [of elems out] Cons.prems by simp
  next
    case (Some t)
    have d: "label_docs cache hops (i # idx) = JObj [(''hop_idx'', JInt (int i)), (''text'', JStr t)] # label_docs cache hops idx"
      "label_annotations cache hops (i # idx) = \<lparr>an_hop_idx = int i, an_text = t\<rparr> # label_annotations cache hops idx"
      using Some by (simp_all add: label_docs_def label_annotations_def)
    obtain e es where e: "elems = e # es" "at_value (JObj [(''hop_idx'', JInt (int i)), (''text'', JStr t)]) e"
      "list_all2 at_value (label_docs cache hops idx) es" using Cons.prems(1) unfolding d(1) by (auto simp: list_all2_Cons1)
    have t: "length t \<le> 127" "t \<noteq> []" "\<forall>c \<in> set t. survives c"
      using hop_label_cases [OF assms(3,4), of "hops ! i"] Some by (auto split: option.splits)
    have i: "i < 64" using Cons.prems(2) by (simp add: NSR_MAX_HOPS_def)
    have "get_int e ''hop_idx'' (- 1) = int i" by (rule get_int_at [OF e(2)]) (use i in simp_all)
    moreover have "get_string e ''text'' 128 = t" using get_string_at [OF e(2), of "''text''" t 128] t by simp
    moreover have "to_int32 (int i) = int i" using i by (intro to_int32_small) simp_all
    ultimately have "annotation_of e = Some \<lparr>an_hop_idx = int i, an_text = t\<rparr>" using t by (simp add: annotation_of_def)
    then show ?thesis using Cons.IH [OF e(3)] Cons.prems(2,3) unfolding e(1) d by simp
  qed
qed

text \<open>A request line of the host is read back with its method, its identifier and its parameters.\<close>

lemma request_line_render: "request_line (render v @ [CHR 0x0A]) = render v"
proof -
  have c: "clean (render v)" by simp
  then have "c_text (render v @ [CHR 0x0A]) = render v @ [CHR 0x0A]"
    unfolding c_text_def using cleanD by (subst takeWhile_eq_all_conv) auto
  moreover have "last (render v) \<noteq> CHR 0x0D" using render_last(1) [of v] c last_in_set [of "render v"] by (fastforce simp: clean_def)
  ultimately show ?thesis by (simp add: request_line_def drop_last_def)
qed

lemma read_request_render:
  assumes "length m < 64" "\<forall>c \<in> set m. survives c" "- (2 ^ 63) \<le> ident" "ident < 2 ^ 63"
  shows "\<exists>p. read_request (render (request_doc m v ident) @ [CHR 0x0A]) = Some \<lparr>rq_method = m, rq_params = p, rq_id = Some ident\<rparr> \<and>
    at_value v p"
proof -
  note at = at_value_render(1) [of "request_doc m v ident", unfolded request_doc_def]
  obtain p where p: "get_sub (render (request_doc m v ident)) ''params'' = Some p" "at_value v p"
    using get_sub_at [OF at, of "''params''" v] by (auto simp: request_doc_def)
  have "get_text (render (request_doc m v ident)) ''method'' = Some (quote m)"
    "get_text (render (request_doc m v ident)) ''id'' = Some (print_lld ident)"
    using get_text_at [OF at, of "''method''"] get_text_at [OF at, of "''id''"] by (simp_all add: request_doc_def del: render.simps(7))
  moreover have "nsr_json_parse_int (print_lld ident) = (True, Some ident)"
    using strtoll_print [OF assms(3,4)] length_print_lld [OF assms(3,4)] by (simp add: nsr_json_parse_int_def)
  moreover have "nsr_json_parse_str (quote m) 64 = Some m" using parse_quote [OF assms(2), of 64] assms(1) by simp
  ultimately show ?thesis using p by (simp add: read_request_def request_line_render)
qed

text \<open>The whole exchange of one \<open>render_hops\<close> request.\<close>

definition probed_hops :: "nsr_hop_info list \<Rightarrow> nat \<Rightarrow> nat list" where
  "probed_hops hops n = filter (\<lambda>i. hop_sent (hops ! i) \<noteq> 0) [1..<min NSR_MAX_HOPS n]"

definition label_reply :: "int \<Rightarrow> json list \<Rightarrow> json" where
  "label_reply ident vs =
     JObj [(''jsonrpc'', JStr ''2.0''), (''id'', JInt ident), (''result'', JObj [(''annotations'', JArr vs)])]"

lemma render_hops_answer:
  assumes hops: "\<forall>i \<in> set (probed_hops hops n). hop_ok (hops ! i)" and cache: "geo_inv (gs_cache st)" "geo_texts_ok (gs_cache st)"
    and ident: "- (2 ^ 63) \<le> ident" "ident < 2 ^ 63"
  shows "geoip_line env (render (request_doc ''render_hops'' (render_hops_doc hops n) ident) @ [CHR 0x0A]) st =
    Some (render (label_reply ident (label_docs (gs_cache st) hops (probed_hops hops n))) @ [CHR 0x0A], st)"
proof -
  let ?idx = "probed_hops hops n"
  have small: "\<forall>i \<in> set ?idx. i < NSR_MAX_HOPS" by (simp add: probed_hops_def)
  obtain p where p: "read_request (render (request_doc ''render_hops'' (render_hops_doc hops n) ident) @ [CHR 0x0A]) =
      Some \<lparr>rq_method = ''render_hops'', rq_params = p, rq_id = Some ident\<rparr>" "at_value (render_hops_doc hops n) p"
    using read_request_render [of "''render_hops''" ident "render_hops_doc hops n"] ident by (auto simp: survives_def)
  obtain q where q: "get_sub p ''hops'' = Some q" "at_value (JArr (hop_docs [1..<min NSR_MAX_HOPS n] hops)) q"
    using get_sub_at [OF p(2) [unfolded render_hops_doc_def], of "''hops''"] by auto
  have "list_all2 at_value (map (\<lambda>i. hop_doc i (hops ! i)) ?idx) (arr_elems q)"
    using arr_elems_at [OF q(2)] by (simp add: hop_docs_def probed_hops_def)
  then have docs: "concat (map (annotate_elem (gs_cache st)) (arr_elems q)) = label_docs (gs_cache st) hops ?idx"
    using annotate_elems_at [OF _ _ cache] hops small by blast
  have "ints_ok (label_reply ident (label_docs (gs_cache st) hops ?idx))"
    using ident small by (auto simp: label_reply_def label_docs_def NSR_MAX_HOPS_def split: option.splits)
  then show ?thesis using p(1) q(1) docs
    by (simp add: geoip_line_def handle_render_hops_def print_doc_eq label_reply_def del: render.simps)
qed

lemma length_label_docs: "length (label_docs cache hops idx) \<le> length idx"
  by (induction idx) (auto simp: label_docs_def split: option.split)

lemma label_reply_read:
  assumes cache: "geo_inv cache" "geo_texts_ok cache"
  shows "parse_render_hops_response (render (label_reply ident (label_docs cache hops (probed_hops hops n)))) NSR_MAX_HOPS [] =
    label_annotations cache hops (probed_hops hops n)"
proof -
  let ?idx = "probed_hops hops n" and ?vs = "label_docs cache hops (probed_hops hops n)"
  have small: "\<forall>i \<in> set ?idx. i < NSR_MAX_HOPS" by (simp add: probed_hops_def)
  obtain p where p: "get_sub (render (label_reply ident ?vs)) ''result'' = Some p" "at_value (JObj [(''annotations'', JArr ?vs)]) p"
    using get_sub_at [OF at_value_render(1) [of "label_reply ident ?vs", unfolded label_reply_def], of "''result''"]
    by (auto simp: label_reply_def)
  obtain q where q: "get_sub p ''annotations'' = Some q" "at_value (JArr ?vs) q"
    using get_sub_at [OF p(2), of "''annotations''"] by auto
  have "length ?idx \<le> NSR_MAX_HOPS"
    using length_filter_le [of "\<lambda>i. hop_sent (hops ! i) \<noteq> 0" "[1..<min NSR_MAX_HOPS n]"] by (simp add: probed_hops_def)
  then have "length ?vs \<le> NSR_MAX_HOPS" using length_label_docs [of cache hops ?idx] by simp
  then show ?thesis using collect_labels [OF arr_elems_at [OF q(2)] small cache, of "[]" NSR_MAX_HOPS] p(1) q(1)
    by (simp add: parse_render_hops_response_def)
qed

section \<open>Telemetry fills the cache\<close>

text \<open>
  What the lookups answer: no successful web answer without a body (see \<open>web_lookup_empty_body\<close>),
  and no text with a character that does not survive the encoder.
\<close>

definition texts_survive :: "looked_up \<Rightarrow> bool" where
  "texts_survive r \<longleftrightarrow> (\<forall>c \<in> set (written (fst (snd r))) \<union> set (written (snd (snd r))). survives c)"

definition answers_ok :: "geoip_env \<Rightarrow> geo_db option \<Rightarrow> bool" where
  "answers_ok env db \<longleftrightarrow>
     (\<forall>ip. (\<exists>r. web_lookup (env_fetch env) ip = Some r \<and> texts_survive r) \<and> texts_survive (local_lookup db ip))"

lemma json_extract_survives:
  assumes "\<forall>c \<in> set p. survives c" "json_extract p key len = Some t"
  shows "\<forall>c \<in> set t. survives c"
proof -
  obtain v n where v: "nsr_json_obj_get p key = Some (v, n)" "nsr_json_parse_str (take n v) len = Some t"
    using assms(2) by (auto simp: json_extract_def get_text_def split: option.splits)
  have "set v \<subseteq> set p"
  proof -
    obtain c q where q: "skip_ws p = c # q" "obj_get_loop key q = Some (v, n)"
      using v(1) by (auto simp: nsr_json_obj_get_def split: list.splits if_splits)
    then show ?thesis using set_obj_get_loop [OF q(2)] set_skip_ws_Cons [OF q(1)] by blast
  qed
  then have "\<forall>c \<in> set (take n v). survives c" using assms(1) by (meson in_set_takeD subsetD)
  then have "\<forall>c \<in> set (butlast (tl (take n v))). survives c" by (cases "take n v") (auto dest: in_set_butlastD)
  then show ?thesis using v(2) set_parse_str_loop [of "butlast (tl (take n v))" "[]" "size_dec len"] by (auto simp: nsr_json_parse_str_def split: if_splits)
qed

lemma curl_buffer: "length kept \<le> 2047 \<Longrightarrow> foldl (curl_write_cb 2048) kept chunks = take 2047 (kept @ concat chunks)"
proof (induction chunks arbitrary: kept)
  case (Cons ch chunks)
  have "curl_write_cb 2048 kept ch = take 2047 (kept @ ch)"
    using Cons.prems by (auto simp: curl_write_cb_def Let_def)
  moreover have "take 2047 (take 2047 (kept @ ch) @ concat chunks) = take 2047 (kept @ concat (ch # chunks))"
    using Cons.prems by (cases "length (kept @ ch) \<le> 2047") simp_all
  ultimately show ?case using Cons.IH [of "take 2047 (kept @ ch)"] by (simp del: take_append)
qed simp

text \<open>
  This follows from what the two services document.  A successful answer of \<open>ip-api.com/json\<close> is a JSON text: it is not empty
  and has no control character but tab, line feed and carriage return.  The country code and the provider in a
  record of IP2Location are printable text.
\<close>

definition service_ok :: "geoip_env \<Rightarrow> geo_db option \<Rightarrow> bool" where
  "service_ok env db \<longleftrightarrow>
     (\<forall>url r. env_fetch env url = Some r \<longrightarrow> ht_ok r \<longrightarrow> ht_code r = 200 \<longrightarrow>
        concat (ht_chunks r) \<noteq> [] \<and> (\<forall>c \<in> set (concat (ht_chunks r)). 32 \<le> (of_char c :: nat) \<or> c \<in> {CHR 0x09, CHR 0x0A, CHR 0x0D})) \<and>
     (\<forall>get_all ip country isp. db = Some get_all \<longrightarrow> get_all ip = Some (country, isp) \<longrightarrow>
        (\<forall>c \<in> set (written country) \<union> set (written isp). 32 \<le> (of_char c :: nat)))"

lemma service_answers: "service_ok env db \<Longrightarrow> answers_ok env db"
proof -
  assume ok: "service_ok env db"
  have "\<exists>r. web_lookup (env_fetch env) ip = Some r \<and> texts_survive r" for ip
  proof (cases "env_fetch env (web_url ip)")
    case None
    then show ?thesis by (simp add: web_lookup_def texts_survive_def written_def)
  next
    case (Some r)
    let ?buf = "take 2047 (concat (ht_chunks r))"
    show ?thesis
    proof (cases "ht_ok r \<and> ht_code r = 200 \<and> \<not> strstr (c_text ?buf) fail_mark")
      case False
      have "?buf \<noteq> []" if "ht_ok r" "ht_code r = 200" using ok Some that unfolding service_ok_def by auto
      then show ?thesis using False Some by (auto simp: web_lookup_def curl_buffer texts_survive_def written_def Let_def)
    next
      case True
      then have body: "concat (ht_chunks r) \<noteq> []" "\<forall>c \<in> set (concat (ht_chunks r)). 32 \<le> (of_char c :: nat) \<or> c \<in> {CHR 0x09, CHR 0x0A, CHR 0x0D}"
        using ok Some unfolding service_ok_def by blast+
      then have "\<forall>c \<in> set (c_text ?buf). survives c" unfolding survives_def c_text_def by (blast dest: set_takeWhileD in_set_takeD)
      note ex = json_extract_survives [OF this]
      have cut: "\<forall>c \<in> set (c_strncpy n t). survives c" if "\<forall>c \<in> set t. survives c" for n t
        using that by (auto simp: c_strncpy_def dest: in_set_takeD)
      define country provider where
        "country = (case json_extract (c_text ?buf) ''countryCode'' 64 of Some tmp \<Rightarrow> Some (c_strncpy 31 tmp)
           | None \<Rightarrow> map_option (c_strncpy 31) (json_extract (c_text ?buf) ''country'' 64))"
        and "provider = map_option (c_strncpy 63) (json_extract (c_text ?buf) ''isp'' 64)"
      have "\<forall>c \<in> set (written country). survives c"
        using ex [of "''countryCode''" 64] ex [of "''country''" 64] cut
        by (cases "json_extract (c_text ?buf) ''countryCode'' 64"; cases "json_extract (c_text ?buf) ''country'' 64")
          (simp_all add: country_def written_def)
      moreover have "\<forall>c \<in> set (written provider). survives c"
        using ex [of "''isp''" 64] cut by (cases "json_extract (c_text ?buf) ''isp'' 64") (simp_all add: provider_def written_def)
      moreover have "?buf \<noteq> []" using body(1) by simp
      then have "web_lookup (env_fetch env) ip = Some (country \<noteq> None \<or> provider \<noteq> None, country, provider)"
        using True Some by (simp add: web_lookup_def curl_buffer Let_def country_def provider_def)
      ultimately show ?thesis by (auto simp: texts_survive_def)
    qed
  qed
  moreover have "texts_survive (local_lookup db ip)" for ip
  proof -
    have co: "survives c" if "db = Some g" "g ip = Some (Some s, isp)" "c \<in> set s" for g isp s c
      using ok that unfolding service_ok_def survives_def by (fastforce simp: written_def)
    have isp: "survives c" if "db = Some g" "g ip = Some (co, Some s)" "c \<in> set s" for g co s c
      using ok that unfolding service_ok_def survives_def by (fastforce simp: written_def)
    show ?thesis
      by (auto simp: local_lookup_def texts_survive_def written_def Let_def c_strncpy_def split: option.split dest!: in_set_takeD intro: co isp)
  qed
  ultimately show ?thesis by (simp add: answers_ok_def)
qed
definition geo_good :: "geoip_env \<Rightarrow> geoip_state \<Rightarrow> bool" where
  "geo_good env st \<longleftrightarrow> geo_inv (gs_cache st) \<and> geo_texts_ok (gs_cache st) \<and> answers_ok env (gs_ip2loc st)"

definition geo_known :: "geoip_state \<Rightarrow> string set" where
  "geo_known st = dom (geo_lookup (gs_cache st))"

lemma geo_texts_store:
  assumes "geo_texts_ok cache" "\<forall>c \<in> set (fst cp) \<union> set (snd cp). survives c"
  shows "geo_texts_ok (geo_cache_store ip cp cache)"
  unfolding geo_texts_ok_def
proof
  fix e assume "e \<in> set (geo_cache_store ip cp cache)"
  then consider "e \<in> set cache" | "ge_country e = c_strncpy 31 (fst cp)" "ge_provider e = c_strncpy 63 (snd cp)"
    by (cases "store_slot cache ip (probe_seq ip)") (auto simp: geo_cache_store_def dest!: set_update_subset_insert [THEN subsetD])
  then show "length (ge_country e) \<le> 31 \<and> length (ge_provider e) \<le> 63 \<and> (\<forall>c \<in> set (ge_country e) \<union> set (ge_provider e). survives c)"
  proof cases
    case 1
    then show ?thesis using assms(1) unfolding geo_texts_ok_def by blast
  next
    case 2
    then show ?thesis using assms(2) by (auto simp: c_strncpy_def dest: in_set_takeD)
  qed
qed

lemma resolve_one_new:
  assumes "answers_ok env (gs_ip2loc st)" "ip \<notin> {[], ''Reply Received''}" "geo_cache_find (gs_cache st) ip = None"
  shows "\<exists>cp. resolve_one env ip st = Some (st\<lparr>gs_cache := geo_cache_store ip cp (gs_cache st)\<rparr>) \<and>
    (\<forall>c \<in> set (fst cp) \<union> set (snd cp). survives c)"
proof -
  obtain w where w: "web_lookup (env_fetch env) ip = Some w" "texts_survive w" "texts_survive (local_lookup (gs_ip2loc st) ip)"
    using assms(1) unfolding answers_ok_def by blast
  define r where "r = (if fst (local_lookup (gs_ip2loc st) ip) then local_lookup (gs_ip2loc st) ip else w)"
  have r: "(let r = local_lookup (gs_ip2loc st) ip in if fst r then Some r else web_lookup (env_fetch env) ip) = Some r" "texts_survive r"
    using w by (simp_all add: r_def Let_def)
  obtain ok co pr where ok: "r = (ok, co, pr)" by (rule prod_cases3)
  have "resolve_one env ip st =
      Some (st\<lparr>gs_cache := geo_cache_store ip (if ok then (written co, written pr) else (''?'', ''?'')) (gs_cache st)\<rparr>)"
    using assms(2,3) r(1) by (simp add: resolve_one_def ok)
  moreover have "\<forall>c \<in> set (written co) \<union> set (written pr). survives c" using r(2) by (simp add: ok texts_survive_def)
  moreover have "\<forall>c \<in> set ''?'' \<union> set ''?''. survives c" by (simp add: survives_def)
  ultimately show ?thesis
    by (intro exI [of _ "if ok then (written co, written pr) else (''?'', ''?'')"]) (cases ok; simp)
qed

lemma resolve_one_ok:
  assumes good: "geo_good env st" and ip: "ip_ok ip" and room: "card (insert ip (geo_known st)) \<le> GEO_CACHE_SIZE"
  shows "\<exists>st'. resolve_one env ip st = Some st' \<and> geo_good env st' \<and> geo_known st' = geo_known st \<union> ({ip} - {[], ''Reply Received''})"
proof -
  let ?c = "gs_cache st"
  have inv: "geo_inv ?c" "geo_texts_ok ?c" "answers_ok env (gs_ip2loc st)" using good by (simp_all add: geo_good_def)
  consider (skip) "ip = [] \<or> ip = ''Reply Received''" | (known) "ip \<in> geo_known st" "ip \<notin> {[], ''Reply Received''}"
    | (new) "ip \<notin> geo_known st" "ip \<notin> {[], ''Reply Received''}" by blast
  then show ?thesis
  proof cases
    case skip
    with good show ?thesis by (auto simp: resolve_one_def)
  next
    case known
    then have "geo_cache_find ?c ip \<noteq> None" by (auto simp: geo_lookup_def geo_known_def)
    with good known show ?thesis by (auto simp: resolve_one_def)
  next
    case new
    then have none: "geo_cache_find ?c ip = None" by (auto simp: geo_lookup_def geo_known_def)
    obtain cp where "resolve_one env ip st = Some (st\<lparr>gs_cache := geo_cache_store ip cp ?c\<rparr>)" "\<forall>c \<in> set (fst cp) \<union> set (snd cp). survives c"
      using resolve_one_new [OF inv(3) new(2) none] by blast
    moreover have "card (dom (geo_lookup ?c)) < GEO_CACHE_SIZE"
      using room new(1) geo.finite_keys [OF inv(1)] by (simp add: geo_known_def)
    ultimately show ?thesis
      using geo.update_inv [OF inv(1) ip] geo.update_room [OF inv(1) ip] new(2) inv(3) geo_texts_store [OF inv(2)]
      by (auto simp: geo_good_def geo_known_def)
  qed
qed

lemma resolve_elems_ok:
  assumes "list_all2 (\<lambda>a e. json_extract e ''addr'' 64 = Some a) addrs elems" "\<forall>a \<in> set addrs. ip_ok a"
    and "geo_good env st" "card (geo_known st \<union> set addrs) \<le> GEO_CACHE_SIZE"
  shows "\<exists>st'. resolve_elems env elems st = Some st' \<and> geo_good env st' \<and>
    geo_known st' = geo_known st \<union> (set addrs - {[], ''Reply Received''})"
  using assms
proof (induction addrs arbitrary: elems st)
  case Nil
  then show ?case by simp
next
  case (Cons a addrs)
  then obtain e es where e: "elems = e # es" "json_extract e ''addr'' 64 = Some a"
    "list_all2 (\<lambda>a e. json_extract e ''addr'' 64 = Some a) addrs es" by (auto simp: list_all2_Cons1)
  have fin: "finite (geo_known st)" using geo.finite_keys Cons.prems(3) by (simp add: geo_good_def geo_known_def)
  have "card (insert a (geo_known st)) \<le> card (geo_known st \<union> set (a # addrs))" using fin by (intro card_mono) auto
  then obtain st1 where st1: "resolve_one env a st = Some st1" "geo_good env st1"
    "geo_known st1 = geo_known st \<union> ({a} - {[], ''Reply Received''})"
    using resolve_one_ok [OF Cons.prems(3), of a] Cons.prems(2,4) by auto
  have "card (geo_known st1 \<union> set addrs) \<le> card (geo_known st \<union> set (a # addrs))"
    unfolding st1(3) using fin by (intro card_mono) auto
  then obtain st2 where "resolve_elems env es st1 = Some st2" "geo_good env st2"
    "geo_known st2 = geo_known st1 \<union> (set addrs - {[], ''Reply Received''})"
    using Cons.IH [OF e(3) _ st1(2)] Cons.prems(2,4) by auto
  then show ?case using st1 e by (auto simp: written_def)
qed

text \<open>The addresses of a telemetry document, in order.\<close>

fun doc_addr :: "json \<Rightarrow> string" where
  "doc_addr (JObj ms) = (case map_of ms ''addr'' of Some (JStr a) \<Rightarrow> a | _ \<Rightarrow> [])"
| "doc_addr _ = []"

definition telemetry_elems :: "nsr_telemetry_state \<Rightarrow> nsr_topology_state option \<Rightarrow> json list" where
  "telemetry_elems tel topo = hop_docs [1..<NSR_MAX_HOPS] (tel_hops tel) @
     (case topo of None \<Rightarrow> [] | Some t \<Rightarrow> node_docs (tp_nodes t) (hop_ips (tel_hops tel)))"

lemma node_docs_sub: "v \<in> set (node_docs ns added) \<Longrightarrow> \<exists>n \<in> set ns. v = node_doc n"
  by (induction ns added rule: node_docs.induct) (auto split: if_splits)

lemma telemetry_elem_cases: "v \<in> set (telemetry_elems tel topo) \<Longrightarrow> (\<exists>i h. v = hop_doc i h) \<or> (\<exists>n. v = node_doc n)"
  by (auto simp: telemetry_elems_def hop_docs_def dest: node_docs_sub split: option.splits)

lemma extract_doc_addr:
  assumes "at_value v e" "v \<in> set (telemetry_elems tel topo)" "ip_ok (doc_addr v)" "\<forall>c \<in> set (doc_addr v). survives c"
  shows "json_extract e ''addr'' 64 = Some (doc_addr v)"
proof -
  obtain ms where ms: "v = JObj ms" "map_of ms ''addr'' = Some (JStr (doc_addr v))"
    using telemetry_elem_cases [OF assms(2)] by (auto simp: hop_doc_def node_doc_def)
  show ?thesis using json_extract_at [OF assms(1) [unfolded ms(1)] _ ms(2), of 64] assms(3,4) by (simp add: ip_ok_def)
qed

text \<open>A notification of the host is read back without an identifier.\<close>

lemma read_notification_render:
  assumes "length m < 64" "\<forall>c \<in> set m. survives c"
  shows "\<exists>p. read_request (render (notification_doc m v) @ [CHR 0x0A]) = Some \<lparr>rq_method = m, rq_params = p, rq_id = None\<rparr> \<and> at_value v p"
proof -
  note at = at_value_render(1) [of "notification_doc m v", unfolded notification_doc_def]
  obtain p where p: "get_sub (render (notification_doc m v)) ''params'' = Some p" "at_value v p"
    using get_sub_at [OF at, of "''params''" v] by (auto simp: notification_doc_def)
  have "get_text (render (notification_doc m v)) ''method'' = Some (quote m)" "get_text (render (notification_doc m v)) ''id'' = None"
    using get_text_at [OF at, of "''method''"] get_text_at [OF at, of "''id''"] by (simp_all add: notification_doc_def del: render.simps(7))
  moreover have "nsr_json_parse_str (quote m) 64 = Some m" using parse_quote [OF assms(2), of 64] assms(1) by simp
  ultimately show ?thesis using p by (simp add: read_request_def request_line_render)
qed

lemma telemetry_fills_cache:
  assumes "\<forall>v \<in> set (telemetry_elems tel topo). ip_ok (doc_addr v) \<and> (\<forall>c \<in> set (doc_addr v). survives c)"
    and "geo_good env st" "card (geo_known st \<union> doc_addr ` set (telemetry_elems tel topo)) \<le> GEO_CACHE_SIZE"
  shows "\<exists>st'. geoip_line env (render (notification_doc ''update_telemetry'' (telemetry_doc tel topo)) @ [CHR 0x0A]) st = Some ([], st') \<and>
    geo_good env st' \<and> geo_known st' = geo_known st \<union> (doc_addr ` set (telemetry_elems tel topo) - {[], ''Reply Received''})"
proof -
  let ?vs = "telemetry_elems tel topo"
  obtain p where p: "read_request (render (notification_doc ''update_telemetry'' (telemetry_doc tel topo)) @ [CHR 0x0A]) =
      Some \<lparr>rq_method = ''update_telemetry'', rq_params = p, rq_id = None\<rparr>" "at_value (telemetry_doc tel topo) p"
    using read_notification_render [of "''update_telemetry''" "telemetry_doc tel topo"] by (auto simp: survives_def)
  obtain q where q: "get_sub p ''hops'' = Some q" "at_value (JArr ?vs) q"
    using get_sub_at [OF p(2) [unfolded telemetry_doc_def], of "''hops''"] by (auto simp: telemetry_elems_def)
  have "list_all2 (\<lambda>a e. json_extract e ''addr'' 64 = Some a) (map doc_addr ?vs) (arr_elems q)"
    unfolding list_all2_map1 using arr_elems_at [OF q(2)] by (rule list.rel_mono_strong) (use assms(1) extract_doc_addr in blast)
  from resolve_elems_ok [OF this _ assms(2)] assms(1,3) p(1) q(1)
  show ?thesis by (auto simp: geoip_line_def handle_update_telemetry_def)
qed

section \<open>Properties\<close>

text \<open>A web answer without a body leaves the buffer unset, and it is read all the same.\<close>

lemma web_lookup_empty_body:
  assumes "fetch (web_url ip) = Some r" "ht_ok r" "ht_code r = 200" "concat (ht_chunks r) = []"
  shows "web_lookup fetch ip = None"
proof -
  have "foldl (curl_write_cb 2048) [] cs = []" if "concat cs = []" for cs
    using that by (induction cs) (simp_all add: curl_write_cb_def)
  with assms show ?thesis by (simp add: web_lookup_def)
qed

text \<open>The callback never fills the last byte, which the terminator needs.\<close>

lemma curl_write_cb_bound: "length kept < cap \<Longrightarrow> length (curl_write_cb cap kept chunk) < cap"
  by (auto simp: curl_write_cb_def Let_def)

text \<open>
  C37: The cache of the GeoIP plugin is a map: after any sequence of stores into the empty
  table, of addresses of at most 47 characters, at most 256 different ones, a lookup of any
  address finds exactly what was stored for it last (cut to the arrays of an entry), and
  nothing for an address that was never stored, in spite of collisions.
\<close>

theorem geo_cache_refines:
  assumes "\<forall>(ip, cp) \<in> set stores. length ip \<le> 47" "card (fst ` set stores) \<le> 256"
  shows "geo_lookup (fold (\<lambda>(ip, cp). geo_cache_store ip cp) stores geo_zero) = map_option geo_cut \<circ> map_of (rev stores)"
  using geo.fold_update [OF geo_inv_zero, of stores] assms
  by (simp add: geo_lookup_zero ip_ok_def GEO_CACHE_SIZE_def)

theorem geo_cache_refines_witness:
  "geo_hash ''10.0.1.1'' = geo_hash ''10.0.7.38'' \<and>
   geo_lookup (fold (\<lambda>(ip, cp). geo_cache_store ip cp)
     [(''10.0.1.1'', (''AU'', ''A'')), (''10.0.7.38'', (''US'', ''B'')), (''10.0.1.1'', (''DE'', ''C''))] geo_zero) =
   map_option geo_cut \<circ> map_of (rev [(''10.0.1.1'', (''AU'', ''A'')), (''10.0.7.38'', (''US'', ''B'')), (''10.0.1.1'', (''DE'', ''C''))])"
proof -
  have "geo_hash ''10.0.1.1'' = geo_hash ''10.0.7.38''" by (simp add: geo_hash_def GEO_CACHE_SIZE_def)
  then show ?thesis
    using geo_cache_refines [of "[(''10.0.1.1'', (''AU'', ''A'')), (''10.0.7.38'', (''US'', ''B'')), (''10.0.1.1'', (''DE'', ''C''))]"]
    by (simp add: card_insert_if)
qed

end
