(* ===== verification/Percentile.thy ===== *)
theory Percentile
  imports Plugin_Client C_Format
begin

text \<open>
  The statistics plugin, \<open>plugins/percentile/percentile.c\<close>: a ring of the last 4096 samples, a
  ring of one-minute buckets for the last 60 minutes in which samples came, the statistics over
  windows of each, and the requests of the host.

  Ring positions are natural numbers, which the code keeps below the size of the ring; times,
  round-trip times and sums are 64-bit words, counts of a bucket 32-bit words.  The clock is an
  argument.
\<close>

section \<open>Data\<close>

definition PCTL_SAMPLE_MAX :: nat where
  "PCTL_SAMPLE_MAX = 4096"

definition PCTL_BUCKET_MAX :: nat where
  "PCTL_BUCKET_MAX = 60"

record pctl_sample =
  ps_rtt_us :: u64
  ps_ts_ms :: u64
  ps_addr :: string

record pctl_state =
  sp_samples :: "pctl_sample list"
  sp_head :: nat
  sp_count :: nat

record pctl_bucket =
  bk_start_ms :: u64
  bk_min_us :: u64
  bk_max_us :: u64
  bk_sum_us :: u64
  bk_count :: u32

record pctl_bucket_ring =
  br_buckets :: "pctl_bucket list"
  br_head :: nat
  br_count :: nat

record pctl_stats =
  st_min_us :: u64
  st_max_us :: u64
  st_avg_us :: u64
  st_valid :: bool

definition no_stats :: pctl_stats where
  "no_stats = \<lparr>st_min_us = 0, st_max_us = 0, st_avg_us = 0, st_valid = False\<rparr>"

abbreviation UINT64_MAX :: u64 where
  "UINT64_MAX \<equiv> - 1"

text \<open>The rows of \<open>WINDOWS\<close>: label, number of buckets, length in milliseconds.\<close>

definition WINDOWS :: "(string \<times> nat \<times> u64) list" where
  "WINDOWS = [(''1min'', 1, 60 * 1000), (''5min'', 5, 5 * 60 * 1000), (''15min'', 15, 15 * 60 * 1000),
     (''1hr'', 60, 60 * 60 * 1000)]"

section \<open>Samples and buckets\<close>

definition bucket_start_ms :: "u64 \<Rightarrow> u64" where
  "bucket_start_ms ts_ms = (ts_ms div 60000) * 60000"

definition pctl_add :: "string \<Rightarrow> u64 \<Rightarrow> u64 \<Rightarrow> pctl_state \<Rightarrow> pctl_state" where
  "pctl_add addr rtt_us ts_ms s =
     (if addr = [] \<or> rtt_us = 0 then s
      else s\<lparr>sp_samples := (sp_samples s)[sp_head s := \<lparr>ps_rtt_us = rtt_us, ps_ts_ms = ts_ms, ps_addr = c_strncpy 47 addr\<rparr>],
             sp_head := (sp_head s + 1) mod PCTL_SAMPLE_MAX,
             sp_count := (if sp_count s < PCTL_SAMPLE_MAX then sp_count s + 1 else sp_count s)\<rparr>)"

text \<open>The positions of the last \<open>n\<close> buckets, oldest first.\<close>

definition last_buckets :: "nat \<Rightarrow> pctl_bucket_ring \<Rightarrow> nat list" where
  "last_buckets n r = map (\<lambda>i. (br_head r + PCTL_BUCKET_MAX - n + i) mod PCTL_BUCKET_MAX) [0..<n]"

definition get_current_bucket :: "u64 \<Rightarrow> pctl_bucket_ring \<Rightarrow> nat \<times> pctl_bucket_ring" where
  "get_current_bucket ts_ms r =
     (let start = bucket_start_ms ts_ms
      in case List.find (\<lambda>idx. bk_start_ms (br_buckets r ! idx) = start) (last_buckets (br_count r) r) of
           Some idx \<Rightarrow> (idx, r)
         | None \<Rightarrow>
             (br_head r,
              r\<lparr>br_buckets := (br_buckets r)[br_head r := \<lparr>bk_start_ms = start, bk_min_us = UINT64_MAX, bk_max_us = 0,
                                                         bk_sum_us = 0, bk_count = 0\<rparr>],
                br_head := (br_head r + 1) mod PCTL_BUCKET_MAX,
                br_count := (if br_count r < PCTL_BUCKET_MAX then br_count r + 1 else br_count r)\<rparr>))"

definition bucket_put :: "u64 \<Rightarrow> pctl_bucket \<Rightarrow> pctl_bucket" where
  "bucket_put rtt_us b =
     b\<lparr>bk_min_us := (if rtt_us < bk_min_us b then rtt_us else bk_min_us b),
       bk_max_us := (if rtt_us > bk_max_us b then rtt_us else bk_max_us b),
       bk_sum_us := bk_sum_us b + rtt_us, bk_count := bk_count b + 1\<rparr>"

definition bucket_add :: "u64 \<Rightarrow> u64 \<Rightarrow> pctl_bucket_ring \<Rightarrow> pctl_bucket_ring" where
  "bucket_add ts_ms rtt_us r =
     (case get_current_bucket ts_ms r of
        (idx, r) \<Rightarrow> r\<lparr>br_buckets := (br_buckets r)[idx := bucket_put rtt_us (br_buckets r ! idx)]\<rparr>)"

section \<open>Statistics\<close>

text \<open>The loop variables: minimum, maximum, sum and count.\<close>

type_synonym totals = "u64 \<times> u64 \<times> u64 \<times> u64"

definition add_bucket :: "pctl_bucket \<Rightarrow> totals \<Rightarrow> totals" where
  "add_bucket b t =
     (case t of (min_us, max_us, sum_us, count) \<Rightarrow>
        if bk_count b = 0 then t
        else (if bk_min_us b < min_us then bk_min_us b else min_us,
              if bk_max_us b > max_us then bk_max_us b else max_us,
              sum_us + bk_sum_us b, count + ucast (bk_count b)))"

definition stats_of :: "totals \<Rightarrow> pctl_stats" where
  "stats_of t =
     (case t of (min_us, max_us, sum_us, count) \<Rightarrow>
        if count = 0 then no_stats
        else \<lparr>st_min_us = min_us, st_max_us = max_us, st_avg_us = sum_us div count, st_valid = True\<rparr>)"

definition compute_window_stats :: "nat \<Rightarrow> pctl_bucket_ring \<Rightarrow> pctl_stats" where
  "compute_window_stats num_buckets r =
     (if br_count r = 0 \<or> num_buckets = 0 then no_stats
      else let n = (if num_buckets < br_count r then num_buckets else br_count r)
           in stats_of (fold (\<lambda>idx. add_bucket (br_buckets r ! idx)) (last_buckets n r) (UINT64_MAX, 0, 0, 0)))"

text \<open>The count of this loop has 32 bits.\<close>

definition add_sample :: "string \<Rightarrow> u64 \<Rightarrow> pctl_sample \<Rightarrow> u64 \<times> u64 \<times> u64 \<times> u32 \<Rightarrow> u64 \<times> u64 \<times> u64 \<times> u32" where
  "add_sample addr cutoff s t =
     (case t of (min_us, max_us, sum_us, count) \<Rightarrow>
        if ps_addr s \<noteq> addr then t
        else if ps_ts_ms s < cutoff then t
        else (if ps_rtt_us s < min_us then ps_rtt_us s else min_us,
              if ps_rtt_us s > max_us then ps_rtt_us s else max_us,
              sum_us + ps_rtt_us s, count + 1))"

definition compute_window_stats_for_addr :: "string \<Rightarrow> u64 \<Rightarrow> u64 \<Rightarrow> pctl_state \<Rightarrow> pctl_stats" where
  "compute_window_stats_for_addr addr window_ms now s =
     (if addr = [] \<or> sp_count s = 0 then no_stats
      else let cutoff = now - window_ms;
               idxs = map (\<lambda>i. (sp_head s + PCTL_SAMPLE_MAX - sp_count s + i) mod PCTL_SAMPLE_MAX) [0..<sp_count s]
           in case fold (\<lambda>idx. add_sample addr cutoff (sp_samples s ! idx)) idxs (UINT64_MAX, 0, 0, 0) of
                (min_us, max_us, sum_us, count) \<Rightarrow>
                  if count = 0 then no_stats
                  else \<lparr>st_min_us = min_us, st_max_us = max_us, st_avg_us = sum_us div ucast count, st_valid = True\<rparr>)"

section \<open>Requests\<close>

text \<open>\<open>%6.2f\<close> of \<open>us / 1000.0\<close> and \<open>%-5s\<close>.\<close>

definition print_ms :: "u64 \<Rightarrow> string" where
  "print_ms us = pad_left 6 (print_fixed 2 (f64 (f64 (of_nat (unat us)) / 1000)))"

text \<open>The line counter \<open>*line_y\<close> is threaded through.\<close>

definition emit_title :: "string \<Rightarrow> int \<Rightarrow> int \<Rightarrow> json \<times> int" where
  "emit_title title line_y start_x =
     (JObj [(''y'', JInt line_y), (''x'', JInt start_x), (''text'', JStr title), (''color'', JStr ''cyan'')], line_y + 1)"

definition stats_text :: "string \<Rightarrow> pctl_stats \<Rightarrow> string" where
  "stats_text label s =
     take 79 (if st_valid s
       then pad_right 5 label @ '' min/avg/max  '' @ print_ms (st_min_us s) @ ''/'' @ print_ms (st_avg_us s) @ ''/'' @
              print_ms (st_max_us s) @ '' ms''
       else pad_right 5 label @ '' min/avg/max  '' @ pad_left 6 ''N/A'' @ ''/'' @ pad_left 6 ''N/A'' @ ''/'' @ pad_left 6 ''N/A'' @ '' ms'')"

definition emit_stats_line :: "string \<Rightarrow> pctl_stats \<Rightarrow> int \<Rightarrow> int \<Rightarrow> json \<times> int" where
  "emit_stats_line label s line_y start_x =
     (JObj [(''y'', JInt line_y), (''x'', JInt start_x), (''text'', JStr (stats_text label s))], line_y + 1)"

record percentile =
  g_samples :: pctl_state
  g_buckets :: pctl_bucket_ring

fun emit_windows :: "(string \<times> nat \<times> u64 \<Rightarrow> pctl_stats) \<Rightarrow> (string \<times> nat \<times> u64) list \<Rightarrow> int \<Rightarrow> int \<Rightarrow> json list \<times> int" where
  "emit_windows stat [] line_y start_x = ([], line_y)"
| "emit_windows stat (w # ws) line_y start_x =
     (case emit_stats_line (fst w) (stat w) line_y start_x of
        (v, line_y) \<Rightarrow> (case emit_windows stat ws line_y start_x of (vs, line_y) \<Rightarrow> (v # vs, line_y)))"

text \<open>
  \<open>now\<close> gives the clock reading made for each window.
\<close>

definition emit_window_stats ::
    "string \<Rightarrow> int \<Rightarrow> int \<Rightarrow> bool \<Rightarrow> string \<Rightarrow> (string \<Rightarrow> u64) \<Rightarrow> percentile \<Rightarrow> json list \<times> int" where
  "emit_window_stats title line_y start_x use_buckets focus_addr now g =
     (case emit_title title line_y start_x of
        (v, line_y) \<Rightarrow>
          (case emit_windows (\<lambda>(label, buckets, window_ms).
                    if use_buckets then compute_window_stats buckets (g_buckets g)
                    else compute_window_stats_for_addr focus_addr window_ms (now label) (g_samples g)) WINDOWS line_y start_x of
             (vs, line_y) \<Rightarrow> (v # vs, line_y)))"

definition reply_doc :: "int \<Rightarrow> string \<Rightarrow> json \<Rightarrow> json" where
  "reply_doc ident member v = JObj [(''jsonrpc'', JStr ''2.0''), (''id'', JInt ident), (member, v)]"

definition handle_init :: "int \<Rightarrow> string" where
  "handle_init ident =
     print_doc (reply_doc ident ''result''
       (JObj [(''status'', JStr ''ok''), (''description'', JStr ''Show RTT min/avg/max for 1m/5m/15m/1h windows'')]))"

definition record_hop :: "u64 \<Rightarrow> string \<Rightarrow> percentile \<Rightarrow> percentile" where
  "record_hop ts elem g =
     (let addr = get_string elem ''addr'' 64;
          rtt_us = word_of_int (get_int elem ''rtt_us'' 0) :: u64;
          recv = get_int elem ''recv'' 0
      in ((\<lambda>g. g\<lparr>g_samples := pctl_add addr rtt_us ts (g_samples g), g_buckets := bucket_add ts rtt_us (g_buckets g)\<rparr>)
            ^^ nat (min recv 64)) g)"

definition handle_update_telemetry :: "u64 \<Rightarrow> string \<Rightarrow> percentile \<Rightarrow> percentile" where
  "handle_update_telemetry ts params g =
     (case get_sub params ''hops'' of None \<Rightarrow> g | Some hops \<Rightarrow> fold (record_hop ts) (arr_elems hops) g)"

definition handle_render :: "(string \<Rightarrow> u64) \<Rightarrow> string \<Rightarrow> int \<Rightarrow> percentile \<Rightarrow> string" where
  "handle_render now params ident g =
     (let focus_addr = get_string params ''focused_addr'' 64
      in case emit_window_stats ''RTT Statistics (Global)'' 1 1 True [] now g of
           (vs, y) \<Rightarrow>
             let ws = (if focus_addr \<noteq> []
                       then fst (emit_window_stats ''RTT Statistics (Focused)'' (y + 1) 1 False focus_addr now g) else [])
             in print_doc (reply_doc ident ''result'' (JObj [(''lines'', JArr (vs @ ws))])))"

definition send_error :: "int \<Rightarrow> string \<Rightarrow> string" where
  "send_error ident message =
     print_doc (reply_doc ident ''error'' (JObj [(''code'', JInt (- 32601)), (''message'', JStr message)]))"

text \<open>One turn of the loop in \<open>main\<close>, with the clock readings made during it.\<close>

definition percentile_line :: "u64 \<Rightarrow> (string \<Rightarrow> u64) \<Rightarrow> string \<Rightarrow> percentile \<Rightarrow> string \<times> percentile" where
  "percentile_line ts now raw g =
     (case read_request raw of
        None \<Rightarrow> ([], g)
      | Some rq \<Rightarrow>
          if rq_method rq = ''init'' then (case rq_id rq of None \<Rightarrow> [] | Some n \<Rightarrow> handle_init n, g)
          else if rq_method rq = ''update_telemetry'' then ([], handle_update_telemetry ts (rq_params rq) g)
          else if rq_method rq = ''render'' then (case rq_id rq of None \<Rightarrow> [] | Some n \<Rightarrow> handle_render now (rq_params rq) n g, g)
          else if rq_method rq = ''cleanup'' then ([], g)
          else (case rq_id rq of None \<Rightarrow> [] | Some n \<Rightarrow> send_error n ''Method not found'', g))"

definition ring_zero_buckets :: pctl_bucket_ring where
  "ring_zero_buckets = \<lparr>br_buckets = replicate PCTL_BUCKET_MAX \<lparr>bk_start_ms = 0, bk_min_us = 0, bk_max_us = 0, bk_sum_us = 0, bk_count = 0\<rparr>,
     br_head = 0, br_count = 0\<rparr>"

definition samples_zero :: pctl_state where
  "samples_zero = \<lparr>sp_samples = replicate PCTL_SAMPLE_MAX \<lparr>ps_rtt_us = 0, ps_ts_ms = 0, ps_addr = []\<rparr>, sp_head = 0, sp_count = 0\<rparr>"

fun percentile_loop :: "(u64 \<times> (string \<Rightarrow> u64) \<times> string) list \<Rightarrow> percentile \<Rightarrow> string \<times> percentile" where
  "percentile_loop [] g = ([], g)"
| "percentile_loop ((ts, now, line) # lines) g =
     (case percentile_line ts now line g of
        (out, g) \<Rightarrow> (case percentile_loop lines g of (rest, g) \<Rightarrow> (out @ rest, g)))"

definition percentile_main :: "(u64 \<times> (string \<Rightarrow> u64) \<times> string) list \<Rightarrow> string \<times> percentile" where
  "percentile_main lines = percentile_loop lines \<lparr>g_samples = samples_zero, g_buckets = ring_zero_buckets\<rparr>"

section \<open>The bucket ring keeps the last minutes\<close>

text \<open>
  The reference: the samples of every minute, oldest minute first.  A sample joins the last
  minute or opens a new one.
\<close>

type_synonym minute = "u64 \<times> (u64 \<times> u64) list"

definition minutes_add :: "u64 \<times> u64 \<Rightarrow> minute list \<Rightarrow> minute list" where
  "minutes_add s ms =
     (if ms \<noteq> [] \<and> fst (last ms) = bucket_start_ms (fst s) then butlast ms @ [(fst (last ms), snd (last ms) @ [s])]
      else ms @ [(bucket_start_ms (fst s), [s])])"

primrec lo :: "u64 list \<Rightarrow> u64" where
  "lo [] = UINT64_MAX"
| "lo (x # xs) = min x (lo xs)"

primrec hi :: "u64 list \<Rightarrow> u64" where
  "hi [] = 0"
| "hi (x # xs) = max x (hi xs)"

definition bucket_of :: "minute \<Rightarrow> pctl_bucket" where
  "bucket_of m =
     \<lparr>bk_start_ms = fst m, bk_min_us = lo (map snd (snd m)), bk_max_us = hi (map snd (snd m)),
      bk_sum_us = sum_list (map snd (snd m)), bk_count = of_nat (length (snd m))\<rparr>"

definition ring_rel :: "pctl_bucket_ring \<Rightarrow> minute list \<Rightarrow> bool" where
  "ring_rel r ms \<longleftrightarrow> length (br_buckets r) = PCTL_BUCKET_MAX \<and> br_head r = length ms mod PCTL_BUCKET_MAX \<and>
     br_count r = min PCTL_BUCKET_MAX (length ms) \<and>
     (\<forall>p < length ms. length ms \<le> p + PCTL_BUCKET_MAX \<longrightarrow> br_buckets r ! (p mod PCTL_BUCKET_MAX) = bucket_of (ms ! p))"

lemma bucket_of_empty: "bucket_of (s, []) = \<lparr>bk_start_ms = s, bk_min_us = UINT64_MAX, bk_max_us = 0, bk_sum_us = 0, bk_count = 0\<rparr>"
  by (simp add: bucket_of_def)

lemma if_less_min: "(if (a :: 'a :: linorder) < b then a else b) = min b a"
  by (auto simp: min_def)

lemma if_less_max: "(if b < (a :: 'a :: linorder) then a else b) = max b a"
  by (auto simp: max_def)

lemma lo_append: "lo (xs @ ys) = min (lo xs) (lo ys)"
  by (induction xs) (simp_all add: min.assoc min.absorb2)

lemma hi_append: "hi (xs @ ys) = max (hi xs) (hi ys)"
  by (induction xs) (simp_all add: max.assoc max.absorb2)

lemma lo_Min: "xs \<noteq> [] \<Longrightarrow> lo xs = Min (set xs)"
  by (induction xs rule: list_nonempty_induct) (simp_all add: min.absorb1)

lemma hi_Max: "xs \<noteq> [] \<Longrightarrow> hi xs = Max (set xs)"
  by (induction xs rule: list_nonempty_induct) (simp_all add: max.absorb1)

lemma bucket_put_of: "bucket_put (snd s) (bucket_of m) = bucket_of (fst m, snd m @ [s])"
  by (simp add: bucket_put_def bucket_of_def lo_append hi_append min.absorb1 max.absorb1)

lemma last_buckets_eq:
  assumes "ring_rel r ms" "n \<le> br_count r"
  shows "last_buckets n r = map (\<lambda>p. p mod PCTL_BUCKET_MAX) [length ms - n..<length ms]"
proof -
  let ?L = "length ms"
  have n: "n \<le> ?L" "n \<le> 60" using assms by (simp_all add: ring_rel_def PCTL_BUCKET_MAX_def)
  have "(?L mod 60 + 60 - n + i) mod 60 = (?L - n + i) mod 60" for i
  proof -
    have "?L mod 60 + 60 - n + i = ?L mod 60 + (60 - n + i)" using n by simp
    then have "(?L mod 60 + 60 - n + i) mod 60 = (?L mod 60 + (60 - n + i)) mod 60" by (simp only:)
    also have "\<dots> = (?L + (60 - n + i)) mod 60" by (simp add: mod_simps)
    also have "?L + (60 - n + i) = ?L - n + i + 60" using n by simp
    finally show ?thesis by simp
  qed
  moreover have "[?L - n..<?L] = map (\<lambda>i. ?L - n + i) [0..<n]" using n by (intro nth_equalityI) auto
  ultimately show ?thesis using assms(1) by (simp add: last_buckets_def ring_rel_def PCTL_BUCKET_MAX_def)
qed

lemma ring_bucket:
  "ring_rel r ms \<Longrightarrow> p < length ms \<Longrightarrow> length ms \<le> p + br_count r \<Longrightarrow> br_buckets r ! (p mod PCTL_BUCKET_MAX) = bucket_of (ms ! p)"
  by (auto simp: ring_rel_def)

lemma find_append_None: "List.find P xs = None \<Longrightarrow> List.find P (xs @ ys) = List.find P ys"
  by (induction xs) (auto split: if_splits)

text \<open>The search for the current minute: the last bucket, or none.\<close>

lemma find_minute:
  assumes rel: "ring_rel r ms" and distinct: "distinct (map fst ms)"
  shows "ms \<noteq> [] \<Longrightarrow> fst (last ms) = start \<Longrightarrow>
      List.find (\<lambda>idx. bk_start_ms (br_buckets r ! idx) = start) (last_buckets (br_count r) r) = Some ((length ms - 1) mod PCTL_BUCKET_MAX)"
    and "start \<notin> fst ` set ms \<Longrightarrow>
      List.find (\<lambda>idx. bk_start_ms (br_buckets r ! idx) = start) (last_buckets (br_count r) r) = None"
proof -
  let ?L = "length ms" and ?c = "br_count r"
  have c: "?c \<le> ?L" "ms \<noteq> [] \<Longrightarrow> 0 < ?c" using rel by (simp_all add: ring_rel_def PCTL_BUCKET_MAX_def)
  have idx: "last_buckets ?c r = map (\<lambda>p. p mod PCTL_BUCKET_MAX) [?L - ?c..<?L]" by (rule last_buckets_eq [OF rel]) simp
  have start: "bk_start_ms (br_buckets r ! (p mod PCTL_BUCKET_MAX)) = fst (ms ! p)" if "?L - ?c \<le> p" "p < ?L" for p
    using ring_bucket [OF rel, of p] that by (simp add: bucket_of_def)
  show "List.find (\<lambda>idx. bk_start_ms (br_buckets r ! idx) = start) (last_buckets ?c r) = None" if "start \<notin> fst ` set ms"
    unfolding idx find_None_iff using that start by (auto simp: image_iff)
  show "List.find (\<lambda>idx. bk_start_ms (br_buckets r ! idx) = start) (last_buckets ?c r) = Some ((?L - 1) mod PCTL_BUCKET_MAX)"
    if "ms \<noteq> []" "fst (last ms) = start"
  proof -
    have L: "0 < ?L" using that by simp
    have other: "fst (ms ! p) \<noteq> start" if "p < ?L - 1" for p
      using distinct that \<open>fst (last ms) = start\<close> L nth_eq_iff_index_eq [of "map fst ms" p "?L - 1"] by (auto simp: last_conv_nth)
    have "[?L - ?c..<?L] = [?L - ?c..<?L - 1] @ [?L - 1]" using c that L upt_Suc_append [of "?L - ?c" "?L - 1"] by simp
    moreover have "List.find (\<lambda>idx. bk_start_ms (br_buckets r ! idx) = start) (map (\<lambda>p. p mod PCTL_BUCKET_MAX) [?L - ?c..<?L - 1]) = None"
      unfolding find_None_iff using start other by fastforce
    moreover have "bk_start_ms (br_buckets r ! ((?L - 1) mod PCTL_BUCKET_MAX)) = start"
      using start [of "?L - 1"] c that L by (simp add: last_conv_nth)
    ultimately show ?thesis unfolding idx by (simp add: find_append_None)
  qed
qed

lemma ring_rel_put:
  assumes rel: "ring_rel r ms" and "ms \<noteq> []"
  shows "ring_rel (r\<lparr>br_buckets := (br_buckets r)[(length ms - 1) mod PCTL_BUCKET_MAX :=
      bucket_put (snd s) (br_buckets r ! ((length ms - 1) mod PCTL_BUCKET_MAX))]\<rparr>)
    (butlast ms @ [(fst (last ms), snd (last ms) @ [s])])"
proof -
  let ?L = "length ms" and ?j = "(length ms - 1) mod PCTL_BUCKET_MAX"
  have L: "0 < ?L" using assms(2) by simp
  have j: "?j < length (br_buckets r)" using rel by (simp add: ring_rel_def PCTL_BUCKET_MAX_def)
  have old: "br_buckets r ! ?j = bucket_of (last ms)"
    using rel L by (simp add: ring_rel_def PCTL_BUCKET_MAX_def last_conv_nth)
  have "(br_buckets r)[?j := bucket_put (snd s) (bucket_of (last ms))] ! (p mod PCTL_BUCKET_MAX) =
      bucket_of ((butlast ms @ [(fst (last ms), snd (last ms) @ [s])]) ! p)" if p: "p < ?L" "?L \<le> p + PCTL_BUCKET_MAX" for p
  proof (cases "p = ?L - 1")
    case True
    then show ?thesis using j by (simp add: bucket_put_of nth_append)
  next
    case False
    then have "p mod PCTL_BUCKET_MAX \<noteq> ?j"
      using p L by (intro mod_window_neq [of _ _ p]) (simp_all add: PCTL_BUCKET_MAX_def)
    then show ?thesis using rel p False by (simp add: ring_rel_def nth_append nth_butlast)
  qed
  then show ?thesis using rel L by (simp add: ring_rel_def old last_conv_nth)
qed

lemma ring_rel_new:
  assumes rel: "ring_rel r ms"
  shows "ring_rel (r\<lparr>br_buckets := (br_buckets r)[br_head r := bucket_of m],
      br_head := (br_head r + 1) mod PCTL_BUCKET_MAX,
      br_count := (if br_count r < PCTL_BUCKET_MAX then br_count r + 1 else br_count r)\<rparr>) (ms @ [m])"
proof -
  let ?L = "length ms"
  have h: "br_head r = ?L mod PCTL_BUCKET_MAX" "length (br_buckets r) = PCTL_BUCKET_MAX" using rel by (simp_all add: ring_rel_def)
  have "(br_buckets r)[br_head r := bucket_of m] ! (p mod PCTL_BUCKET_MAX) = bucket_of ((ms @ [m]) ! p)"
    if p: "p < Suc ?L" "Suc ?L \<le> p + PCTL_BUCKET_MAX" for p
  proof (cases "p = ?L")
    case True
    then show ?thesis using h by (simp add: PCTL_BUCKET_MAX_def)
  next
    case False
    then have "p mod PCTL_BUCKET_MAX \<noteq> br_head r" unfolding h(1)
      using p by (intro mod_window_neq [of _ _ p]) (simp_all add: PCTL_BUCKET_MAX_def)
    then show ?thesis using rel p False by (simp add: ring_rel_def nth_append)
  qed
  moreover have "(br_head r + 1) mod PCTL_BUCKET_MAX = Suc ?L mod PCTL_BUCKET_MAX" using h(1) by (simp add: mod_simps)
  ultimately show ?thesis using rel by (simp add: ring_rel_def min_def)
qed

text \<open>Minutes in the order in which they came, none of them twice.\<close>

definition minutes_ok :: "minute list \<Rightarrow> bool" where
  "minutes_ok ms \<longleftrightarrow> sorted_wrt (<) (map fst ms) \<and>
     (\<forall>m \<in> set ms. snd m \<noteq> [] \<and> (\<forall>s \<in> set (snd m). bucket_start_ms (fst s) = fst m))"

lemma minutes_distinct: "minutes_ok ms \<Longrightarrow> distinct (map fst ms)"
  by (simp add: minutes_ok_def strict_sorted_iff)

lemma bucket_add_rel:
  assumes rel: "ring_rel r ms" and ok: "minutes_ok ms" and later: "\<forall>m \<in> set ms. fst m \<le> bucket_start_ms (fst s)"
  shows "ring_rel (bucket_add (fst s) (snd s) r) (minutes_add s ms)"
proof (cases "ms \<noteq> [] \<and> fst (last ms) = bucket_start_ms (fst s)")
  case True
  then show ?thesis
    using find_minute(1) [OF rel minutes_distinct [OF ok], of "bucket_start_ms (fst s)"] ring_rel_put [OF rel, of s]
    by (simp add: bucket_add_def get_current_bucket_def minutes_add_def Let_def)
next
  case False
  let ?start = "bucket_start_ms (fst s)"
  have "?start \<notin> fst ` set ms"
  proof
    assume "?start \<in> fst ` set ms"
    then obtain p where p: "p < length ms" "fst (ms ! p) = ?start" by (auto simp: in_set_conv_nth)
    then have ne: "ms \<noteq> []" by auto
    then have "p < length ms - 1" using False p by (cases "p = length ms - 1") (auto simp: last_conv_nth)
    then have "fst (ms ! p) < fst (last ms)"
      using ok p sorted_wrt_nth_less [of "(<)" "map fst ms" p "length ms - 1"] ne by (auto simp: minutes_ok_def last_conv_nth)
    moreover have "last ms \<in> set ms" using p(1) by (intro last_in_set) auto
    ultimately show False using later p(2) by (metis leD)
  qed
  then have none: "List.find (\<lambda>idx. bk_start_ms (br_buckets r ! idx) = ?start) (last_buckets (br_count r) r) = None"
    by (rule find_minute(2) [OF rel minutes_distinct [OF ok]])
  have head: "br_head r < length (br_buckets r)" using rel by (simp add: ring_rel_def PCTL_BUCKET_MAX_def)
  have "bucket_of (?start, [s]) = bucket_put (snd s) (bucket_of (?start, []))" using bucket_put_of [of s "(?start, [])"] by simp
  then show ?thesis using False none head ring_rel_new [OF rel, of "(?start, [s])"]
    by (cases r) (auto simp: bucket_add_def get_current_bucket_def minutes_add_def Let_def bucket_of_empty)
qed

text \<open>A sample that is not older than the ones before it keeps the order.\<close>

lemma minutes_add_ok:
  assumes "minutes_ok ms" "\<forall>m \<in> set ms. fst m \<le> bucket_start_ms (fst s)"
  shows "minutes_ok (minutes_add s ms)" "concat (map snd (minutes_add s ms)) = concat (map snd ms) @ [s]"
proof -
  have "minutes_ok (minutes_add s ms) \<and> concat (map snd (minutes_add s ms)) = concat (map snd ms) @ [s]"
  proof (cases "ms \<noteq> [] \<and> fst (last ms) = bucket_start_ms (fst s)")
    case True
    define bs l where "bs = butlast ms" and "l = last ms"
    have ms: "ms = bs @ [l]" using True by (simp add: bs_def l_def)
    have "minutes_add s ms = bs @ [(fst l, snd l @ [s])]" using True by (simp add: minutes_add_def ms)
    then show ?thesis using assms(1) True by (auto simp: ms minutes_ok_def sorted_wrt_append)
  next
    case False
    have "\<forall>m \<in> set ms. fst m \<noteq> bucket_start_ms (fst s)"
    proof
      fix m assume m: "m \<in> set ms"
      then have "fst m \<le> fst (last ms)"
        using assms(1) by (cases ms rule: rev_cases) (auto simp: minutes_ok_def sorted_wrt_append less_imp_le)
      moreover have "last ms \<in> set ms" using m by (intro last_in_set) auto
      ultimately show "fst m \<noteq> bucket_start_ms (fst s)" using False assms(2) m by (metis antisym empty_iff empty_set)
    qed
    then have "\<forall>m \<in> set ms. fst m < bucket_start_ms (fst s)" using assms(2) by force
    then show ?thesis using assms(1) False by (auto simp: minutes_add_def minutes_ok_def sorted_wrt_append)
  qed
  then show "minutes_ok (minutes_add s ms)" "concat (map snd (minutes_add s ms)) = concat (map snd ms) @ [s]" by blast+
qed

lemma unat_bucket_start: "unat (bucket_start_ms t) = unat t div 60000 * 60000"
proof -
  have "unat t div 60000 * 60000 < 2 ^ LENGTH(64)" using div_times_less_eq_dividend [of "unat t" 60000] unsigned_less [of t, where 'a = nat] by simp
  then show ?thesis by (simp add: bucket_start_ms_def unat_word_ariths(2) unat_div_distrib)
qed

lemma bucket_start_mono: "a \<le> b \<Longrightarrow> bucket_start_ms a \<le> bucket_start_ms b"
  by (simp add: word_le_nat_alt unat_bucket_start div_le_mono)

definition minutes :: "(u64 \<times> u64) list \<Rightarrow> minute list" where
  "minutes ss = fold minutes_add ss []"

lemma ring_zero_rel: "ring_rel ring_zero_buckets []"
  by (simp add: ring_rel_def ring_zero_buckets_def PCTL_BUCKET_MAX_def)

lemma bucket_run:
  assumes "sorted (map fst ss)"
  shows "ring_rel (fold (\<lambda>(ts, rtt). bucket_add ts rtt) ss ring_zero_buckets) (minutes ss) \<and> minutes_ok (minutes ss) \<and>
    concat (map snd (minutes ss)) = ss"
  using assms
proof (induction ss rule: rev_induct)
  case Nil
  show ?case by (simp add: minutes_def ring_zero_rel minutes_ok_def)
next
  case (snoc s ss)
  then have IH: "ring_rel (fold (\<lambda>(ts, rtt). bucket_add ts rtt) ss ring_zero_buckets) (minutes ss)" "minutes_ok (minutes ss)"
    "concat (map snd (minutes ss)) = ss" by (simp_all add: sorted_append)
  have later: "\<forall>m \<in> set (minutes ss). fst m \<le> bucket_start_ms (fst s)"
  proof
    fix m assume m: "m \<in> set (minutes ss)"
    then obtain e where e: "e \<in> set (snd m)" "bucket_start_ms (fst e) = fst m"
      using IH(2) unfolding minutes_ok_def by (metis last_in_set)
    then have "e \<in> set (concat (map snd (minutes ss)))" using m by auto
    then have "e \<in> set ss" by (simp only: IH(3))
    then have "fst e \<le> fst s" using snoc.prems by (auto simp: sorted_append)
    then show "fst m \<le> bucket_start_ms (fst s)" using bucket_start_mono e(2) by metis
  qed
  show ?case
    using bucket_add_rel [OF IH(1,2) later] minutes_add_ok [OF IH(2) later] IH(3) by (simp add: minutes_def case_prod_unfold)
qed

text \<open>The loop over the buckets of some minutes gives the extrema and the sum of their samples.\<close>

lemma fold_buckets:
  assumes "\<forall>m \<in> set ms. snd m \<noteq> [] \<and> length (snd m) < 2 ^ 32"
  shows "fold add_bucket (map bucket_of ms) (lo xs, hi xs, sum_list xs, of_nat (length xs)) =
    (let ys = xs @ map snd (concat (map snd ms)) in (lo ys, hi ys, sum_list ys, of_nat (length ys)))"
  using assms
proof (induction ms arbitrary: xs)
  case Nil
  then show ?case by simp
next
  case (Cons m ms)
  let ?zs = "map snd (snd m)"
  have m: "snd m \<noteq> []" "length (snd m) < 2 ^ 32" using Cons.prems by simp_all
  have cnt: "unat (of_nat (length (snd m)) :: u32) = length (snd m)" using m(2) by (intro unat_of_nat_small) simp
  then have nz: "(of_nat (length (snd m)) :: u32) \<noteq> 0" using m(1) by (metis length_0_conv unat_0)
  have "ucast (of_nat (length (snd m)) :: u32) = (of_nat (length (snd m)) :: u64)"
    using m(2) by (simp add: unsigned_of_nat take_bit_nat_eq_self)
  then have "add_bucket (bucket_of m) (lo xs, hi xs, sum_list xs, of_nat (length xs)) =
      (lo (xs @ ?zs), hi (xs @ ?zs), sum_list (xs @ ?zs), of_nat (length (xs @ ?zs)))"
    using nz by (simp add: add_bucket_def bucket_of_def lo_append hi_append if_less_min if_less_max)
  then show ?case using Cons.IH [of "xs @ ?zs"] Cons.prems by (simp add: Let_def)
qed

text \<open>
  The samples of the last \<open>n\<close> minutes in which samples came: those for which fewer than \<open>n\<close>
  later minutes have samples.
\<close>

definition recent :: "nat \<Rightarrow> (u64 \<times> u64) list \<Rightarrow> u64 list" where
  "recent n ss = map snd (filter (\<lambda>s. card {m \<in> (\<lambda>s. bucket_start_ms (fst s)) ` set ss. bucket_start_ms (fst s) < m} < n) ss)"

lemma card_later:
  assumes "sorted_wrt (<) (xs :: u64 list)" "p < length xs"
  shows "card {m \<in> set xs. xs ! p < m} = length xs - 1 - p"
proof -
  have "{m \<in> set xs. xs ! p < m} = set (drop (Suc p) xs)"
  proof (intro set_eqI iffI)
    fix m assume "m \<in> {m \<in> set xs. xs ! p < m}"
    then obtain q where q: "q < length xs" "m = xs ! q" "xs ! p < xs ! q" by (auto simp: in_set_conv_nth)
    have "p < q"
    proof (rule ccontr)
      assume "\<not> p < q"
      then have "xs ! q \<le> xs ! p" using sorted_wrt_nth_less [OF assms(1), of q p] assms(2) by (cases "q = p") auto
      with q(3) show False by simp
    qed
    then show "m \<in> set (drop (Suc p) xs)" using q by (auto simp: in_set_conv_nth intro!: exI [of _ "q - Suc p"])
  next
    fix m assume "m \<in> set (drop (Suc p) xs)"
    then obtain i where "i < length xs - Suc p" "m = xs ! (Suc p + i)" by (auto simp: in_set_conv_nth)
    then show "m \<in> {m \<in> set xs. xs ! p < m}" using sorted_wrt_nth_less [OF assms(1), of p "Suc p + i"] by simp
  qed
  moreover have "distinct xs" using assms(1) by (simp add: strict_sorted_iff)
  ultimately show ?thesis by (simp add: distinct_card)
qed

lemma recent_minutes:
  assumes ok: "minutes_ok ms" and ss: "concat (map snd ms) = ss"
  shows "recent n ss = map snd (concat (map snd (drop (length ms - n) ms)))"
proof -
  let ?L = "length ms"
  let ?P = "\<lambda>s :: u64 \<times> u64. card {m \<in> (\<lambda>s. bucket_start_ms (fst s)) ` set ss. bucket_start_ms (fst s) < m} < n"
  have starts: "(\<lambda>s. bucket_start_ms (fst s)) ` set ss = set (map fst ms)"
    using ok unfolding ss [symmetric] minutes_ok_def by (force simp: neq_Nil_conv)
  have P: "?P s \<longleftrightarrow> ?L - n \<le> p" if p: "p < ?L" "s \<in> set (snd (ms ! p))" for p s
  proof -
    have "bucket_start_ms (fst s) = map fst ms ! p" using ok p by (auto simp: minutes_ok_def)
    then show ?thesis using card_later [of "map fst ms" p] ok p(1) unfolding starts by (auto simp: minutes_ok_def)
  qed
  have "filter ?P (concat (map snd (take (?L - n) ms))) = []"
    unfolding filter_empty_conv
  proof
    fix s assume "s \<in> set (concat (map snd (take (?L - n) ms)))"
    then obtain m where "m \<in> set (take (?L - n) ms)" "s \<in> set (snd m)" by auto
    then obtain p where "p < ?L - n" "s \<in> set (snd (ms ! p))" by (auto simp: in_set_conv_nth [of m])
    with P [of p s] show "\<not> ?P s" by simp
  qed
  moreover have "filter ?P (concat (map snd (drop (?L - n) ms))) = concat (map snd (drop (?L - n) ms))"
    unfolding filter_id_conv
  proof
    fix s assume "s \<in> set (concat (map snd (drop (?L - n) ms)))"
    then obtain m where "m \<in> set (drop (?L - n) ms)" "s \<in> set (snd m)" by auto
    then obtain p where "p < ?L - (?L - n)" "s \<in> set (snd (ms ! (?L - n + p)))" by (auto simp: in_set_conv_nth [of m])
    with P [of "?L - n + p" s] show "?P s" by simp
  qed
  moreover have "filter ?P ss = filter ?P (concat (map snd (take (?L - n) ms))) @ filter ?P (concat (map snd (drop (?L - n) ms)))"
    by (subst ss [symmetric], subst append_take_drop_id [of "?L - n" ms, symmetric]) (simp only: map_append concat_append filter_append)
  ultimately show ?thesis by (simp add: recent_def)
qed

lemma bucket_start_less: "bucket_start_ms a < bucket_start_ms b \<longleftrightarrow> unat a div 60000 < unat b div 60000"
  by (simp add: word_less_nat_alt unat_bucket_start)

lemma select_image: "{m \<in> f ` A. P m} = f ` {s \<in> A. P (f s)}"
  by blast

lemma card_minutes:
  "card {m \<in> (\<lambda>s. bucket_start_ms (fst s)) ` set ss. bucket_start_ms t < m} =
   card {d \<in> (\<lambda>s. unat (fst s) div 60000) ` set ss. unat t div 60000 < d}"
proof (rule bij_betw_same_card [of "\<lambda>m. unat m div 60000"])
  show "bij_betw (\<lambda>m. unat m div 60000) {m \<in> (\<lambda>s. bucket_start_ms (fst s)) ` set ss. bucket_start_ms t < m}
    {d \<in> (\<lambda>s. unat (fst s) div 60000) ` set ss. unat t div 60000 < d}"
    unfolding bij_betw_def
  proof
    show "inj_on (\<lambda>m. unat m div 60000) {m \<in> (\<lambda>s. bucket_start_ms (fst s)) ` set ss. bucket_start_ms t < m}"
    proof (rule inj_onI)
      fix x y assume "x \<in> {m \<in> (\<lambda>s. bucket_start_ms (fst s)) ` set ss. bucket_start_ms t < m}"
        "y \<in> {m \<in> (\<lambda>s. bucket_start_ms (fst s)) ` set ss. bucket_start_ms t < m}"
      then obtain a b where "x = bucket_start_ms a" "y = bucket_start_ms b" by auto
      then show "unat x div 60000 = unat y div 60000 \<Longrightarrow> x = y" by (simp add: unat_bucket_start word_unat_eq_iff)
    qed
    show "(\<lambda>m. unat m div 60000) ` {m \<in> (\<lambda>s. bucket_start_ms (fst s)) ` set ss. bucket_start_ms t < m} =
      {d \<in> (\<lambda>s. unat (fst s) div 60000) ` set ss. unat t div 60000 < d}"
      by (simp add: select_image image_image bucket_start_less unat_bucket_start)
  qed
qed

text \<open>
  When each of the last \<open>n\<close> minutes of the clock has a sample, the last \<open>n\<close> minutes with samples are
  the last \<open>n\<close> minutes of the clock.
\<close>

lemma recent_no_gap:
  assumes ord: "sorted (map fst ss)" and "ss \<noteq> []"
    and full: "\<forall>i < n. i \<le> unat (fst (last ss)) div 60000 \<longrightarrow> (\<exists>s \<in> set ss. unat (fst s) div 60000 = unat (fst (last ss)) div 60000 - i)"
  shows "recent n ss = map snd (filter (\<lambda>s. unat (fst (last ss)) div 60000 < unat (fst s) div 60000 + n) ss)"
proof -
  let ?D = "unat (fst (last ss)) div 60000" and ?M = "(\<lambda>s. unat (fst s) div 60000) ` set ss"
  have le: "unat (fst s) div 60000 \<le> ?D" if "s \<in> set ss" for s
  proof -
    have "fst s \<le> fst (last ss)" using ord that by (cases ss rule: rev_cases) (auto simp: sorted_append)
    then show ?thesis by (simp add: word_le_nat_alt div_le_mono)
  qed
  have "card {d \<in> ?M. e < d} < n \<longleftrightarrow> ?D < e + n" if e: "e \<in> ?M" for e
  proof
    assume less: "?D < e + n"
    have eD: "e \<le> ?D" using e le by auto
    have "{d \<in> ?M. e < d} \<subseteq> {e<..?D}" using le by (force simp: select_image)
    then have "card {d \<in> ?M. e < d} \<le> ?D - e" using card_mono [of "{e<..?D}"] by simp
    then show "card {d \<in> ?M. e < d} < n" using less eD by linarith
  next
    assume few: "card {d \<in> ?M. e < d} < n"
    show "?D < e + n"
    proof (rule ccontr)
      assume far: "\<not> ?D < e + n"
      have "{?D - n<..?D} \<subseteq> {d \<in> ?M. e < d}"
      proof
        fix d assume d: "d \<in> {?D - n<..?D}"
        with full [rule_format, of "?D - d"] far obtain s where "s \<in> set ss" "unat (fst s) div 60000 = d" by force
        then show "d \<in> {d \<in> ?M. e < d}" using d far by auto
      qed
      then have "card {?D - n<..?D} \<le> card {d \<in> ?M. e < d}" by (intro card_mono) auto
      then show False using few far by simp
    qed
  qed
  then show ?thesis unfolding recent_def by (intro arg_cong [of _ _ "map snd"] filter_cong) (auto simp: card_minutes)
qed

lemma unat_sum_list:
  assumes "sum_list (map unat xs) < 2 ^ 64"
  shows "unat (sum_list xs :: u64) = sum_list (map unat xs)"
proof -
  have "sum_list xs = of_nat (sum_list (map unat xs))" by (induction xs) simp_all
  then show ?thesis using assms by (simp add: unat_of_nat_small)
qed

lemma sum_list_sublist: "sum_list (map f (filter P xs)) \<le> sum_list (map f xs)" for f :: "'a \<Rightarrow> nat"
  by (induction xs) auto

lemma recent_le: "length (recent n ss) \<le> length ss" "sum_list (map unat (recent n ss)) \<le> sum_list (map (\<lambda>s. unat (snd s)) ss)"
  by (simp_all add: recent_def comp_def sum_list_sublist)

lemma compute_window_rel:
  assumes rel: "ring_rel r ms" and ms: "ms \<noteq> []" "\<forall>m \<in> set ms. snd m \<noteq> [] \<and> length (snd m) < 2 ^ 32" and "0 < n"
  shows "compute_window_stats n r =
    (let ys = map snd (concat (map snd (drop (length ms - min n PCTL_BUCKET_MAX) ms))) in stats_of (lo ys, hi ys, sum_list ys, of_nat (length ys)))"
proof -
  let ?L = "length ms"
  define k where "k = (if n < br_count r then n else br_count r)"
  have c: "br_count r = min 60 ?L" "0 < br_count r" using rel ms(1) by (simp_all add: ring_rel_def PCTL_BUCKET_MAX_def)
  have k: "k \<le> br_count r" "?L - k = ?L - min n PCTL_BUCKET_MAX" by (auto simp: k_def c PCTL_BUCKET_MAX_def)
  have "map (\<lambda>idx. br_buckets r ! idx) (last_buckets k r) = map (\<lambda>p. bucket_of (ms ! p)) [?L - k..<?L]"
    unfolding last_buckets_eq [OF rel k(1)] using ring_bucket [OF rel] k(1) by auto
  also have "\<dots> = map bucket_of (drop (?L - k) ms)" by (rule nth_equalityI) auto
  finally have bs: "map (\<lambda>idx. br_buckets r ! idx) (last_buckets k r) = map bucket_of (drop (?L - k) ms)" .
  have "fold (\<lambda>idx. add_bucket (br_buckets r ! idx)) (last_buckets k r) t = fold add_bucket (map bucket_of (drop (?L - k) ms)) t" for t
    unfolding bs [symmetric] fold_map comp_def ..
  moreover have "\<forall>m \<in> set (drop (?L - k) ms). snd m \<noteq> [] \<and> length (snd m) < 2 ^ 32" using ms(2) by (meson in_set_dropD)
  note fold_buckets [OF this, of "[]"]
  ultimately show ?thesis using c(2) assms(4) by (simp add: compute_window_stats_def k_def [symmetric] k(2) Let_def)
qed

section \<open>Properties\<close>

text \<open>
  C38: The global statistics are those of the samples themselves.  Take any sequence of samples
  whose times do not step back (the clock of the code, \<open>CLOCK_REALTIME\<close>, can be set back; such runs
  are not covered), fewer than \<open>2 ^ 32\<close> of them and with a sum below \<open>2 ^ 64\<close>, so that no counter or
  sum wraps.  Then the statistics over \<open>n\<close> buckets are the minimum, the maximum and the integer mean
  of exactly the samples of the last \<open>n\<close> (at most 60) minutes in which there were samples.  When
  none of the \<open>n\<close> minutes up to that of the last sample was without samples, these are exactly the
  samples of the last \<open>n\<close> minutes of the clock, which is what the labels of the windows say; after a
  gap they reach further back (\<open>window_gap\<close> below).
\<close>

theorem window_stats_exact:
  assumes "sorted (map fst ss)" "ss \<noteq> []" "length ss < 2 ^ 32" "sum_list (map (\<lambda>s. unat (snd s)) ss) < 2 ^ 64" "0 < n"
  shows "(let w = recent (min n 60) ss
      in compute_window_stats n (fold (\<lambda>(ts, rtt). bucket_add ts rtt) ss ring_zero_buckets) =
         \<lparr>st_min_us = Min (set w), st_max_us = Max (set w), st_avg_us = of_nat (sum_list (map unat w) div length w), st_valid = True\<rparr>) \<and>
    (let now = unat (fst (last ss)) div 60000
     in (\<forall>i < min n 60. i \<le> now \<longrightarrow> (\<exists>s \<in> set ss. unat (fst s) div 60000 = now - i)) \<longrightarrow>
        recent (min n 60) ss = map snd (filter (\<lambda>s. now < unat (fst s) div 60000 + min n 60) ss))"
proof -
  let ?ms = "minutes ss" and ?w = "recent (min n 60) ss"
  have run: "ring_rel (fold (\<lambda>(ts, rtt). bucket_add ts rtt) ss ring_zero_buckets) ?ms" "minutes_ok ?ms" "concat (map snd ?ms) = ss"
    using bucket_run [OF assms(1)] by auto
  have ne: "?ms \<noteq> []" using run(3) assms(2) by auto
  have each: "\<forall>m \<in> set ?ms. snd m \<noteq> [] \<and> length (snd m) < 2 ^ 32"
  proof
    fix m assume m: "m \<in> set ?ms"
    then have "length (snd m) \<le> length (concat (map snd ?ms))" by (auto simp: length_concat intro!: member_le_sum_list)
    then show "snd m \<noteq> [] \<and> length (snd m) < 2 ^ 32" using m run(2,3) assms(3) by (auto simp: minutes_ok_def)
  qed
  have w: "?w = map snd (concat (map snd (drop (length ?ms - min n PCTL_BUCKET_MAX) ?ms)))"
    using recent_minutes [OF run(2,3)] by (simp add: PCTL_BUCKET_MAX_def)
  have wne: "?w \<noteq> []"
  proof -
    have k: "length ?ms - min n PCTL_BUCKET_MAX < length ?ms" using ne assms(5) by (simp add: PCTL_BUCKET_MAX_def)
    then have "last ?ms \<in> set (drop (length ?ms - min n PCTL_BUCKET_MAX) ?ms)"
      using last_in_set [of "drop (length ?ms - min n PCTL_BUCKET_MAX) ?ms"] last_drop [OF k] by simp
    then show ?thesis using each ne by (auto simp: w)
  qed
  have len: "length ?w < 2 ^ 64" using assms(3) recent_le(1) [of "min n 60" ss] by simp
  have "sum_list (map unat ?w) < 2 ^ 64"
    using assms(4) recent_le(2) [of "min n 60" ss] by simp
  note sum = unat_sum_list [OF this]
  have cnt: "unat (of_nat (length ?w) :: u64) = length ?w" using len by (intro unat_of_nat_small) simp
  then have "(of_nat (length ?w) :: u64) \<noteq> 0" using wne by (metis length_0_conv unat_0)
  moreover have "sum_list ?w div of_nat (length ?w) = (of_nat (unat (sum_list ?w div of_nat (length ?w) :: u64)) :: u64)" by simp
  then have "sum_list ?w div of_nat (length ?w) = (of_nat (sum_list (map unat ?w) div length ?w) :: u64)"
    by (simp only: unat_div_distrib sum cnt)
  ultimately have "compute_window_stats n (fold (\<lambda>(ts, rtt). bucket_add ts rtt) ss ring_zero_buckets) =
      \<lparr>st_min_us = Min (set ?w), st_max_us = Max (set ?w), st_avg_us = of_nat (sum_list (map unat ?w) div length ?w), st_valid = True\<rparr>"
    using compute_window_rel [OF run(1) ne each assms(5)] wne
    by (simp add: w [symmetric] stats_of_def lo_Min hi_Max Let_def)
  then show ?thesis unfolding Let_def using recent_no_gap [OF assms(1,2), of "min n 60"] by blast
qed

theorem window_stats_exact_witness:
  "compute_window_stats 2 (fold (\<lambda>(ts, rtt). bucket_add ts rtt) [(1000, 70), (61000, 20), (62000, 31), (130000, 40)] ring_zero_buckets) =
    \<lparr>st_min_us = 20, st_max_us = 40, st_avg_us = 30, st_valid = True\<rparr>"
proof -
  let ?ss = "[(1000, 70), (61000, 20), (62000, 31), (130000, 40)] :: (u64 \<times> u64) list"
  have "\<forall>i < min 2 60. i \<le> unat (fst (last ?ss)) div 60000 \<longrightarrow>
      (\<exists>s \<in> set ?ss. unat (fst s) div 60000 = unat (fst (last ?ss)) div 60000 - i)"
    by (auto simp: less_2_cases_iff)
  then show ?thesis using window_stats_exact [of ?ss 2] by (simp add: Let_def)
qed

text \<open>
  After a gap the window labelled \<open>5min\<close> still counts a sample that is 100 minutes old.
\<close>

lemma window_gap:
  "compute_window_stats 5 (fold (\<lambda>(ts, rtt). bucket_add ts rtt) [(0, 900), (6000000, 20)] ring_zero_buckets) =
    \<lparr>st_min_us = 20, st_max_us = 900, st_avg_us = 460, st_valid = True\<rparr>"
  by code_simp

end
