(* ===== verification/Spec2Isabelle.thy ===== *)
theory Spec2Isabelle
  imports Shm_Ring_Spsc Tracer Main_Laws Geoip Percentile
begin

text \<open>
  NSR (gg582/nsr) is a multi-target network tracer in C.  For every target the main process
  forks a \<^emph>\<open>gatekeeper\<close>, which alone owns raw ICMP sockets, and a \<^emph>\<open>logic\<close> process, which decides
  which probe to send next and keeps the statistics.  The two talk through a pair of
  shared-memory rings (\<open>l2g\<close>: probe intents, \<open>g2l\<close>: observations); the logic process publishes
  snapshots of its telemetry to the main process through a third ring (\<open>l2t\<close>).  The main
  process merges the snapshots of all targets into one topology graph, shows it in a terminal
  interface, and forwards it to plugins: child processes that speak JSON-RPC over pipes.

  \<^bold>\<open>Theories and the code they model.\<close>

  \<^item> \<open>Nsr_Prelude\<close>: integer widths, wrap-around of C \<open>int\<close> (\<open>c_int\<close>), C strings in fixed arrays,
    residues, the rewrite collections.
  \<^item> \<open>Shm_Ring\<close> (\<open>include/nsr/shm_ring.h\<close>): the ring of 131072 messages and the large ring of 16
    snapshots, with \<open>uint32_t\<close> indices kept at their width.  The locale \<open>fifo\<close> states the
    contract of a bounded queue; both rings, and later the key queue of a plugin, are
    interpretations of it.
  \<^item> \<open>Shm_Ring_Spsc\<close>: the same ring as an interleaving of the single loads and stores of one
    producer process and one consumer process (\<open>spsc_step\<close>), under the ordering the acquire and
    release operations of the source give.
  \<^item> \<open>Float32\<close>: binary32 arithmetic as exact rational arithmetic followed by rounding to nearest
    even.
  \<^item> \<open>Telemetry\<close> (\<open>include/nsr/telemetry.h\<close>): the messages and snapshots.
  \<^item> \<open>Logic\<close> (\<open>src/io/logic.c\<close>): probe schedule, burst control, alias tables, timeout sweep,
    observation intake and one whole iteration of \<open>nsr_logic_run\<close>.
  \<^item> \<open>Gatekeeper\<close> (\<open>src/io/gatekeeper.c\<close>): in-flight table, echo requests and checksums, the
    IPv4 and IPv6 packet parsers over byte lists, the start of \<open>nsr_gatekeeper_run\<close> and one whole
    iteration of its loop.
  \<^item> \<open>Topology\<close> (\<open>src/state/topology.c\<close>): the node and edge tables and their update from a
    snapshot.
  \<^item> \<open>Json_Encoder\<close>, \<open>Json_Decoder\<close>, \<open>Json_Roundtrip\<close> (\<open>src/json/json.c\<close>): the encoder writes
    through an explicit buffer of bytes that may be unset; the decoder works on the suffixes of
    the text; the third theory relates the two through the type \<open>json\<close> of values and \<open>jtext\<close>,
    their text.
  \<^item> \<open>Json_Rpc\<close> (\<open>src/json/json_rpc.c\<close>): framing, sending, the line reader with its deadline,
    and the matching of responses to requests.
  \<^item> \<open>Plugin_Config\<close>, \<open>Plugin_Entry\<close>, \<open>Plugin_Docs\<close>, \<open>Plugin\<close> (\<open>src/plugin/plugin.c\<close>):
    configuration flags; one plugin with its key queue, reserved keys and response handling; the
    documents exchanged; the registry with every operation of the manager.
  \<^item> \<open>Key_Slots\<close> (\<open>src/ui/key_slots.c\<close>): moving built-in keys that a plugin reserved.
  \<^item> \<open>Plugin_Client\<close>, \<open>Geoip\<close> (\<open>plugins/geoip\<close>), \<open>C_Format\<close>, \<open>Percentile\<close>
    (\<open>plugins/percentile\<close>): what the two plugins of the repository share, their caches and sample
    windows, and every line they answer.
  \<^item> \<open>Tui\<close>, \<open>Tui_Render\<close>, \<open>Tui_Laws\<close> (\<open>src/ui/tui.c\<close>): the state of the interface with its
    stack of modes, cursors and key handling; every frame as the list of ncurses calls it makes;
    the properties of both.
  \<^item> \<open>Main_Program\<close>, \<open>Main_Laws\<close> (\<open>src/core/main.c\<close>): paths, options, sessions and their
    child processes, one whole turn of the main loop, shutdown; and the composition with the
    logic engines, the rings, the topology graph, the interface and the plugins.
  \<^item> \<open>Tracer\<close> (\<open>src/io/tracer.c\<close>, \<open>src/io/supervisor.c\<close>, \<open>src/io/singular_*.c\<close>): the three
    earlier designs the repository keeps beside the current one.

  \<^bold>\<open>Conventions.\<close>  A struct is a record with the fields of the source, fixed-width integers are
  words, and a global variable is part of the state record an operation takes and returns.  An
  out-of-bounds access, a read of an unset byte, or a loop that does not return is the value
  \<open>None\<close>, and the theorems show it does not occur.  What the kernel, the clock and the resolver
  return is an argument.  A C \<open>int\<close> is an integer, and \<open>c_int\<close> stands where the code adds to one that
  is not bounded otherwise: the counter \<open>next_id\<close> of a channel, whose overflow the field
  \<open>rpc_overflowed\<close> records, and the far edges of what is drawn; the theorems that need it say that
  no overflow happened.  In \<open>Json_Rpc\<close> the results of \<open>write\<close>, \<open>poll\<close>, \<open>read\<close> and
  \<open>clock_gettime\<close> are lists in the record \<open>os\<close>, consumed one per call; past the end of a list
  the call fails, so every run of the model is finite and every finite run of the program is one
  of the model.

  \<^bold>\<open>What is shown.\<close>

  \<^item> Rings: every interleaving delivers a prefix of what was accepted, in order, and the producer
    never writes a slot the consumer may still read; sequentially the ring refines a bounded
    queue, batches are accepted whole or not at all, and the large ring stays in bounds.
  \<^item> Logic: the exact schedule of TTLs and sequence numbers and the count of probes of every hop
    over any number of iterations, an invariant of every iteration, progress, the alias table as
    a refinement of an abstract table, the exact effect of the timeout sweep, and how many
    adjustments under total loss bring the burst of a running engine to 1.
  \<^item> Gatekeeper: every probe is reported at most once over any run, the parsers never read
    outside a packet, answers are recognised through options and extension headers, and an
    iteration returns whatever arrives.
  \<^item> Topology: well-formedness, stable identifiers, registration of every hop, and the links
    between consecutive hops.
  \<^item> JSON: the encoder writes exactly the text of the value within its buffer; skipping,
    member lookup (by the spelling of keys), array iteration and scalar parsing invert it.
  \<^item> JSON-RPC: a call exchanges one request line for a line with its identifier; over any
    sequence of receives no byte of the stream is lost or reordered, and a buffered line is
    returned by the next receive.
  \<^item> Plugins: an invariant of every run of registry operations, exactly which keys are kept from
    the host, keys go out one at a time in order, configuration flags read back, and which key
    triggers which built-in action once keys are reserved.
  \<^item> Main process: an invariant of every run in which turns of the main loop and iterations of the
    engines alternate in any order; every turn returns; the snapshots that wait in the rings are
    merged in one turn and their hops are then in the topology; a child that crashed is forked
    again in the turn that reaps it, which starts it when \<open>fork\<close> succeeds, and the session of one
    that exited is disabled.
  \<^item> Interface: states stay well formed under every key, frame and snapshot, with every cursor on
    an entry that exists; the grid highlights
    the node that Enter selects; the tree is a stable sort; drawing stays on the screen.
  \<^item> Plugins of the repository: the cache of the GeoIP plugin refines a finite map, and host and
    plugin together annotate the trace, when the lookup services answer as they document
    (\<open>service_ok\<close>) and the cache has room; the statistics of a percentile window are those of the
    last minutes that have samples.
  \<^item> Earlier tracers: the checksum verifies on hosts of either byte order; the lemmas
    \<open>timeout_never_fires\<close>, \<open>worker_pass_once\<close> and \<open>broker_reports_pipe_delay\<close> record what these
    designs do not do.

  \<^bold>\<open>Not modelled.\<close>  ncurses, LibTTAK, libcurl, the IP2Location library and the system calls are
  arguments of the definitions that use them.  The options set on sockets, CPU affinity, messages
  on the standard error stream and sleeping have no counterpart, nor have the signals to and the
  reaping of a plugin.  The vtable wrappers only forward and \<open>nsr_json_parse_double\<close> only calls
  \<open>strtod\<close>.  \<open>nsr_logic_on_recv\<close> and \<open>nsr_tui_supervisor_display\<close>, which the earlier designs call,
  are not in the repository.  The benchmarks and the link stubs are not part of the tracer.
\<close>

section \<open>Host and plugin together\<close>

lemma probed_hops_docs:
  "i \<in> set (probed_hops (tel_hops tel) NSR_MAX_HOPS) \<Longrightarrow> hop_addr (tel_hops tel ! i) \<in> doc_addr ` set (telemetry_elems tel topo)"
  by (auto simp: probed_hops_def telemetry_elems_def hop_docs_def hop_doc_def intro!: image_eqI [of _ _ "hop_doc i (tel_hops tel ! i)"])

lemma response_id_label_reply:
  assumes "- (2 ^ 63) \<le> ident" "ident < 2 ^ 63"
  shows "response_id (render (label_reply ident vs)) = ident"
proof -
  let ?d = "label_reply ident vs"
  have c: "c_text (render ?d) = render ?d" unfolding c_text_def using cleanD [OF clean_render] by (subst takeWhile_eq_all_conv) auto
  have "get_text (render ?d) ''id'' = Some (print_lld ident)"
    using get_text_at [OF at_value_render(1) [of ?d, unfolded label_reply_def], of "''id''"] by (simp add: label_reply_def del: render.simps(7))
  moreover have "nsr_json_parse_int (print_lld ident) = (True, Some ident)"
    using strtoll_print [OF assms] length_print_lld [OF assms] by (simp add: nsr_json_parse_int_def)
  ultimately show ?thesis by (auto simp: response_id_def get_text_def c split: option.splits)
qed

text \<open>
  C36: The host and the GeoIP plugin together annotate the trace: when the host sends its
  telemetry as an \<open>update_telemetry\<close> notification and then asks with \<open>render_hops\<close>, the plugin
  answers one line with the identifier of the request, and what the host reads from it is, in
  order, one annotation for every probed hop that has an address, with the country and the
  provider the cache holds for it.  This holds while the 256 entries of the cache are enough for
  all addresses seen so far (nothing is ever removed, so that a full cache leaves new addresses
  without annotation), for addresses that fit their array, and when the two services answer as
  they document: a successful web answer is a JSON text, the texts of the database are printable.
\<close>

theorem geoip_annotates_trace:
  assumes "\<forall>v \<in> set (telemetry_elems tel topo). length (doc_addr v) \<le> 47 \<and> (\<forall>c \<in> set (doc_addr v). survives c)"
    and "geo_inv (gs_cache st)" "geo_texts_ok (gs_cache st)" "service_ok env (gs_ip2loc st)"
    and "card (geo_known st \<union> doc_addr ` set (telemetry_elems tel topo)) \<le> 256"
    and "- (2 ^ 63) \<le> ident" "ident < 2 ^ 63"
  shows "\<exists>st' reply.
    geoip_line env (render (notification_doc ''update_telemetry'' (telemetry_doc tel topo)) @ [CHR 0x0A]) st = Some ([], st') \<and>
    geoip_line env (render (request_doc ''render_hops'' (render_hops_doc (tel_hops tel) NSR_MAX_HOPS) ident) @ [CHR 0x0A]) st' =
      Some (reply @ [CHR 0x0A], st') \<and>
    response_id reply = ident \<and>
    parse_render_hops_response reply NSR_MAX_HOPS [] =
      map (\<lambda>i. \<lparr>an_hop_idx = int i, an_text = the (hop_label (gs_cache st') (tel_hops tel ! i))\<rparr>)
        (filter (\<lambda>i. hop_label (gs_cache st') (tel_hops tel ! i) \<noteq> None) (probed_hops (tel_hops tel) NSR_MAX_HOPS)) \<and>
    (\<forall>i. i \<in> set (probed_hops (tel_hops tel) NSR_MAX_HOPS) \<longrightarrow> hop_addr (tel_hops tel ! i) \<notin> {[], ''Reply Received''} \<longrightarrow>
      hop_label (gs_cache st') (tel_hops tel ! i) \<noteq> None)"
proof -
  let ?hops = "tel_hops tel" and ?idx = "probed_hops (tel_hops tel) NSR_MAX_HOPS"
  obtain st' where st': "geoip_line env (render (notification_doc ''update_telemetry'' (telemetry_doc tel topo)) @ [CHR 0x0A]) st = Some ([], st')"
    "geo_good env st'" "geo_known st' = geo_known st \<union> (doc_addr ` set (telemetry_elems tel topo) - {[], ''Reply Received''})"
    using telemetry_fills_cache [of tel topo env st] assms(1-5) service_answers [OF assms(4)]
    by (auto simp: ip_ok_def GEO_CACHE_SIZE_def geo_good_def)
  have cache: "geo_inv (gs_cache st')" "geo_texts_ok (gs_cache st')" using st'(2) by (simp_all add: geo_good_def)
  have "hop_ok (?hops ! i)" if "i \<in> set ?idx" for i
    using probed_hops_docs [OF that, of topo] assms(1) unfolding hop_ok_def by auto
  then have reply: "geoip_line env (render (request_doc ''render_hops'' (render_hops_doc ?hops NSR_MAX_HOPS) ident) @ [CHR 0x0A]) st' =
      Some (render (label_reply ident (label_docs (gs_cache st') ?hops ?idx)) @ [CHR 0x0A], st')"
    by (intro render_hops_answer cache assms(6,7)) blast
  have labels: "label_annotations cache hops idx = map (\<lambda>i. \<lparr>an_hop_idx = int i, an_text = the (hop_label cache (hops ! i))\<rparr>)
      (filter (\<lambda>i. hop_label cache (hops ! i) \<noteq> None) idx)" for cache hops idx
    by (induction idx) (auto simp: label_annotations_def split: option.split)
  have "hop_label (gs_cache st') (?hops ! i) \<noteq> None" if "i \<in> set ?idx" "hop_addr (?hops ! i) \<notin> {[], ''Reply Received''}" for i
  proof -
    have "hop_addr (?hops ! i) \<in> geo_known st'" using probed_hops_docs [OF that(1), of topo] that(2) st'(3) by blast
    then show ?thesis by (auto simp: hop_label_def geo_known_def)
  qed
  moreover note label_reply_read [OF cache, of ident ?hops NSR_MAX_HOPS, unfolded labels]
  ultimately show ?thesis
    using st'(1) reply response_id_label_reply [OF assms(6,7)] by (intro exI conjI) blast+
qed

definition ex_trace :: nsr_telemetry_state where
  "ex_trace = telemetry_zero\<lparr>tel_hops := (replicate 64 hop_zero)[1 := hop_zero\<lparr>hop_addr := ''10.0.0.1'', hop_sent := 3\<rparr>]\<rparr>"

definition ex_geo_env :: geoip_env where
  "ex_geo_env = \<lparr>env_fetch = \<lambda>_. Some \<lparr>ht_ok = True, ht_code = 200,
       ht_chunks = [render (JObj [(''status'', JStr ''success''), (''countryCode'', JStr ''KR'')]), [CHR 0x0A]]\<rparr>, env_open_db = \<lambda>_. None, env_file = \<lambda>_. None\<rparr>"

definition ex_geo_start :: geoip_state where
  "ex_geo_start = \<lparr>gs_ip2loc = None, gs_cache = geo_zero\<rparr>"

lemma ex_trace_elems: "telemetry_elems ex_trace None = [hop_doc 1 (hop_zero\<lparr>hop_addr := ''10.0.0.1'', hop_sent := 3\<rparr>)]"
proof -
  have "filter (\<lambda>i. hop_sent (tel_hops ex_trace ! i) \<noteq> 0) [1..<NSR_MAX_HOPS] = [1]" by code_simp
  moreover have "tel_hops ex_trace ! 1 = hop_zero\<lparr>hop_addr := ''10.0.0.1'', hop_sent := 3\<rparr>" by (simp add: ex_trace_def)
  ultimately show ?thesis by (simp add: telemetry_elems_def hop_docs_def)
qed

lemma ex_geo_good: "geo_inv (gs_cache ex_geo_start)" "geo_texts_ok (gs_cache ex_geo_start)" "service_ok ex_geo_env (gs_ip2loc ex_geo_start)"
proof -
  have "\<forall>c \<in> set (render v). 32 \<le> (of_char c :: nat)" for v using clean_render [of v] unfolding clean_def .
  then show "service_ok ex_geo_env (gs_ip2loc ex_geo_start)"
    by (simp add: service_ok_def ex_geo_env_def ex_geo_start_def del: render.simps)
qed (use geo_inv_zero in \<open>simp_all add: ex_geo_start_def geo_texts_ok_def geo_zero_def\<close>)

theorem geoip_annotates_trace_witness:
  "\<exists>st' reply.
    geoip_line ex_geo_env (render (notification_doc ''update_telemetry'' (telemetry_doc ex_trace None)) @ [CHR 0x0A]) ex_geo_start = Some ([], st') \<and>
    geoip_line ex_geo_env (render (request_doc ''render_hops'' (render_hops_doc (tel_hops ex_trace) NSR_MAX_HOPS) 5) @ [CHR 0x0A]) st' =
      Some (reply @ [CHR 0x0A], st') \<and>
    response_id reply = 5 \<and>
    parse_render_hops_response reply NSR_MAX_HOPS [] =
      map (\<lambda>i. \<lparr>an_hop_idx = int i, an_text = the (hop_label (gs_cache st') (tel_hops ex_trace ! i))\<rparr>)
        (filter (\<lambda>i. hop_label (gs_cache st') (tel_hops ex_trace ! i) \<noteq> None) (probed_hops (tel_hops ex_trace) NSR_MAX_HOPS))"
proof -
  have "\<forall>v \<in> set (telemetry_elems ex_trace None). length (doc_addr v) \<le> 47 \<and> (\<forall>c \<in> set (doc_addr v). survives c)"
    by (simp add: ex_trace_elems hop_doc_def survives_def)
  moreover have "card (geo_known ex_geo_start \<union> doc_addr ` set (telemetry_elems ex_trace None)) \<le> 256"
    by (simp add: ex_trace_elems geo_known_def ex_geo_start_def geo_lookup_zero)
  ultimately show ?thesis using geoip_annotates_trace [OF _ ex_geo_good, of ex_trace None 5] by fastforce
qed

end
